(* ===== verification/PlantPrelude.thy ===== *)
theory PlantPrelude
  imports Main "HOL-Library.Word"
begin

text \<open>
  Shared vocabulary of the development: the C integer types of
  \<^verbatim>\<open>include/plantos/types.h\<close> as machine words, the search loop
  \<^verbatim>\<open>for (i = 0; i < N; i++) if (P(tab[i])) return i;\<close> that every kernel table uses,
  and the facts on lists and words the component theories share.
\<close>

unbundle bit_operations_syntax

section \<open>Machine integers\<close>

type_synonym u8 = "8 word"
type_synonym u16 = "16 word"
type_synonym u32 = "32 word"
type_synonym u64 = "64 word"

abbreviation PAGE_SIZE :: u64 where
  "PAGE_SIZE \<equiv> 4096"

section \<open>Fact collections\<close>

named_theorems table_simps \<open>facts on fixed-size kernel tables\<close>
named_theorems state_defs \<open>unfolding of state-changing operations\<close>

section \<open>First matching slot of a table\<close>

fun first_idx :: "('a \<Rightarrow> bool) \<Rightarrow> 'a list \<Rightarrow> nat option" where
  "first_idx P [] = None"
| "first_idx P (x # xs) = (if P x then Some 0 else map_option Suc (first_idx P xs))"

lemma first_idx_None_iff [simp]: "first_idx P xs = None \<longleftrightarrow> (\<forall>x \<in> set xs. \<not> P x)"
  by (induction xs) auto

lemma first_idx_SomeD:
  "first_idx P xs = Some i \<Longrightarrow> i < length xs \<and> P (xs ! i) \<and> (\<forall>j < i. \<not> P (xs ! j))"
proof (induction xs arbitrary: i)
  case (Cons x xs)
  then show ?case
    by (auto split: if_splits simp: nth_Cons split: nat.splits)
qed simp

lemma first_idx_SomeI:
  "i < length xs \<Longrightarrow> P (xs ! i) \<Longrightarrow> \<forall>j < i. \<not> P (xs ! j) \<Longrightarrow> first_idx P xs = Some i"
proof (induction xs arbitrary: i)
  case (Cons x xs)
  show ?case
  proof (cases i)
    case (Suc k)
    have "\<forall>j < k. \<not> P (xs ! j)"
      using Cons.prems(3) Suc by force
    moreover have "\<not> P x"
      using Cons.prems(3) Suc by force
    ultimately show ?thesis
      using Cons Suc by simp
  qed (use Cons.prems in simp)
qed simp

lemma first_idx_Some_iff:
  "first_idx P xs = Some i \<longleftrightarrow> i < length xs \<and> P (xs ! i) \<and> (\<forall>j < i. \<not> P (xs ! j))"
  using first_idx_SomeD first_idx_SomeI by blast

lemma first_idx_less [table_simps]: "first_idx P xs = Some i \<Longrightarrow> i < length xs"
  by (simp add: first_idx_Some_iff)

lemma first_idx_P [table_simps]: "first_idx P xs = Some i \<Longrightarrow> P (xs ! i)"
  by (simp add: first_idx_Some_iff)

lemma first_idx_exists: "x \<in> set xs \<Longrightarrow> P x \<Longrightarrow> \<exists>i. first_idx P xs = Some i"
  by (metis first_idx_None_iff not_None_eq)

lemma first_idx_cong:
  "(\<And>x. x \<in> set xs \<Longrightarrow> P x = Q x) \<Longrightarrow> first_idx P xs = first_idx Q xs"
  by (induction xs) auto

text \<open>Updating one slot of a table and searching again.\<close>

lemma first_idx_update_self:
  assumes "i < length xs" and "P v" and "\<And>j. j < length xs \<Longrightarrow> j \<noteq> i \<Longrightarrow> \<not> P (xs ! j)"
  shows "first_idx P (xs[i := v]) = Some i"
  using assms by (auto intro!: first_idx_SomeI simp: nth_list_update)

lemma set_update_same: "i < length xs \<Longrightarrow> v \<in> set (xs[i := v])"
  by (rule set_update_memI)

section \<open>Words\<close>

lemma word_and_push_bit_1:
  fixes w :: "'a::len word"
  assumes "k < LENGTH('a)"
  shows "w AND push_bit k 1 \<noteq> 0 \<longleftrightarrow> bit w k"
proof -
  have "w AND push_bit k 1 \<noteq> 0 \<longleftrightarrow> (\<exists>n. bit (w AND push_bit k 1) n)"
    unfolding bit_eq_iff by (auto dest: bit_imp_le_length)
  also have "\<dots> \<longleftrightarrow> bit w k"
    using assms by (auto simp: bit_simps)
  finally show ?thesis .
qed

lemma bit_or_push_bit_1:
  fixes w :: "'a::len word"
  assumes "k < LENGTH('a)"
  shows "bit (w OR push_bit k 1) n \<longleftrightarrow> bit w n \<or> n = k"
  using assms by (auto simp: bit_simps)

lemma bit_and_not_push_bit_1:
  fixes w :: "'a::len word"
  assumes "k < LENGTH('a)"
  shows "bit (w AND NOT (push_bit k 1)) n \<longleftrightarrow> bit w n \<and> n \<noteq> k"
proof -
  have "bit w n \<Longrightarrow> n < LENGTH('a)" by (rule bit_imp_le_length)
  then show ?thesis
    using assms by (auto simp: bit_simps)
qed

lemma unat_add_no_overflow:
  fixes a b :: "'a::len word"
  shows "unat a + unat b < 2 ^ LENGTH('a) \<Longrightarrow> unat (a + b) = unat a + unat b"
  by (simp add: unat_word_ariths)

lemma unat_bound: "unat (w :: 'a::len word) < 2 ^ LENGTH('a)"
  by (rule unsigned_less)

lemma unat_Suc_less:
  fixes i n :: "'a::len word"
  assumes "i < n"
  shows "unat (i + 1) = Suc (unat i)"
proof -
  have "Suc (unat i) < 2 ^ LENGTH('a)"
    using assms unat_bound [of n] unfolding word_less_nat_alt by linarith
  then show ?thesis
    by (simp add: unat_word_ariths)
qed

lemma unat_ucast_up:
  fixes x :: "'a::len word"
  assumes "LENGTH('a) \<le> LENGTH('b)"
  shows "unat (ucast x :: 'b::len word) = unat x"
proof -
  have "unat x < 2 ^ LENGTH('b)"
    using unat_bound [of x] assms by (meson less_le_trans one_le_numeral power_increasing)
  then show ?thesis
    by (simp add: unsigned_ucast_eq take_bit_nat_eq_self)
qed

lemma unat_ucast_32_64 [simp]: "unat (ucast (x :: u32) :: u64) = unat x"
  by (rule unat_ucast_up) simp

lemma unat_ucast_16_32 [simp]: "unat (ucast (x :: u16) :: u32) = unat x"
  by (rule unat_ucast_up) simp

lemma unat_ucast_8_16 [simp]: "unat (ucast (x :: u8) :: u16) = unat x"
  by (rule unat_ucast_up) simp

lemma unat_ucast_8_32 [simp]: "unat (ucast (x :: u8) :: u32) = unat x"
  by (rule unat_ucast_up) simp

lemma inj_on_word_of_nat: "inj_on (of_nat :: nat \<Rightarrow> 'a::len word) {..<2 ^ LENGTH('a)}"
  by (intro inj_onI) (metis lessThan_iff mod_less unat_of_nat)

lemma card_word_less: "card {p :: 'a::len word. p < n} = unat n"
proof -
  have "{p :: 'a word. p < n} = of_nat ` {..<unat n}"
  proof (intro set_eqI iffI)
    fix p :: "'a word"
    assume "p \<in> {p. p < n}"
    then have "unat p \<in> {..<unat n}" by (simp add: word_less_nat_alt)
    then show "p \<in> of_nat ` {..<unat n}" by (metis image_eqI of_nat_unat ucast_id)
  next
    fix p :: "'a word"
    assume "p \<in> of_nat ` {..<unat n}"
    then obtain x where "p = of_nat x" and "x < unat n" by auto
    then show "p \<in> {p. p < n}"
      by (auto simp: word_less_nat_alt unat_of_nat intro: le_less_trans [OF mod_less_eq_dividend])
  qed
  moreover have "inj_on (of_nat :: nat \<Rightarrow> 'a word) {..<unat n}"
    by (rule inj_on_subset [OF inj_on_word_of_nat]) (simp add: less_imp_le [OF unat_bound])
  ultimately show ?thesis
    by (simp add: card_image)
qed

lemma unat_sub_le:
  fixes a b :: "'a::len word"
  shows "b \<le> a \<Longrightarrow> unat (a - b) = unat a - unat b"
  by (simp add: unat_sub)

lemma and_not_mask_eq: "(x :: 'a::len word) AND NOT (mask k) = push_bit k (drop_bit k x)"
  by (rule bit_word_eqI) (auto simp: bit_simps)

lemma unat_and_not_mask: "unat ((x :: 'a::len word) AND NOT (mask k)) = unat x div 2 ^ k * 2 ^ k"
proof -
  have "push_bit k (drop_bit k (unat x)) < 2 ^ LENGTH('a)"
    unfolding push_bit_eq_mult drop_bit_eq_div
    by (rule le_less_trans [OF div_times_less_eq_dividend unat_bound])
  then show ?thesis
    by (simp add: and_not_mask_eq unsigned_push_bit_eq unsigned_drop_bit_eq take_bit_nat_eq_self)
      (simp add: push_bit_eq_mult drop_bit_eq_div)
qed

lemma align_4096: "unat ((x :: u64) AND NOT 4095) = unat x div 4096 * 4096"
  using unat_and_not_mask [of x 12] by (simp add: mask_eq_exp_minus_1)

lemma align_16: "unat ((x :: u64) AND NOT 15) = unat x div 16 * 16"
  using unat_and_not_mask [of x 4] by (simp add: mask_eq_exp_minus_1)

end
