(* ===== verification/Pmm.thy ===== *)
theory Pmm
  imports PlantPrelude
begin

text \<open>
  The physical page allocator \<^verbatim>\<open>mm/pmm.c\<close>: one bit per 4 KiB frame, set when the frame
  is in use, and a running count of used frames. Each operation the source runs under
  \<^verbatim>\<open>pmm_lock\<close> is one atomic step here. The boot loader's memory map is a parameter:
  \<open>ent p\<close> is the \<^verbatim>\<open>multiboot_mmap_entry\<close> found at address \<open>p\<close>. The abstraction is the
  set of free frames, \<open>free_pages\<close>.
\<close>

section \<open>State and bitmap primitives\<close>

record pmm_state =
  bitmap :: "u8 list"
  bitmap_size :: u64
  total_pages :: u64
  used_pages :: u64

definition bitmap_set :: "u8 list \<Rightarrow> u64 \<Rightarrow> u8 list" where
  "bitmap_set bm page =
     bm[unat (page div 8) := bm ! unat (page div 8) OR push_bit (unat (page mod 8)) 1]"

definition bitmap_clear :: "u8 list \<Rightarrow> u64 \<Rightarrow> u8 list" where
  "bitmap_clear bm page =
     bm[unat (page div 8) := bm ! unat (page div 8) AND NOT (push_bit (unat (page mod 8)) 1)]"

definition bitmap_test :: "u8 list \<Rightarrow> u64 \<Rightarrow> bool" where
  "bitmap_test bm page \<longleftrightarrow> bm ! unat (page div 8) AND push_bit (unat (page mod 8)) 1 \<noteq> 0"

section \<open>Allocation and release\<close>

function pmm_scan :: "u8 list \<Rightarrow> u64 \<Rightarrow> u64 \<Rightarrow> u64 option" where
  "pmm_scan bm npages i =
     (if i < npages
      then (if \<not> bitmap_test bm i then Some i else pmm_scan bm npages (i + 1))
      else None)"
  by pat_completeness auto
termination
  by (relation "measure (\<lambda>(bm, npages, i). unat npages - unat i)")
     (auto simp: unat_Suc_less word_less_nat_alt)

declare pmm_scan.simps [simp del]

definition pmm_alloc_page :: "pmm_state \<Rightarrow> u64 \<times> pmm_state" where
  "pmm_alloc_page s =
     (case pmm_scan (bitmap s) (total_pages s) 0 of
        Some i \<Rightarrow> (i * PAGE_SIZE,
                   s\<lparr>bitmap := bitmap_set (bitmap s) i, used_pages := used_pages s + 1\<rparr>)
      | None \<Rightarrow> (0, s))"

definition pmm_mark_page_used :: "u64 \<Rightarrow> pmm_state \<Rightarrow> pmm_state" where
  "pmm_mark_page_used addr s =
     (let page = addr div PAGE_SIZE in
      if page < total_pages s \<and> \<not> bitmap_test (bitmap s) page
      then s\<lparr>bitmap := bitmap_set (bitmap s) page, used_pages := used_pages s + 1\<rparr>
      else s)"

definition pmm_free_page :: "u64 \<Rightarrow> pmm_state \<Rightarrow> pmm_state" where
  "pmm_free_page addr s =
     (let page = addr div PAGE_SIZE in
      if page < total_pages s \<and> bitmap_test (bitmap s) page
      then s\<lparr>bitmap := bitmap_clear (bitmap s) page, used_pages := used_pages s - 1\<rparr>
      else s)"

definition pmm_get_total_pages :: "pmm_state \<Rightarrow> u64" where
  "pmm_get_total_pages s = total_pages s"

definition pmm_get_used_pages :: "pmm_state \<Rightarrow> u64" where
  "pmm_get_used_pages s = used_pages s"

definition pmm_get_free_pages :: "pmm_state \<Rightarrow> u64" where
  "pmm_get_free_pages s = total_pages s - used_pages s"

section \<open>Bitmap laws\<close>

lemma bitmap_test_bit: "bitmap_test bm p \<longleftrightarrow> bit (bm ! (unat p div 8)) (unat p mod 8)"
  unfolding bitmap_test_def by (simp only: unat_div unat_mod) (subst word_and_push_bit_1, auto)

lemma length_bitmap_set [simp]: "length (bitmap_set bm p) = length bm"
  by (simp add: bitmap_set_def)

lemma length_bitmap_clear [simp]: "length (bitmap_clear bm p) = length bm"
  by (simp add: bitmap_clear_def)

lemma page_eq_div_mod:
  fixes p q :: u64
  shows "p = q \<longleftrightarrow> unat p div 8 = unat q div 8 \<and> unat p mod 8 = unat q mod 8"
  by (metis div_mult_mod_eq word_unat_eq_iff)

lemma bitmap_test_set:
  assumes "unat p div 8 < length bm"
  shows "bitmap_test (bitmap_set bm p) q \<longleftrightarrow> q = p \<or> bitmap_test bm q"
  using assms
  by (auto simp: bitmap_test_bit bitmap_set_def nth_list_update page_eq_div_mod [of q p]
        unat_div unat_mod bit_or_push_bit_1 simp del: push_bit_of_1)

lemma bitmap_test_clear:
  assumes "unat p div 8 < length bm"
  shows "bitmap_test (bitmap_clear bm p) q \<longleftrightarrow> q \<noteq> p \<and> bitmap_test bm q"
  using assms
  by (auto simp: bitmap_test_bit bitmap_clear_def nth_list_update page_eq_div_mod [of q p]
        unat_div unat_mod bit_and_not_push_bit_1 simp del: push_bit_of_1)

lemma bitmap_clear_set:
  assumes "unat p div 8 < length bm" and "\<not> bitmap_test bm p"
  shows "bitmap_clear (bitmap_set bm p) p = bm"
proof -
  let ?i = "unat (p div 8)" and ?k = "unat (p mod 8)"
  have i: "?i < length bm"
    using assms(1) by (simp add: unat_div)
  have nb: "\<not> bit (bm ! ?i) ?k"
    using assms(2) by (simp add: bitmap_test_bit unat_div unat_mod)
  have "(bm ! ?i OR push_bit ?k 1) AND NOT (push_bit ?k 1) = bm ! ?i"
    by (rule bit_word_eqI) (use nb in \<open>auto simp: bit_simps simp del: push_bit_of_1\<close>)
  then show ?thesis
    using i by (simp add: bitmap_clear_def bitmap_set_def del: push_bit_of_1)
qed

section \<open>Abstraction and invariant\<close>

definition free_pages :: "pmm_state \<Rightarrow> u64 set" where
  "free_pages s = {p. p < total_pages s \<and> \<not> bitmap_test (bitmap s) p}"

definition busy_pages :: "pmm_state \<Rightarrow> u64 set" where
  "busy_pages s = {p. p < total_pages s \<and> bitmap_test (bitmap s) p}"

definition pmm_wf :: "pmm_state \<Rightarrow> bool" where
  "pmm_wf s \<longleftrightarrow>
     length (bitmap s) = unat (bitmap_size s) \<and>
     unat (total_pages s) \<le> 8 * length (bitmap s) \<and>
     unat (total_pages s) \<le> 2 ^ 52 \<and>
     unat (used_pages s) = card (busy_pages s)"

lemma busy_free_partition:
  "busy_pages s \<union> free_pages s = {p. p < total_pages s}" "busy_pages s \<inter> free_pages s = {}"
  by (auto simp: busy_pages_def free_pages_def)

lemma card_busy_free: "card (busy_pages s) + card (free_pages s) = unat (total_pages s)"
  using card_Un_disjoint [of "busy_pages s" "free_pages s"] busy_free_partition [of s]
  by (simp add: card_word_less)

lemma page_in_bitmap:
  "pmm_wf s \<Longrightarrow> p < total_pages s \<Longrightarrow> unat p div 8 < length (bitmap s)"
  by (auto simp: pmm_wf_def word_less_nat_alt)

lemma page_addr_no_overflow:
  "pmm_wf s \<Longrightarrow> p < total_pages s \<Longrightarrow> unat (p * PAGE_SIZE) = unat p * 4096"
  by (auto simp: pmm_wf_def word_less_nat_alt unat_word_ariths)

lemma page_addr_div:
  "pmm_wf s \<Longrightarrow> p < total_pages s \<Longrightarrow> p * PAGE_SIZE div PAGE_SIZE = p"
  by (rule word_unat_eq_iff [THEN iffD2]) (simp add: unat_div page_addr_no_overflow)

definition pmm_occupy :: "u64 \<Rightarrow> pmm_state \<Rightarrow> pmm_state" where
  "pmm_occupy p s = s\<lparr>bitmap := bitmap_set (bitmap s) p, used_pages := used_pages s + 1\<rparr>"

definition pmm_vacate :: "u64 \<Rightarrow> pmm_state \<Rightarrow> pmm_state" where
  "pmm_vacate p s = s\<lparr>bitmap := bitmap_clear (bitmap s) p, used_pages := used_pages s - 1\<rparr>"

lemma pmm_occupy_sets:
  assumes "pmm_wf s" and "p \<in> free_pages s"
  shows "free_pages (pmm_occupy p s) = free_pages s - {p}"
    and "busy_pages (pmm_occupy p s) = insert p (busy_pages s)"
  using assms page_in_bitmap [of s p]
  by (auto simp: pmm_occupy_def free_pages_def busy_pages_def bitmap_test_set)

lemma pmm_vacate_sets:
  assumes "pmm_wf s" and "p \<in> busy_pages s"
  shows "free_pages (pmm_vacate p s) = insert p (free_pages s)"
    and "busy_pages (pmm_vacate p s) = busy_pages s - {p}"
  using assms page_in_bitmap [of s p]
  by (auto simp: pmm_vacate_def free_pages_def busy_pages_def bitmap_test_clear)

lemma pmm_occupy_wf:
  assumes "pmm_wf s" and "p \<in> free_pages s"
  shows "pmm_wf (pmm_occupy p s)"
proof -
  have "p \<notin> busy_pages s"
    using assms(2) by (simp add: free_pages_def busy_pages_def)
  then have card: "card (busy_pages (pmm_occupy p s)) = Suc (card (busy_pages s))"
    using assms by (simp add: pmm_occupy_sets)
  have "card (busy_pages (pmm_occupy p s)) \<le> unat (total_pages s)"
    using card_busy_free [of "pmm_occupy p s"] by (simp add: pmm_occupy_def)
  then have "unat (used_pages s + 1) = Suc (card (busy_pages s))"
    using assms(1) card by (simp add: pmm_wf_def unat_word_ariths)
  then show ?thesis
    using assms(1) card by (simp add: pmm_wf_def pmm_occupy_def)
qed

lemma pmm_vacate_wf:
  assumes "pmm_wf s" and "p \<in> busy_pages s"
  shows "pmm_wf (pmm_vacate p s)"
proof -
  have card: "card (busy_pages (pmm_vacate p s)) = card (busy_pages s) - 1"
    using assms by (simp add: pmm_vacate_sets)
  have "0 < card (busy_pages s)"
    using assms(2) by (auto simp: card_gt_0_iff)
  then have "1 \<le> used_pages s"
    using assms(1) by (simp add: pmm_wf_def word_le_nat_alt)
  then have "unat (used_pages s - 1) = card (busy_pages s) - 1"
    using assms(1) by (simp add: pmm_wf_def unat_sub)
  then show ?thesis
    using assms(1) card by (simp add: pmm_wf_def pmm_vacate_def)
qed

section \<open>The scan finds the lowest free frame\<close>

lemma pmm_scan_Some:
  "pmm_scan bm n i = Some j \<Longrightarrow>
     i \<le> j \<and> j < n \<and> \<not> bitmap_test bm j \<and> (\<forall>k. i \<le> k \<longrightarrow> k < j \<longrightarrow> bitmap_test bm k)"
proof (induction bm n i rule: pmm_scan.induct)
  case (1 bm n i)
  show ?case
  proof (cases "i < n \<and> bitmap_test bm i")
    case True
    then have "pmm_scan bm n (i + 1) = Some j"
      using "1.prems" by (simp add: pmm_scan.simps [of bm n i])
    with "1.IH" True have IH: "i + 1 \<le> j" "j < n" "\<not> bitmap_test bm j"
      and all: "\<forall>k. i + 1 \<le> k \<longrightarrow> k < j \<longrightarrow> bitmap_test bm k"
      by auto
    have "i \<le> j"
      using IH(1) unat_Suc_less [of i n] True by (simp add: word_le_nat_alt)
    moreover have "bitmap_test bm k" if "i \<le> k" "k < j" for k
    proof (cases "k = i")
      case False
      then have "i + 1 \<le> k"
        using that(1) unat_Suc_less [of i n] True by (simp add: word_le_nat_alt word_unat_eq_iff)
      with all that(2) show ?thesis by blast
    qed (use True in simp)
    ultimately show ?thesis
      using IH by blast
  next
    case False
    then show ?thesis
      using "1.prems" by (auto simp: pmm_scan.simps [of bm n i] split: if_splits)
  qed
qed

lemma pmm_scan_None:
  "pmm_scan bm n i = None \<Longrightarrow> i \<le> k \<Longrightarrow> k < n \<Longrightarrow> bitmap_test bm k"
proof (induction bm n i rule: pmm_scan.induct)
  case (1 bm n i)
  have i: "i < n"
    using "1.prems"(2,3) by simp
  then have t: "bitmap_test bm i" and r: "pmm_scan bm n (i + 1) = None"
    using "1.prems"(1) by (auto simp: pmm_scan.simps [of bm n i] split: if_splits)
  show ?case
  proof (cases "k = i")
    case False
    then have "i + 1 \<le> k"
      using "1.prems"(2) unat_Suc_less [OF i] by (simp add: word_le_nat_alt word_unat_eq_iff)
    then show ?thesis
      using "1.IH" i t r "1.prems"(3) by simp
  qed (use t in simp)
qed

lemma pmm_scan_0:
  "pmm_scan (bitmap s) (total_pages s) 0 =
     (if free_pages s = {} then None else Some (Min (free_pages s)))"
proof (cases "pmm_scan (bitmap s) (total_pages s) 0")
  case None
  then have "free_pages s = {}"
    using pmm_scan_None [OF None] by (auto simp: free_pages_def)
  with None show ?thesis by simp
next
  case (Some j)
  then have "j \<in> free_pages s" and "\<And>k. k \<in> free_pages s \<Longrightarrow> j \<le> k"
    using pmm_scan_Some [OF Some] by (auto simp: free_pages_def not_le [symmetric])
  then have "Min (free_pages s) = j" and "free_pages s \<noteq> {}"
    by (auto intro: Min_eqI)
  with Some show ?thesis by simp
qed

section \<open>The allocator interface\<close>

text \<open>
  What the clients of the frame allocator (shared memory, page tables, task creation) rely
  on: an allocation takes a frame out of the free set and returns its address, or returns
  the null address when the free set is empty; a release puts the frame back. Frame 0 is
  never free, so the null address is never the address of an allocated frame.
\<close>

fun alloc_frames :: "('s \<Rightarrow> u64 \<times> 's) \<Rightarrow> nat \<Rightarrow> 's \<Rightarrow> u64 list \<times> 's" where
  "alloc_frames alloc 0 s = ([], s)"
| "alloc_frames alloc (Suc n) s =
     (let (a, s1) = alloc s in
      if a = 0 then ([], s1)
      else let (as, s2) = alloc_frames alloc n s1 in (a # as, s2))"

locale frame_allocator =
  fixes alloc :: "'s \<Rightarrow> u64 \<times> 's"
    and release :: "u64 \<Rightarrow> 's \<Rightarrow> 's"
    and frames :: "'s \<Rightarrow> u64 set"
    and nframes :: "'s \<Rightarrow> u64"
    and inv :: "'s \<Rightarrow> bool"
  assumes frames_range: "inv s \<Longrightarrow> p \<in> frames s \<Longrightarrow> p \<noteq> 0 \<and> p < nframes s"
    and frame_addr: "inv s \<Longrightarrow> p < nframes s \<Longrightarrow> p * PAGE_SIZE div PAGE_SIZE = p"
    and alloc_empty: "inv s \<Longrightarrow> frames s = {} \<Longrightarrow> alloc s = (0, s)"
    and alloc_some: "inv s \<Longrightarrow> frames s \<noteq> {} \<Longrightarrow>
       \<exists>p s'. alloc s = (p * PAGE_SIZE, s') \<and> p \<in> frames s \<and> inv s' \<and>
              frames s' = frames s - {p} \<and> nframes s' = nframes s"
    and release_frame: "inv s \<Longrightarrow> p \<noteq> 0 \<Longrightarrow> p < nframes s \<Longrightarrow>
       inv (release (p * PAGE_SIZE) s) \<and>
       frames (release (p * PAGE_SIZE) s) = insert p (frames s) \<and>
       nframes (release (p * PAGE_SIZE) s) = nframes s"
begin

lemma frame_addr_nonzero:
  assumes "inv s" and "p \<in> frames s"
  shows "p * PAGE_SIZE \<noteq> 0"
proof
  assume "p * PAGE_SIZE = 0"
  then have "p = 0"
    using frame_addr [OF assms(1)] frames_range [OF assms] by (metis div_0)
  then show False
    using frames_range [OF assms] by simp
qed

lemma alloc_null_iff: "inv s \<Longrightarrow> fst (alloc s) = 0 \<longleftrightarrow> frames s = {}"
  using alloc_empty alloc_some frame_addr_nonzero by (metis fst_conv)

lemma alloc_frames_spec:
  assumes "inv s" and "alloc_frames alloc n s = (as, s')"
  shows "\<exists>ps. as = map (\<lambda>p. p * PAGE_SIZE) ps \<and> distinct ps \<and> set ps \<subseteq> frames s \<and>
     inv s' \<and> frames s' = frames s - set ps \<and> nframes s' = nframes s \<and>
     (length ps < n \<longrightarrow> frames s' = {}) \<and> length ps \<le> n"
  using assms
proof (induction n arbitrary: s as s')
  case 0
  then show ?case by auto
next
  case (Suc n)
  show ?case
  proof (cases "frames s = {}")
    case True
    then show ?thesis
      using Suc.prems alloc_empty [OF Suc.prems(1) True] by auto
  next
    case False
    then obtain p s1 where p: "alloc s = (p * PAGE_SIZE, s1)" "p \<in> frames s" "inv s1"
        "frames s1 = frames s - {p}" "nframes s1 = nframes s"
      using alloc_some [OF Suc.prems(1)] by blast
    obtain as1 s2 where r: "alloc_frames alloc n s1 = (as1, s2)"
      by fastforce
    have "as = p * PAGE_SIZE # as1" and "s' = s2"
      using Suc.prems(2) p(1) r frame_addr_nonzero [OF Suc.prems(1) p(2)] by auto
    moreover obtain ps where "as1 = map (\<lambda>p. p * PAGE_SIZE) ps" "distinct ps"
        "set ps \<subseteq> frames s1" "inv s2" "frames s2 = frames s1 - set ps" "nframes s2 = nframes s1"
        "length ps < n \<longrightarrow> frames s2 = {}" "length ps \<le> n"
      using Suc.IH [OF p(3) r] by blast
    ultimately show ?thesis
      using p by (intro exI [of _ "p # ps"]) auto
  qed
qed

lemma release_all:
  assumes "inv s" and "\<forall>p \<in> set ps. p \<noteq> 0 \<and> p < nframes s"
  shows "inv (fold release (map (\<lambda>p. p * PAGE_SIZE) ps) s) \<and>
     frames (fold release (map (\<lambda>p. p * PAGE_SIZE) ps) s) = set ps \<union> frames s \<and>
     nframes (fold release (map (\<lambda>p. p * PAGE_SIZE) ps) s) = nframes s"
  using assms by (induction ps arbitrary: s) (auto simp: release_frame)

text \<open>Giving back everything a run of allocations obtained restores the free set.\<close>

lemma alloc_frames_release:
  assumes "inv s" and "alloc_frames alloc n s = (as, s')"
  shows "inv (fold release as s') \<and> frames (fold release as s') = frames s"
proof -
  obtain ps where ps: "as = map (\<lambda>p. p * PAGE_SIZE) ps" "set ps \<subseteq> frames s" "inv s'"
      "frames s' = frames s - set ps" "nframes s' = nframes s"
    using alloc_frames_spec [OF assms] by blast
  then have "\<forall>p \<in> set ps. p \<noteq> 0 \<and> p < nframes s'"
    using frames_range [OF assms(1)] by auto
  from release_all [OF ps(3) this] show ?thesis
    using ps by auto
qed

end

section \<open>The page allocator provides the interface\<close>

definition pmm_inv :: "pmm_state \<Rightarrow> bool" where
  "pmm_inv s \<longleftrightarrow> pmm_wf s \<and> 0 \<notin> free_pages s"

lemma pmm_alloc_page_eq:
  "pmm_alloc_page s =
     (if free_pages s = {} then (0, s)
      else (Min (free_pages s) * PAGE_SIZE, pmm_occupy (Min (free_pages s)) s))"
  by (simp add: pmm_alloc_page_def pmm_scan_0 pmm_occupy_def)

lemma pmm_free_page_eq:
  "pmm_free_page a s =
     (if a div PAGE_SIZE \<in> busy_pages s then pmm_vacate (a div PAGE_SIZE) s else s)"
  by (simp add: pmm_free_page_def pmm_vacate_def busy_pages_def Let_def)

lemma pmm_mark_page_used_eq:
  "pmm_mark_page_used a s =
     (if a div PAGE_SIZE \<in> free_pages s then pmm_occupy (a div PAGE_SIZE) s else s)"
  by (simp add: pmm_mark_page_used_def pmm_occupy_def free_pages_def Let_def)

lemma pmm_free_count:
  assumes "pmm_inv s"
  shows "unat (pmm_get_free_pages s) = card (free_pages s)"
proof -
  have u: "unat (used_pages s) = card (busy_pages s)"
    using assms by (simp add: pmm_inv_def pmm_wf_def)
  then have "used_pages s \<le> total_pages s"
    using card_busy_free [of s] by (simp add: word_le_nat_alt)
  then show ?thesis
    using card_busy_free [of s] u by (simp add: pmm_get_free_pages_def unat_sub_le)
qed

lemma pmm_inv_alloc_page:
  assumes "pmm_inv s"
  shows "pmm_inv (snd (pmm_alloc_page s))"
proof (cases "free_pages s = {}")
  case False
  then have "Min (free_pages s) \<in> free_pages s"
    by (intro Min_in) simp_all
  then show ?thesis
    using assms False by (simp add: pmm_alloc_page_eq pmm_inv_def pmm_occupy_wf pmm_occupy_sets)
qed (use assms in \<open>simp add: pmm_alloc_page_eq\<close>)

lemma total_pages_occupy [simp]: "total_pages (pmm_occupy p s) = total_pages s"
  by (simp add: pmm_occupy_def)

lemma total_pages_vacate [simp]: "total_pages (pmm_vacate p s) = total_pages s"
  by (simp add: pmm_vacate_def)

interpretation pmm: frame_allocator pmm_alloc_page pmm_free_page free_pages total_pages pmm_inv
proof (unfold_locales, goal_cases)
  case (1 s p)
  then show ?case by (auto simp: pmm_inv_def free_pages_def)
next
  case (2 s p)
  then show ?case by (intro page_addr_div) (auto simp: pmm_inv_def)
next
  case (3 s)
  then show ?case by (simp add: pmm_alloc_page_eq)
next
  case (4 s)
  let ?p = "Min (free_pages s)"
  have p: "?p \<in> free_pages s"
    using 4 by (intro Min_in) simp_all
  then have "pmm_inv (pmm_occupy ?p s)"
    using pmm_inv_alloc_page [OF 4(1)] 4(2) by (simp add: pmm_alloc_page_eq)
  then show ?case
    using 4 p by (intro exI [of _ ?p] exI [of _ "pmm_occupy ?p s"])
      (simp add: pmm_alloc_page_eq pmm_inv_def pmm_occupy_sets)
next
  case (5 s p)
  then have wf: "pmm_wf s"
    by (simp add: pmm_inv_def)
  with 5(3) have div: "p * PAGE_SIZE div PAGE_SIZE = p"
    by (rule page_addr_div [rotated])
  show ?case
  proof (cases "p \<in> busy_pages s")
    case True
    then show ?thesis
      using 5 wf div by (simp add: pmm_free_page_eq pmm_inv_def pmm_vacate_wf pmm_vacate_sets)
  next
    case False
    then have "p \<in> free_pages s"
      using 5 by (simp add: busy_pages_def free_pages_def)
    then show ?thesis
      using 5 div False by (simp add: pmm_free_page_eq insert_absorb)
  qed
qed

end
