(* ===== verification/PmmInit.thy ===== *)
theory PmmInit
  imports Pmm
begin

text \<open>
  Boot of the page allocator, \<^verbatim>\<open>pmm_init\<close> of \<^verbatim>\<open>mm/pmm.c\<close>. The boot loader's
  \<^verbatim>\<open>multiboot_info\<close> and the memory holding its map entries are parameters, and so is the
  linker symbol \<^verbatim>\<open>_kernel_end\<close>. Releasing a region walks it frame by frame with a 64-bit
  counter that may wrap round, so it is a partial function; the theorem shows that it
  returns for every map below the 52-bit physical address limit.
\<close>

section \<open>Boot information\<close>

record multiboot_info =
  mb_flags :: u32
  mem_lower :: u32
  mem_upper :: u32
  boot_device :: u32
  cmdline :: u32
  mods_count :: u32
  mods_addr :: u32
  syms :: "u32 list"
  mmap_length :: u32
  mmap_addr :: u32

record mmap_entry =
  me_size :: u32
  me_addr :: u64
  me_len :: u64
  me_type :: u32

function mmap_entries :: "(u64 \<Rightarrow> mmap_entry) \<Rightarrow> u32 \<Rightarrow> u64 \<Rightarrow> mmap_entry list" where
  "mmap_entries ent mend p =
     (if p < ucast mend then ent p # mmap_entries ent mend (p + ucast (me_size (ent p)) + 4) else [])"
  by pat_completeness auto
termination
proof (relation "measure (\<lambda>(ent, mend, p). unat mend - unat p)", goal_cases)
  case (2 ent mend p)
  have "unat p < unat mend"
    using 2 by (simp add: word_less_nat_alt)
  moreover have "unat mend < 2 ^ 32" and "unat (me_size (ent p)) < 2 ^ 32"
    using unat_bound [of mend] unat_bound [of "me_size (ent p)"] by simp_all
  ultimately have "unat (p + ucast (me_size (ent p)) + 4) = unat p + unat (me_size (ent p)) + 4"
    by (simp add: unat_word_ariths)
  with \<open>unat p < unat mend\<close> show ?case by simp
qed simp

declare mmap_entries.simps [simp del]

definition mb_entries :: "(u64 \<Rightarrow> mmap_entry) \<Rightarrow> multiboot_info \<Rightarrow> mmap_entry list" where
  "mb_entries ent mb = mmap_entries ent (mmap_addr mb + mmap_length mb) (ucast (mmap_addr mb))"

definition mmap_max_end :: "mmap_entry list \<Rightarrow> u64" where
  "mmap_max_end es =
     fold (\<lambda>e m. if me_type e = 1
                 then (let end = me_addr e + me_len e in if m < end then end else m)
                 else m) es 0"

definition pmm_detect :: "(u64 \<Rightarrow> mmap_entry) \<Rightarrow> multiboot_info \<Rightarrow> u64" where
  "pmm_detect ent mb =
     (let m0 = (if mb_flags mb AND 0x40 \<noteq> 0 then mmap_max_end (mb_entries ent mb) else 0);
          m1 = (if m0 = 0 \<and> mb_flags mb AND 0x1 \<noteq> 0 then ucast (mem_upper mb + 1024) * 1024 else m0)
      in if m1 = 0 then 128 * 1024 * 1024 else m1)"

section \<open>Releasing and protecting ranges\<close>

definition page_align_up :: "u64 \<Rightarrow> u64" where
  "page_align_up a = (a + PAGE_SIZE - 1) AND NOT (PAGE_SIZE - 1)"

definition pmm_release :: "u64 \<Rightarrow> pmm_state \<Rightarrow> pmm_state" where
  "pmm_release page s =
     (if page < total_pages s \<and> bitmap_test (bitmap s) page
      then s\<lparr>bitmap := bitmap_clear (bitmap s) page, used_pages := used_pages s - 1\<rparr>
      else s)"

partial_function (option) pmm_free_region :: "u64 \<Rightarrow> u64 \<Rightarrow> pmm_state \<Rightarrow> pmm_state option" where
  "pmm_free_region end addr s =
     (if addr + PAGE_SIZE \<le> end
      then pmm_free_region end (addr + PAGE_SIZE) (pmm_release (addr div PAGE_SIZE) s)
      else Some s)"

fun pmm_free_entries :: "mmap_entry list \<Rightarrow> pmm_state \<Rightarrow> pmm_state option" where
  "pmm_free_entries [] s = Some s"
| "pmm_free_entries (e # es) s =
     (if me_type e = 1
      then (case pmm_free_region (me_addr e + me_len e) (page_align_up (me_addr e)) s of
              None \<Rightarrow> None
            | Some s' \<Rightarrow> pmm_free_entries es s')
      else pmm_free_entries es s)"

definition pmm_protect :: "u64 \<Rightarrow> pmm_state \<Rightarrow> pmm_state" where
  "pmm_protect i s =
     (if \<not> bitmap_test (bitmap s) i
      then s\<lparr>bitmap := bitmap_set (bitmap s) i, used_pages := used_pages s + 1\<rparr>
      else s)"

definition page_range :: "nat \<Rightarrow> nat \<Rightarrow> u64 list" where
  "page_range a b = map of_nat [a..<b]"

definition pmm_protected_end :: "u64 \<Rightarrow> u64 \<Rightarrow> u64" where
  "pmm_protected_end kernel_end bsize = page_align_up (page_align_up kernel_end + bsize)"

definition pmm_init :: "(u64 \<Rightarrow> mmap_entry) \<Rightarrow> u64 \<Rightarrow> multiboot_info \<Rightarrow> pmm_state option" where
  "pmm_init ent kernel_end mb =
     (let max_addr = pmm_detect ent mb;
          tpages = max_addr div PAGE_SIZE;
          bsize = (tpages + 7) div 8;
          s0 = \<lparr>bitmap = replicate (unat bsize) 0xFF, bitmap_size = bsize,
                total_pages = tpages, used_pages = tpages\<rparr>;
          released =
            (if mb_flags mb AND 0x40 \<noteq> 0 then pmm_free_entries (mb_entries ent mb) s0
             else Some (fold (\<lambda>i s. s\<lparr>bitmap := bitmap_clear (bitmap s) i,
                                     used_pages := used_pages s - 1\<rparr>)
                             (page_range 256 (unat tpages)) s0));
          pend = pmm_protected_end kernel_end bsize div PAGE_SIZE
      in case released of
           None \<Rightarrow> None
         | Some s1 \<Rightarrow>
             (let s2 = fold pmm_protect (page_range 0 256) s1
              in Some (fold pmm_protect (page_range 256 (min (unat pend) (unat tpages))) s2)))"

section \<open>Effect on the free set\<close>

lemma unat_page_align_up:
  "unat a + 4095 < 2 ^ 64 \<Longrightarrow> unat (page_align_up a) = (unat a + 4095) div 4096 * 4096"
proof -
  assume "unat a + 4095 < 2 ^ 64"
  then have "unat (a + 4095) = unat a + 4095"
    by (subst unat_add_no_overflow) simp_all
  moreover have "page_align_up a = (a + 4095) AND NOT 4095"
    by (simp add: page_align_up_def algebra_simps)
  ultimately show ?thesis
    using align_4096 [of "a + 4095"] by (simp only:)
qed

lemma pmm_release_spec:
  assumes "pmm_wf s"
  shows "pmm_wf (pmm_release p s) \<and> total_pages (pmm_release p s) = total_pages s \<and>
     free_pages (pmm_release p s) = free_pages s \<union> {q. q = p \<and> q < total_pages s}"
proof (cases "p \<in> busy_pages s")
  case True
  then have "pmm_release p s = pmm_vacate p s" and "p < total_pages s"
    by (simp_all add: pmm_release_def pmm_vacate_def busy_pages_def)
  then show ?thesis
    using assms True by (auto simp: pmm_vacate_wf pmm_vacate_sets)
next
  case False
  then have "pmm_release p s = s"
    by (auto simp: pmm_release_def busy_pages_def)
  moreover have "p < total_pages s \<Longrightarrow> p \<in> free_pages s"
    using False by (simp add: busy_pages_def free_pages_def)
  ultimately show ?thesis
    using assms by auto
qed

lemma pmm_free_region_spec:
  assumes "pmm_wf s" and "unat end \<le> 2 ^ 52" and "unat addr = k * 4096" and "unat addr \<le> 2 ^ 53"
  shows "\<exists>s'. pmm_free_region end addr s = Some s' \<and> pmm_wf s' \<and> total_pages s' = total_pages s \<and>
     free_pages s' = free_pages s \<union>
       {p. p < total_pages s \<and> unat addr \<le> unat p * 4096 \<and> unat p * 4096 + 4096 \<le> unat end}"
  using assms
proof (induction "unat end + 4096 - unat addr" arbitrary: addr s k rule: less_induct)
  case less
  have sum: "unat (addr + PAGE_SIZE) = unat addr + 4096"
    using less.prems(4) by (simp add: unat_word_ariths)
  show ?case
  proof (cases "addr + PAGE_SIZE \<le> end")
    case False
    then show ?thesis
      using less.prems sum by (subst pmm_free_region.simps) (auto simp: word_le_nat_alt)
  next
    case True
    let ?s = "pmm_release (addr div PAGE_SIZE) s"
    have r: "pmm_wf ?s" "total_pages ?s = total_pages s"
        "free_pages ?s = free_pages s \<union> {q. q = addr div PAGE_SIZE \<and> q < total_pages s}"
      using pmm_release_spec [OF less.prems(1)] by auto
    have le: "unat addr + 4096 \<le> unat end"
      using True sum by (simp add: word_le_nat_alt)
    have k: "unat (addr + PAGE_SIZE) = (k + 1) * 4096"
      using sum less.prems(3) by simp
    have bound: "unat (addr + PAGE_SIZE) \<le> 2 ^ 53"
      using le less.prems(2) sum by simp
    have dec: "unat end + 4096 - unat (addr + PAGE_SIZE) < unat end + 4096 - unat addr"
      using le sum by simp
    obtain s' where s': "pmm_free_region end (addr + PAGE_SIZE) ?s = Some s'" "pmm_wf s'"
        "total_pages s' = total_pages s"
        "free_pages s' = free_pages ?s \<union> {p. p < total_pages s \<and>
           unat (addr + PAGE_SIZE) \<le> unat p * 4096 \<and> unat p * 4096 + 4096 \<le> unat end}"
      using less.hyps [OF dec r(1) less.prems(2) k bound] r(2) by auto
    have q: "q = addr div PAGE_SIZE \<longleftrightarrow> unat q = k" for q :: u64
      using less.prems(3) by (simp add: word_unat_eq_iff unat_div)
    have split: "k * 4096 \<le> n * 4096 \<and> n * 4096 + 4096 \<le> unat end \<longleftrightarrow>
        n = k \<or> (k + 1) * 4096 \<le> n * 4096 \<and> n * 4096 + 4096 \<le> unat end" for n :: nat
      using le less.prems(3) by (cases "n = k") auto
    have "{p. p < total_pages s \<and> unat addr \<le> unat p * 4096 \<and> unat p * 4096 + 4096 \<le> unat end}
        = {q. q = addr div PAGE_SIZE \<and> q < total_pages s} \<union>
          {p. p < total_pages s \<and> unat (addr + PAGE_SIZE) \<le> unat p * 4096 \<and>
              unat p * 4096 + 4096 \<le> unat end}"
      unfolding q k less.prems(3) split by blast
    then show ?thesis
      using True s' r(3) by (subst pmm_free_region.simps) auto
  qed
qed

definition entry_pages :: "mmap_entry \<Rightarrow> u64 set" where
  "entry_pages e =
     (if me_type e = 1
      then {p. unat (me_addr e) \<le> unat p * 4096 \<and>
               unat p * 4096 + 4096 \<le> unat (me_addr e) + unat (me_len e)}
      else {})"

definition entry_ok :: "mmap_entry \<Rightarrow> bool" where
  "entry_ok e \<longleftrightarrow> (me_type e = 1 \<longrightarrow> unat (me_addr e) + unat (me_len e) \<le> 2 ^ 52)"

lemma align_up_le: "((a :: nat) + 4095) div 4096 * 4096 \<le> n * 4096 \<longleftrightarrow> a \<le> n * 4096"
proof -
  have "(a + 4095) div 4096 * 4096 \<le> n * 4096 \<longleftrightarrow> (a + 4095) div 4096 < Suc n"
    by (simp only: mult_le_cancel2 less_Suc_eq_le) simp
  also have "\<dots> \<longleftrightarrow> a + 4095 < Suc n * 4096"
    by (subst div_less_iff_less_mult) simp_all
  also have "\<dots> \<longleftrightarrow> a \<le> n * 4096"
    by auto
  finally show ?thesis .
qed

lemma pmm_free_entries_spec:
  assumes "pmm_wf s" and "\<forall>e \<in> set es. entry_ok e"
  shows "\<exists>s'. pmm_free_entries es s = Some s' \<and> pmm_wf s' \<and> total_pages s' = total_pages s \<and>
     free_pages s' = free_pages s \<union> {p. p < total_pages s \<and> p \<in> (\<Union>e \<in> set es. entry_pages e)}"
  using assms
proof (induction es arbitrary: s)
  case Nil
  then show ?case by simp
next
  case (Cons e es)
  show ?case
  proof (cases "me_type e = 1")
    case False
    then show ?thesis
      using Cons by (auto simp: entry_pages_def)
  next
    case True
    then have ok: "unat (me_addr e) + unat (me_len e) \<le> 2 ^ 52"
      using Cons.prems(2) by (simp add: entry_ok_def)
    then have stop: "unat (me_addr e + me_len e) = unat (me_addr e) + unat (me_len e)"
      by (intro unat_add_no_overflow) simp
    have start: "unat (page_align_up (me_addr e)) = (unat (me_addr e) + 4095) div 4096 * 4096"
      using ok by (intro unat_page_align_up) simp
    have "(unat (me_addr e) + 4095) div 4096 * 4096 \<le> unat (me_addr e) + 4095"
      by (rule div_times_less_eq_dividend)
    then have start_le: "unat (page_align_up (me_addr e)) \<le> 2 ^ 53"
      using ok unfolding start by simp
    have stop_le: "unat (me_addr e + me_len e) \<le> 2 ^ 52"
      using ok stop by simp
    obtain s1 where s1: "pmm_free_region (me_addr e + me_len e) (page_align_up (me_addr e)) s = Some s1"
        "pmm_wf s1" "total_pages s1 = total_pages s"
        "free_pages s1 = free_pages s \<union> {p. p < total_pages s \<and>
           unat (page_align_up (me_addr e)) \<le> unat p * 4096 \<and>
           unat p * 4096 + 4096 \<le> unat (me_addr e + me_len e)}"
      using pmm_free_region_spec [OF Cons.prems(1) stop_le start start_le] by blast
    have "entry_pages e = {p. unat (me_addr e) \<le> unat p * 4096 \<and>
        unat p * 4096 + 4096 \<le> unat (me_addr e) + unat (me_len e)}"
      using True by (simp add: entry_pages_def)
    then have "free_pages s1 = free_pages s \<union> {p. p < total_pages s \<and> p \<in> entry_pages e}"
      using s1(4) by (simp only: start stop align_up_le mem_Collect_eq)
    moreover obtain s2 where "pmm_free_entries es s1 = Some s2" "pmm_wf s2"
        "total_pages s2 = total_pages s1"
        "free_pages s2 = free_pages s1 \<union> {p. p < total_pages s1 \<and> p \<in> (\<Union>e \<in> set es. entry_pages e)}"
      using Cons.IH [OF s1(2)] Cons.prems(2) by auto
    ultimately show ?thesis
      using True s1 by auto
  qed
qed

lemma pmm_protect_spec:
  assumes "pmm_wf s" and "i < total_pages s"
  shows "pmm_wf (pmm_protect i s) \<and> total_pages (pmm_protect i s) = total_pages s \<and>
     free_pages (pmm_protect i s) = free_pages s - {i}"
proof (cases "i \<in> free_pages s")
  case True
  then have "pmm_protect i s = pmm_occupy i s"
    by (simp add: pmm_protect_def pmm_occupy_def free_pages_def)
  then show ?thesis
    using assms True by (simp add: pmm_occupy_wf pmm_occupy_sets)
next
  case False
  then have "pmm_protect i s = s"
    using assms(2) by (simp add: pmm_protect_def free_pages_def)
  then show ?thesis
    using assms False by simp
qed

lemma fold_pmm_protect:
  "pmm_wf s \<Longrightarrow> \<forall>i \<in> set xs. i < total_pages s \<Longrightarrow>
     pmm_wf (fold pmm_protect xs s) \<and> total_pages (fold pmm_protect xs s) = total_pages s \<and>
     free_pages (fold pmm_protect xs s) = free_pages s - set xs"
  by (induction xs arbitrary: s) (auto simp: pmm_protect_spec)

lemma fold_pmm_vacate:
  "pmm_wf s \<Longrightarrow> set xs \<subseteq> busy_pages s \<Longrightarrow> distinct xs \<Longrightarrow>
     pmm_wf (fold pmm_vacate xs s) \<and> total_pages (fold pmm_vacate xs s) = total_pages s \<and>
     free_pages (fold pmm_vacate xs s) = free_pages s \<union> set xs"
proof (induction xs arbitrary: s)
  case (Cons x xs)
  then have "pmm_wf (pmm_vacate x s)" and "set xs \<subseteq> busy_pages (pmm_vacate x s)"
    by (auto simp: pmm_vacate_wf pmm_vacate_sets)
  then show ?case
    using Cons by (auto simp: pmm_vacate_sets)
qed simp

lemma set_page_range:
  assumes "b \<le> 2 ^ 64"
  shows "set (page_range a b) = {p. a \<le> unat p \<and> unat p < b}"
proof (intro set_eqI iffI)
  fix p
  assume "p \<in> set (page_range a b)"
  then obtain n where "p = of_nat n" "a \<le> n" "n < b"
    by (auto simp: page_range_def)
  moreover have "unat (of_nat n :: u64) = n"
    using calculation(3) assms by (simp add: unat_of_nat)
  ultimately show "p \<in> {p. a \<le> unat p \<and> unat p < b}" by simp
next
  fix p :: u64
  assume "p \<in> {p. a \<le> unat p \<and> unat p < b}"
  then have "unat p \<in> set [a..<b]" by simp
  then show "p \<in> set (page_range a b)"
    unfolding page_range_def by (metis image_eqI list.set_map of_nat_unat ucast_id)
qed

lemma distinct_page_range:
  assumes "b \<le> 2 ^ 64"
  shows "distinct (page_range a b)"
proof -
  have "{a..<b} \<subseteq> {..<2 ^ LENGTH(64)}"
    using assms by (auto intro: less_le_trans)
  then have "inj_on (of_nat :: nat \<Rightarrow> u64) {a..<b}"
    by (rule inj_on_subset [OF inj_on_word_of_nat])
  then show ?thesis
    by (simp add: page_range_def distinct_map)
qed

section \<open>The initial state\<close>

definition pmm_boot_state :: "u64 \<Rightarrow> pmm_state" where
  "pmm_boot_state tpages =
     \<lparr>bitmap = replicate (unat ((tpages + 7) div 8)) 0xFF, bitmap_size = (tpages + 7) div 8,
      total_pages = tpages, used_pages = tpages\<rparr>"

lemma pmm_boot_state_spec:
  assumes "unat tpages \<le> 2 ^ 52"
  shows "pmm_wf (pmm_boot_state tpages) \<and> free_pages (pmm_boot_state tpages) = {} \<and>
     busy_pages (pmm_boot_state tpages) = {p. p < tpages}"
proof -
  let ?s = "pmm_boot_state tpages"
  have len: "unat ((tpages + 7) div 8) = (unat tpages + 7) div 8"
    using assms by (simp add: unat_div unat_add_no_overflow)
  have all: "bitmap_test (bitmap ?s) p" if "p < tpages" for p
  proof -
    have "unat p div 8 < (unat tpages + 7) div 8"
      using that by (simp add: word_less_nat_alt)
    then have "bitmap ?s ! (unat p div 8) = - 1"
      by (simp add: pmm_boot_state_def len)
    then show ?thesis
      by (simp add: bitmap_test_bit)
  qed
  then have free: "free_pages ?s = {}" and busy: "busy_pages ?s = {p. p < tpages}"
    by (auto simp: free_pages_def busy_pages_def pmm_boot_state_def)
  have "unat tpages \<le> 8 * ((unat tpages + 7) div 8)"
    by simp
  moreover have "card (busy_pages ?s) = unat tpages"
    by (simp add: busy card_word_less)
  ultimately have "pmm_wf ?s"
    using assms len by (simp add: pmm_wf_def pmm_boot_state_def)
  with free busy show ?thesis by simp
qed

lemma pmm_init_released:
  assumes "\<forall>e \<in> set (mb_entries ent mb). entry_ok e" and "unat tpages \<le> 2 ^ 52"
  shows "\<exists>s. (if mb_flags mb AND 0x40 \<noteq> 0
             then pmm_free_entries (mb_entries ent mb) (pmm_boot_state tpages)
             else Some (fold pmm_vacate (page_range 256 (unat tpages)) (pmm_boot_state tpages))) = Some s \<and>
     pmm_wf s \<and> total_pages s = tpages \<and>
     free_pages s = {p. p < tpages \<and>
        (if mb_flags mb AND 0x40 \<noteq> 0 then p \<in> (\<Union>e \<in> set (mb_entries ent mb). entry_pages e)
         else 256 \<le> unat p)}"
proof (cases "mb_flags mb AND 0x40 \<noteq> 0")
  case True
  have "total_pages (pmm_boot_state tpages) = tpages"
    by (simp add: pmm_boot_state_def)
  moreover have "pmm_wf (pmm_boot_state tpages)" and "free_pages (pmm_boot_state tpages) = {}"
    using pmm_boot_state_spec [OF assms(2)] by simp_all
  ultimately show ?thesis
    using pmm_free_entries_spec [OF _ assms(1), of "pmm_boot_state tpages"] True by simp
next
  case False
  let ?r = "page_range 256 (unat tpages)"
  have le: "unat tpages \<le> 2 ^ 64"
    using assms(2) by simp
  have "set ?r = {p. 256 \<le> unat p \<and> p < tpages}"
    using set_page_range [OF le] by (simp add: word_less_nat_alt)
  moreover have "set ?r \<subseteq> busy_pages (pmm_boot_state tpages)"
    using calculation pmm_boot_state_spec [OF assms(2)] by auto
  moreover have "total_pages (pmm_boot_state tpages) = tpages"
    by (simp add: pmm_boot_state_def)
  ultimately show ?thesis
    using fold_pmm_vacate [of "pmm_boot_state tpages" ?r] pmm_boot_state_spec [OF assms(2)]
      distinct_page_range [OF le] False by auto
qed

lemma pmm_init_unfold:
  "pmm_init ent kernel_end mb =
     (let tpages = pmm_detect ent mb div PAGE_SIZE;
          pend = pmm_protected_end kernel_end ((tpages + 7) div 8) div PAGE_SIZE
      in case (if mb_flags mb AND 0x40 \<noteq> 0
               then pmm_free_entries (mb_entries ent mb) (pmm_boot_state tpages)
               else Some (fold pmm_vacate (page_range 256 (unat tpages)) (pmm_boot_state tpages))) of
           None \<Rightarrow> None
         | Some s1 \<Rightarrow> Some (fold pmm_protect (page_range 256 (min (unat pend) (unat tpages)))
                           (fold pmm_protect (page_range 0 256) s1)))"
  unfolding pmm_init_def pmm_boot_state_def pmm_vacate_def Let_def ..

section \<open>Properties\<close>

text \<open>
  A state with frames 1 to 15 of 16 free, and a boot with a single usable range of 2 MB at
  address 0, as the examples below use them.
\<close>

definition sample_pmm :: pmm_state where
  "sample_pmm = fold pmm_vacate (page_range 1 16) (pmm_boot_state 16)"

lemma sample_pmm_props:
  "pmm_inv sample_pmm" "total_pages sample_pmm = 16" "free_pages sample_pmm = {p. 1 \<le> unat p \<and> unat p < 16}"
proof -
  have b: "pmm_wf (pmm_boot_state 16)" "free_pages (pmm_boot_state 16) = {}"
      "busy_pages (pmm_boot_state 16) = {p. p < 16}" "total_pages (pmm_boot_state 16) = 16"
    using pmm_boot_state_spec [of 16] by (simp_all add: pmm_boot_state_def)
  have r: "set (page_range 1 16) = {p. 1 \<le> unat p \<and> unat p < 16}"
    using set_page_range [of 16 1] by simp
  have sub: "set (page_range 1 16) \<subseteq> busy_pages (pmm_boot_state 16)"
    unfolding r b(3) by (auto simp: word_less_nat_alt)
  have f: "pmm_wf sample_pmm" "total_pages sample_pmm = 16"
      "free_pages sample_pmm = {p. 1 \<le> unat p \<and> unat p < 16}"
    using fold_pmm_vacate [OF b(1) sub distinct_page_range] b r by (auto simp: sample_pmm_def)
  then show "pmm_inv sample_pmm" "total_pages sample_pmm = 16"
      "free_pages sample_pmm = {p. 1 \<le> unat p \<and> unat p < 16}"
    by (simp_all add: pmm_inv_def)
qed

lemma sample_pmm_free: "1 \<in> free_pages sample_pmm"
  by (simp add: sample_pmm_props(3))

definition sample_mb :: multiboot_info where
  "sample_mb = \<lparr>mb_flags = 0x40, mem_lower = 0, mem_upper = 0, boot_device = 0, cmdline = 0,
     mods_count = 0, mods_addr = 0, syms = [0, 0, 0, 0], mmap_length = 24, mmap_addr = 0x1000\<rparr>"

definition sample_ent :: "u64 \<Rightarrow> mmap_entry" where
  "sample_ent p = \<lparr>me_size = 20, me_addr = 0, me_len = 0x200000, me_type = 1\<rparr>"

lemma sample_mb_entries: "mb_entries sample_ent sample_mb = [sample_ent 0]"
  by (simp add: mb_entries_def sample_mb_def sample_ent_def mmap_entries.simps [of _ _ 4096]
      mmap_entries.simps [of _ _ 4120])

text \<open>
  C6. A page allocation returns \<^verbatim>\<open>NULL\<close> and changes nothing exactly when no frame is free;
  otherwise it returns the address of the lowest free frame, never \<^verbatim>\<open>NULL\<close>, removes just that
  frame from the free set, counts it as used and keeps the allocator's invariant.
\<close>
theorem pmm_alloc_page_correct:
  assumes "pmm_inv s"
  shows "if free_pages s = {} then pmm_alloc_page s = (0, s)
     else \<exists>s'. pmm_alloc_page s = (Min (free_pages s) * PAGE_SIZE, s') \<and>
       Min (free_pages s) * PAGE_SIZE \<noteq> 0 \<and> pmm_inv s' \<and>
       free_pages s' = free_pages s - {Min (free_pages s)} \<and>
       unat (pmm_get_free_pages s') = card (free_pages s) - 1"
proof (cases "free_pages s = {}")
  case True
  then show ?thesis
    using assms by (simp add: pmm_alloc_page_eq)
next
  case False
  then have m: "Min (free_pages s) \<in> free_pages s"
    by (intro Min_in) simp_all
  define s' where "s' = snd (pmm_alloc_page s)"
  have eq: "pmm_alloc_page s = (Min (free_pages s) * PAGE_SIZE, s')"
    using False by (simp add: s'_def pmm_alloc_page_eq)
  have inv: "pmm_inv s'"
    unfolding s'_def by (rule pmm_inv_alloc_page [OF assms])
  have fr: "free_pages s' = free_pages s - {Min (free_pages s)}"
    using False assms m by (simp add: s'_def pmm_alloc_page_eq pmm_inv_def pmm_occupy_sets)
  have "unat (pmm_get_free_pages s') = card (free_pages s')"
    by (rule pmm_free_count [OF inv])
  then show ?thesis
    using False eq inv fr m pmm.frame_addr_nonzero [OF assms m] by simp
qed

theorem pmm_alloc_page_correct_witness:
  "fst (pmm_alloc_page sample_pmm) \<noteq> 0 \<and> pmm_inv (snd (pmm_alloc_page sample_pmm))"
proof -
  have ne: "free_pages sample_pmm \<noteq> {}"
    using sample_pmm_free by blast
  obtain s' where "pmm_alloc_page sample_pmm = (Min (free_pages sample_pmm) * PAGE_SIZE, s')"
      "Min (free_pages sample_pmm) * PAGE_SIZE \<noteq> 0" "pmm_inv s'"
    using pmm_alloc_page_correct [OF sample_pmm_props(1)] unfolding if_not_P [OF ne] by blast
  then show ?thesis
    by simp
qed

text \<open>
  C7. Releasing the page just allocated restores the allocator state exactly, bitmap and
  counter included.
\<close>
theorem pmm_alloc_free_roundtrip:
  assumes "pmm_inv s" and "pmm_alloc_page s = (a, s')" and "a \<noteq> 0"
  shows "pmm_free_page a s' = s"
proof -
  define p where "p = Min (free_pages s)"
  have ne: "free_pages s \<noteq> {}"
    using assms(2,3) by (auto simp: pmm_alloc_page_eq)
  then have p: "p \<in> free_pages s"
    unfolding p_def by (intro Min_in) simp_all
  have a: "a = p * PAGE_SIZE" and s': "s' = pmm_occupy p s"
    using assms(2) ne by (simp_all add: pmm_alloc_page_eq p_def)
  have wf: "pmm_wf s"
    using assms(1) by (simp add: pmm_inv_def)
  have lt: "p < total_pages s" and nt: "\<not> bitmap_test (bitmap s) p"
    using p by (simp_all add: free_pages_def)
  have "a div PAGE_SIZE = p"
    unfolding a by (rule page_addr_div [OF wf lt])
  moreover have "p \<in> busy_pages s'"
    unfolding s' using wf p pmm_occupy_sets by auto
  ultimately have "pmm_free_page a s' = pmm_vacate p (pmm_occupy p s)"
    by (simp add: pmm_free_page_eq s')
  also have "\<dots> = s"
    using bitmap_clear_set [OF page_in_bitmap [OF wf lt] nt]
    by (simp add: pmm_vacate_def pmm_occupy_def)
  finally show ?thesis .
qed

theorem pmm_alloc_free_roundtrip_witness:
  "\<exists>a s'. pmm_alloc_page sample_pmm = (a, s') \<and> a \<noteq> 0 \<and> pmm_free_page a s' = sample_pmm"
proof -
  have "free_pages sample_pmm \<noteq> {}"
    using sample_pmm_free by blast
  then have "fst (pmm_alloc_page sample_pmm) \<noteq> 0"
    using pmm.alloc_null_iff [OF sample_pmm_props(1)] by simp
  then show ?thesis
    using pmm_alloc_free_roundtrip [OF sample_pmm_props(1)] by (cases "pmm_alloc_page sample_pmm") auto
qed

lemma pmm_init_frames:
  assumes "\<forall>e \<in> set (mb_entries ent mb). entry_ok e"
    and "256 \<le> unat (pmm_detect ent mb div PAGE_SIZE)"
  shows "\<exists>s. pmm_init ent kernel_end mb = Some s \<and> pmm_inv s \<and>
     total_pages s = pmm_detect ent mb div PAGE_SIZE \<and>
     free_pages s = {p. p < total_pages s \<and> 256 \<le> unat p \<and>
       pmm_protected_end kernel_end ((total_pages s + 7) div 8) div PAGE_SIZE \<le> p \<and>
       (mb_flags mb AND 0x40 \<noteq> 0 \<longrightarrow> p \<in> (\<Union>e \<in> set (mb_entries ent mb). entry_pages e))}"
proof -
  let ?t = "pmm_detect ent mb div PAGE_SIZE"
  let ?pend = "pmm_protected_end kernel_end ((?t + 7) div 8) div PAGE_SIZE"
  have "unat (pmm_detect ent mb) < 2 ^ 64"
    using unat_bound [of "pmm_detect ent mb"] by simp
  then have t: "unat ?t \<le> 2 ^ 52"
    by (simp add: unat_div)
  obtain s1 where s1: "(if mb_flags mb AND 0x40 \<noteq> 0
        then pmm_free_entries (mb_entries ent mb) (pmm_boot_state ?t)
        else Some (fold pmm_vacate (page_range 256 (unat ?t)) (pmm_boot_state ?t))) = Some s1"
      "pmm_wf s1" "total_pages s1 = ?t"
      "free_pages s1 = {p. p < ?t \<and>
        (if mb_flags mb AND 0x40 \<noteq> 0 then p \<in> (\<Union>e \<in> set (mb_entries ent mb). entry_pages e)
         else 256 \<le> unat p)}"
    using pmm_init_released [OF assms(1) t] by blast
  have low: "set (page_range 0 256) = {p. unat p < 256}"
    using set_page_range [of 256 0] by simp
  have high: "set (page_range 256 (min (unat ?pend) (unat ?t))) =
      {p. 256 \<le> unat p \<and> p < ?pend \<and> p < ?t}"
    using set_page_range [of "min (unat ?pend) (unat ?t)" 256] t
    by (simp add: word_less_nat_alt min.coboundedI2)
  define s2 where "s2 = fold pmm_protect (page_range 0 256) s1"
  have s2: "pmm_wf s2" "total_pages s2 = ?t" "free_pages s2 = free_pages s1 - {p. unat p < 256}"
    using fold_pmm_protect [OF s1(2), of "page_range 0 256"] assms(2) s1(3) low
    by (auto simp: s2_def word_less_nat_alt)
  define s3 where "s3 = fold pmm_protect (page_range 256 (min (unat ?pend) (unat ?t))) s2"
  have s3: "pmm_wf s3" "total_pages s3 = ?t"
      "free_pages s3 = free_pages s2 - {p. 256 \<le> unat p \<and> p < ?pend \<and> p < ?t}"
    using fold_pmm_protect [OF s2(1), of "page_range 256 (min (unat ?pend) (unat ?t))"] s2(2) high
    by (auto simp: s3_def)
  have "pmm_init ent kernel_end mb = Some s3"
    by (simp only: pmm_init_unfold Let_def s1(1) s2_def s3_def option.case)
  moreover have "free_pages s3 = {p. p < ?t \<and> 256 \<le> unat p \<and> ?pend \<le> p \<and>
       (mb_flags mb AND 0x40 \<noteq> 0 \<longrightarrow> p \<in> (\<Union>e \<in> set (mb_entries ent mb). entry_pages e))}"
    unfolding s3(3) s2(3) s1(4) by (auto simp: not_less)
  moreover from this have "0 \<notin> free_pages s3" by simp
  ultimately show ?thesis
    using s3(1,2) by (auto simp: pmm_inv_def)
qed

section \<open>What the boot information means\<close>

text \<open>
  The multiboot standard, over natural numbers: a map is a chain of entries, each followed, 4 bytes after
  its own size, by the next one, up to the end of the map.
\<close>

inductive map_pos :: "(u64 \<Rightarrow> mmap_entry) \<Rightarrow> nat \<Rightarrow> nat \<Rightarrow> nat \<Rightarrow> bool" for ent hi where
  map_pos_first: "lo < hi \<Longrightarrow> map_pos ent hi lo lo"
| map_pos_next: "lo < hi \<Longrightarrow> map_pos ent hi (lo + unat (me_size (ent (of_nat lo))) + 4) p \<Longrightarrow> map_pos ent hi lo p"

definition usable :: "(u64 \<Rightarrow> mmap_entry) \<Rightarrow> multiboot_info \<Rightarrow> mmap_entry set" where
  "usable ent mb = {e. me_type e = 1 \<and> (\<exists>p. map_pos ent (unat (mmap_addr mb) + unat (mmap_length mb)) (unat (mmap_addr mb)) p \<and> e = ent (of_nat p))}"

definition region_end :: "mmap_entry \<Rightarrow> nat" where
  "region_end e = unat (me_addr e) + unat (me_len e)"

text \<open>The end of memory: that of the highest usable range, else what the boot loader counted above 1 MB, else 128 MB.\<close>

definition memory_top :: "(u64 \<Rightarrow> mmap_entry) \<Rightarrow> multiboot_info \<Rightarrow> nat" where
  "memory_top ent mb =
     (if bit (mb_flags mb) 6 \<and> (\<exists>e \<in> usable ent mb. 0 < region_end e) then Max (region_end ` usable ent mb)
      else if bit (mb_flags mb) 0 then (1024 + unat (mem_upper mb)) * 1024
      else 128 * 1024 * 1024)"

lemma map_pos_iff: "map_pos ent hi lo p \<longleftrightarrow> lo < hi \<and> (p = lo \<or> map_pos ent hi (lo + unat (me_size (ent (of_nat lo))) + 4) p)"
  by (subst map_pos.simps) auto

lemma map_pos_less: "map_pos ent hi lo p \<Longrightarrow> p < hi"
  by (induction rule: map_pos.induct) auto

lemma mmap_entries_positions:
  "set (mmap_entries ent mend q) = (\<lambda>p. ent (of_nat p)) ` {p. map_pos ent (unat mend) (unat q) p}"
proof (induction ent mend q rule: mmap_entries.induct)
  case (1 ent mend q)
  show ?case
  proof (cases "q < ucast mend")
    case True
    have lt: "unat q < unat mend" using True by (simp add: word_less_nat_alt)
    have "unat mend < 2 ^ 32" "unat (me_size (ent q)) < 2 ^ 32"
      using unat_bound [of mend] unat_bound [of "me_size (ent q)"] by simp_all
    then have n: "unat (q + ucast (me_size (ent q)) + 4) = unat q + unat (me_size (ent q)) + 4"
      using lt by (simp add: unat_word_ariths)
    have "{p. map_pos ent (unat mend) (unat q) p} = insert (unat q) {p. map_pos ent (unat mend) (unat q + unat (me_size (ent q)) + 4) p}"
      using lt by (subst map_pos_iff) auto
    then show ?thesis using 1 [OF True] True unfolding n by (subst mmap_entries.simps) simp
  next
    case False
    then have "\<not> map_pos ent (unat mend) (unat q) p" for p by (subst map_pos_iff) (simp add: word_less_nat_alt)
    then show ?thesis using False by (subst mmap_entries.simps) simp
  qed
qed

lemma usable_entries:
  assumes "unat (mmap_addr mb) + unat (mmap_length mb) < 2 ^ 32"
  shows "usable ent mb = {e \<in> set (mb_entries ent mb). me_type e = 1}"
proof -
  have "unat (mmap_addr mb + mmap_length mb) = unat (mmap_addr mb) + unat (mmap_length mb)"
    using assms by (intro unat_add_no_overflow) simp
  then show ?thesis by (auto simp: usable_def mb_entries_def mmap_entries_positions)
qed

lemma Max_insert_max: "finite S \<Longrightarrow> Max (insert (max a b) S) = Max (insert a (insert b S))" for a b :: nat
  by (cases "S = {}") (simp_all add: max.assoc)

lemma mmap_max_end_Max:
  assumes "\<forall>e \<in> set es. entry_ok e"
  shows "unat (mmap_max_end es) = Max (insert 0 (region_end ` {e \<in> set es. me_type e = 1}))"
proof -
  have "unat (fold (\<lambda>e m. if me_type e = 1 then (let end = me_addr e + me_len e in if m < end then end else m) else m) es m) =
      Max (insert (unat m) (region_end ` {e \<in> set es. me_type e = 1}))" for m
    using assms
  proof (induction es arbitrary: m)
    case (Cons e es)
    show ?case
    proof (cases "me_type e = 1")
      case True
      then have u: "unat (me_addr e + me_len e) = region_end e"
        using Cons.prems by (simp add: entry_ok_def region_end_def unat_add_no_overflow)
      have "{x \<in> set (e # es). me_type x = 1} = insert e {x \<in> set es. me_type x = 1}" using True by auto
      moreover have "unat (if m < me_addr e + me_len e then me_addr e + me_len e else m) = max (unat m) (region_end e)"
        using u by (simp add: word_less_nat_alt max_def)
      ultimately show ?thesis using Cons True Max_insert_max [of "region_end ` {x \<in> set es. me_type x = 1}" "unat m" "region_end e"]
        by (simp add: Let_def del: Max_insert)
    next
      case False
      then have "{x \<in> set (e # es). me_type x = 1} = {x \<in> set es. me_type x = 1}" by auto
      then show ?thesis using Cons False by simp
    qed
  qed simp
  then show ?thesis by (simp add: mmap_max_end_def)
qed

lemma pmm_detect_top:
  assumes ok: "\<forall>e \<in> usable ent mb. region_end e \<le> 2 ^ 52" and len: "unat (mmap_addr mb) + unat (mmap_length mb) < 2 ^ 32"
    and up: "unat (mem_upper mb) + 1024 < 2 ^ 32"
  shows "unat (pmm_detect ent mb) = memory_top ent mb"
proof -
  let ?M = "unat (mmap_max_end (mb_entries ent mb))"
  have eok: "\<forall>e \<in> set (mb_entries ent mb). entry_ok e" using ok usable_entries [OF len, of ent] by (auto simp: entry_ok_def region_end_def)
  have fin: "finite (usable ent mb)" using usable_entries [OF len, of ent] by simp
  have M: "?M = Max (insert 0 (region_end ` usable ent mb))" using mmap_max_end_Max [OF eok] usable_entries [OF len, of ent] by simp
  have M0: "?M = (if \<exists>e \<in> usable ent mb. 0 < region_end e then Max (region_end ` usable ent mb) else 0)"
  proof (cases "\<exists>e \<in> usable ent mb. 0 < region_end e")
    case True
    then have "region_end ` usable ent mb \<noteq> {}" by auto
    then show ?thesis unfolding M using fin True Max_insert [of "region_end ` usable ent mb" 0] by simp
  next
    case False
    then have "region_end ` usable ent mb \<subseteq> {0}" by auto
    then have "insert 0 (region_end ` usable ent mb) = {0}" by auto
    then have "?M = 0" unfolding M by (simp only: Max_singleton)
    then show ?thesis using False by simp
  qed
  have pos: "0 < ?M \<longleftrightarrow> (\<exists>e \<in> usable ent mb. 0 < region_end e)" unfolding M using fin by (auto simp: Max_gr_iff)
  have f6: "mb_flags mb AND 0x40 \<noteq> 0 \<longleftrightarrow> bit (mb_flags mb) 6" using word_and_push_bit_1 [of 6 "mb_flags mb"] by simp
  have f0: "mb_flags mb AND 0x1 \<noteq> 0 \<longleftrightarrow> bit (mb_flags mb) 0" using word_and_push_bit_1 [of 0 "mb_flags mb"] by simp
  have u: "unat (ucast (mem_upper mb + 1024) * 1024 :: u64) = (1024 + unat (mem_upper mb)) * 1024"
  proof -
    have "unat (mem_upper mb + 1024) = unat (mem_upper mb) + 1024" using up by (subst unat_add_no_overflow) simp_all
    then show ?thesis using up by (simp add: unat_word_ariths)
  qed
  have z: "mmap_max_end (mb_entries ent mb) = 0 \<longleftrightarrow> \<not> (\<exists>e \<in> usable ent mb. 0 < region_end e)" using pos unat_gt_0 [of "mmap_max_end (mb_entries ent mb)"] by argo
  have u0: "ucast (mem_upper mb + 1024) * 1024 \<noteq> (0 :: u64)" using u by (metis add_is_0 mult_is_0 unat_0 zero_neq_numeral)
  show ?thesis
    unfolding pmm_detect_def memory_top_def Let_def f6 f0 using z M0 u u0 by auto
qed

text \<open>
  C5. Boot of the page allocator returns. The number of frames is that below the end of memory
  (\<^const>\<open>memory_top\<close>), and the frames free afterwards are exactly those that lie whole inside a usable range
  of the memory map (all of memory when there is no map), outside the first megabyte, and above both the
  kernel image, rounded up to a page, and the bitmap of one bit per frame behind it; the allocator's
  invariant holds from then on. The map lies below 4 GB and describes memory below the 52-bit physical
  address limit, the boot loader's count of kilobytes does not overflow, and there is at least 1 MB.
\<close>
theorem pmm_init_correct:
  assumes "\<forall>e \<in> usable ent mb. region_end e \<le> 2 ^ 52"
    and "unat (mmap_addr mb) + unat (mmap_length mb) < 2 ^ 32" and "unat (mem_upper mb) + 1024 < 2 ^ 32"
    and "unat kernel_end \<le> 2 ^ 52" and "2 ^ 20 \<le> memory_top ent mb"
  shows "\<exists>s. pmm_init ent kernel_end mb = Some s \<and> pmm_inv s \<and> unat (total_pages s) = memory_top ent mb div 4096 \<and>
     free_pages s = {p. unat p < memory_top ent mb div 4096 \<and> 256 \<le> unat p \<and>
       (unat kernel_end + 4095) div 4096 * 4096 + (memory_top ent mb div 4096 + 7) div 8 \<le> 4096 * unat p \<and>
       (bit (mb_flags mb) 6 \<longrightarrow> (\<exists>e \<in> usable ent mb. unat (me_addr e) \<le> 4096 * unat p \<and> 4096 * unat p + 4096 \<le> region_end e))}"
proof -
  let ?t = "pmm_detect ent mb div PAGE_SIZE" let ?T = "memory_top ent mb div 4096"
  let ?b = "(?t + 7) div 8"
  have top: "unat (pmm_detect ent mb) = memory_top ent mb" by (rule pmm_detect_top [OF assms(1-3)])
  have t: "unat ?t = ?T" by (simp add: unat_div top)
  have t52: "?T < 2 ^ 52" using unat_bound [of "pmm_detect ent mb"] top by simp
  have b: "unat ?b = (?T + 7) div 8"
  proof -
    have "unat (?t + 7) = ?T + 7" using t t52 by (subst unat_add_no_overflow) simp_all
    then show ?thesis by (simp add: unat_div)
  qed
  have k: "unat (page_align_up kernel_end) = (unat kernel_end + 4095) div 4096 * 4096" using assms(4) by (intro unat_page_align_up) simp
  have kb: "unat (page_align_up kernel_end + ?b) = (unat kernel_end + 4095) div 4096 * 4096 + (?T + 7) div 8"
    using k b t52 assms(4) by (subst unat_add_no_overflow) simp_all
  have pe: "unat (pmm_protected_end kernel_end ?b) = ((unat kernel_end + 4095) div 4096 * 4096 + (?T + 7) div 8 + 4095) div 4096 * 4096"
    unfolding pmm_protected_end_def using kb t52 assms(4) by (subst unat_page_align_up) simp_all
  have above: "pmm_protected_end kernel_end ?b div PAGE_SIZE \<le> p \<longleftrightarrow>
      (unat kernel_end + 4095) div 4096 * 4096 + (?T + 7) div 8 \<le> 4096 * unat p" for p
    using align_up_le [of "(unat kernel_end + 4095) div 4096 * 4096 + (?T + 7) div 8" "unat p"] pe
    by (simp add: word_le_nat_alt unat_div mult.commute [of 4096 "unat p"])
  have eok: "\<forall>e \<in> set (mb_entries ent mb). entry_ok e"
    using assms(1) usable_entries [OF assms(2), of ent] by (auto simp: entry_ok_def region_end_def)
  have in_map: "p \<in> (\<Union>e \<in> set (mb_entries ent mb). entry_pages e) \<longleftrightarrow>
      (\<exists>e \<in> usable ent mb. unat (me_addr e) \<le> 4096 * unat p \<and> 4096 * unat p + 4096 \<le> region_end e)" for p
    using usable_entries [OF assms(2), of ent] by (auto simp: entry_pages_def region_end_def mult.commute)
  have f6: "mb_flags mb AND 0x40 \<noteq> 0 \<longleftrightarrow> bit (mb_flags mb) 6" using word_and_push_bit_1 [of 6 "mb_flags mb"] by simp
  have "1048576 div 4096 \<le> ?T" using assms(5) by (intro div_le_mono) simp
  then have "256 \<le> unat ?t" using t by simp
  from pmm_init_frames [OF eok this, of kernel_end]
  obtain s where "pmm_init ent kernel_end mb = Some s" "pmm_inv s" "total_pages s = ?t"
     "free_pages s = {p. p < total_pages s \<and> 256 \<le> unat p \<and>
       pmm_protected_end kernel_end ((total_pages s + 7) div 8) div PAGE_SIZE \<le> p \<and>
       (mb_flags mb AND 0x40 \<noteq> 0 \<longrightarrow> p \<in> (\<Union>e \<in> set (mb_entries ent mb). entry_pages e))}"
    by blast
  then show ?thesis unfolding above in_map f6 by (intro exI [of _ s]) (simp add: above in_map f6 t word_less_nat_alt)
qed

lemma sample_usable: "usable sample_ent sample_mb = {sample_ent 0}"
proof -
  have "usable sample_ent sample_mb = {e \<in> set (mb_entries sample_ent sample_mb). me_type e = 1}"
    by (rule usable_entries) (simp add: sample_mb_def)
  also have "\<dots> = {sample_ent 0}"
  proof -
    have "me_type (sample_ent 0) = 1" by (simp add: sample_ent_def)
    then show ?thesis unfolding sample_mb_entries by auto
  qed
  finally show ?thesis .
qed

text \<open>2 MB of memory, the kernel ends at 1088 KB: the frames from number 273 are free.\<close>
theorem pmm_init_correct_witness:
  "\<exists>s. pmm_init sample_ent 0x110000 sample_mb = Some s \<and> pmm_inv s \<and> unat (total_pages s) = 512 \<and>
     free_pages s = {p. 273 \<le> unat p \<and> unat p < 512}"
proof -
  have r: "region_end (sample_ent 0) = 0x200000" by (simp add: region_end_def sample_ent_def)
  have top: "memory_top sample_ent sample_mb = 0x200000"
    unfolding memory_top_def sample_usable using r by (simp add: sample_mb_def)
  have b: "bit (mb_flags sample_mb) 6" and a: "unat (me_addr (sample_ent 0)) = 0" by (simp_all add: sample_mb_def sample_ent_def)
  have n: "unat p < 0x200000 div 4096 \<and> 256 \<le> unat p \<and>
      (unat (0x110000 :: u64) + 4095) div 4096 * 4096 + (0x200000 div 4096 + 7) div 8 \<le> 4096 * unat p \<and>
      (bit (mb_flags sample_mb) 6 \<longrightarrow> (\<exists>e \<in> usable sample_ent sample_mb. unat (me_addr e) \<le> 4096 * unat p \<and> 4096 * unat p + 4096 \<le> region_end e)) \<longleftrightarrow>
      273 \<le> unat p \<and> unat p < 512" for p :: u64
    unfolding sample_usable using a b r by simp presburger
  have "\<exists>s. pmm_init sample_ent 0x110000 sample_mb = Some s \<and> pmm_inv s \<and> unat (total_pages s) = memory_top sample_ent sample_mb div 4096 \<and>
     free_pages s = {p. unat p < memory_top sample_ent sample_mb div 4096 \<and> 256 \<le> unat p \<and>
       (unat (0x110000 :: u64) + 4095) div 4096 * 4096 + (memory_top sample_ent sample_mb div 4096 + 7) div 8 \<le> 4096 * unat p \<and>
       (bit (mb_flags sample_mb) 6 \<longrightarrow> (\<exists>e \<in> usable sample_ent sample_mb. unat (me_addr e) \<le> 4096 * unat p \<and> 4096 * unat p + 4096 \<le> region_end e))}"
    by (rule pmm_init_correct) (simp_all add: sample_usable r top, simp_all add: sample_mb_def)
  then show ?thesis unfolding top n by simp
qed

end
