(* ===== verification/KHeap.thy ===== *)
theory KHeap
  imports PmmInit
begin

text \<open>
  The kernel heap \<^verbatim>\<open>mm/heap.c\<close>: a doubly linked list of block headers laid over one
  contiguous region, first-fit allocation with splitting, and release with coalescing on
  both sides. Memory is a store from header addresses to header contents, and pointers are
  64-bit addresses with 0 for \<^verbatim>\<open>NULL\<close>. Following the list may never end on a corrupted
  heap, so the walk is a partial function; taking a lock that is already held never returns
  either. \<open>KHeapRefine\<close> proves these operations against a list of segments.
\<close>

section \<open>State\<close>

record heap_block =
  hb_magic :: u32
  hb_is_free :: u32
  hb_size :: u64
  hb_next :: u64
  hb_prev :: u64

type_synonym heap_mem = "u64 \<Rightarrow> heap_block"

record kheap =
  heap_lock :: bool
  hmem :: heap_mem
  heap_start :: u64
  heap_total_size :: u64
  heap_used :: u64
  heap_alloc_count :: u64

definition HEAP_MAGIC :: u32 where
  "HEAP_MAGIC = 0xDEADBEEF"

abbreviation HDR :: u64 where
  "HDR \<equiv> 32"

definition HEAP_INITIAL_PAGES :: nat where
  "HEAP_INITIAL_PAGES = 2048"

section \<open>Initialisation\<close>

definition heap_base :: "u64 \<Rightarrow> u64 \<Rightarrow> u64" where
  "heap_base kernel_end tpages = page_align_up kernel_end + page_align_up ((tpages + 7) div 8)"

definition heap_init :: "u64 \<Rightarrow> pmm_state \<times> kheap \<Rightarrow> pmm_state \<times> kheap" where
  "heap_init kernel_end = (\<lambda>(p, h).
     let base = heap_base kernel_end (pmm_get_total_pages p);
         tsize = of_nat HEAP_INITIAL_PAGES * PAGE_SIZE;
         p' = fold (\<lambda>i. pmm_mark_page_used (base + of_nat i * PAGE_SIZE)) [0..<HEAP_INITIAL_PAGES] p;
         first = \<lparr>hb_magic = HEAP_MAGIC, hb_is_free = 1, hb_size = tsize - HDR,
                  hb_next = 0, hb_prev = 0\<rparr>
     in (p', h\<lparr>heap_start := base, heap_total_size := tsize, hmem := (hmem h)(base := first),
               heap_used := 0, heap_alloc_count := 0\<rparr>))"

section \<open>Allocation\<close>

datatype walk = Found u64 | Corrupt u64 | Exhausted

partial_function (option) heap_walk :: "heap_mem \<Rightarrow> u64 \<Rightarrow> u64 \<Rightarrow> walk option" where
  "heap_walk m sz block =
     (if block = 0 then Some Exhausted
      else if hb_magic (m block) \<noteq> HEAP_MAGIC then Some (Corrupt block)
      else if hb_is_free (m block) \<noteq> 0 \<and> sz \<le> hb_size (m block) then Some (Found block)
      else heap_walk m sz (hb_next (m block)))"

definition split_block :: "heap_mem \<Rightarrow> u64 \<Rightarrow> u64 \<Rightarrow> heap_mem" where
  "split_block m block sz =
     (if sz + HDR + 16 \<le> hb_size (m block)
      then (let new = block + HDR + sz;
                m1 = m(new := \<lparr>hb_magic = HEAP_MAGIC, hb_is_free = 1,
                               hb_size = hb_size (m block) - sz - HDR,
                               hb_next = hb_next (m block), hb_prev = block\<rparr>);
                next = hb_next (m1 block);
                m2 = (if next \<noteq> 0 then m1(next := (m1 next)\<lparr>hb_prev := new\<rparr>) else m1)
            in m2(block := (m2 block)\<lparr>hb_next := new, hb_size := sz\<rparr>))
      else m)"

definition kmalloc :: "u64 \<Rightarrow> kheap \<Rightarrow> (u64 \<times> kheap) option" where
  "kmalloc sz h =
     (if sz = 0 then Some (0, h)
      else if heap_lock h then None
      else
        let h1 = h\<lparr>heap_lock := True\<rparr>;
            asz = (sz + 15) AND NOT 15
        in case heap_walk (hmem h1) asz (heap_start h1) of
             None \<Rightarrow> None
           | Some (Corrupt b) \<Rightarrow> Some (0, h1)
           | Some Exhausted \<Rightarrow> Some (0, h1\<lparr>heap_lock := False\<rparr>)
           | Some (Found b) \<Rightarrow>
               (let m = split_block (hmem h1) b asz;
                    m' = m(b := (m b)\<lparr>hb_is_free := 0\<rparr>)
                in Some (b + HDR,
                     h1\<lparr>hmem := m', heap_used := heap_used h1 + hb_size (m' b),
                        heap_alloc_count := heap_alloc_count h1 + 1, heap_lock := False\<rparr>)))"

section \<open>Release\<close>

definition coalesce_next :: "heap_mem \<Rightarrow> u64 \<Rightarrow> heap_mem" where
  "coalesce_next m block =
     (if hb_next (m block) \<noteq> 0 \<and> hb_is_free (m (hb_next (m block))) \<noteq> 0
      then (let nx = m (hb_next (m block));
                m1 = m(block := (m block)\<lparr>hb_size := hb_size (m block) + (HDR + hb_size nx),
                                          hb_next := hb_next nx\<rparr>);
                next = hb_next (m1 block)
            in if next \<noteq> 0 then m1(next := (m1 next)\<lparr>hb_prev := block\<rparr>) else m1)
      else m)"

definition coalesce_prev :: "heap_mem \<Rightarrow> u64 \<Rightarrow> heap_mem" where
  "coalesce_prev m block =
     (if hb_prev (m block) \<noteq> 0 \<and> hb_is_free (m (hb_prev (m block))) \<noteq> 0
      then (let prev = hb_prev (m block);
                m1 = m(prev := (m prev)\<lparr>hb_size := hb_size (m prev) + (HDR + hb_size (m block)),
                                        hb_next := hb_next (m block)\<rparr>);
                next = hb_next (m1 block)
            in if next \<noteq> 0 then m1(next := (m1 next)\<lparr>hb_prev := hb_prev (m1 block)\<rparr>) else m1)
      else m)"

definition kfree :: "u64 \<Rightarrow> kheap \<Rightarrow> kheap option" where
  "kfree ptr h =
     (if ptr = 0 then Some h
      else if heap_lock h then None
      else
        let h1 = h\<lparr>heap_lock := True\<rparr>;
            b = ptr - HDR;
            m = hmem h1
        in if hb_magic (m b) \<noteq> HEAP_MAGIC then Some (h1\<lparr>heap_lock := False\<rparr>)
           else if hb_is_free (m b) \<noteq> 0 then Some (h1\<lparr>heap_lock := False\<rparr>)
           else
             (let m1 = m(b := (m b)\<lparr>hb_is_free := 1\<rparr>);
                  m2 = coalesce_next m1 b;
                  m3 = coalesce_prev m2 b
              in Some (h1\<lparr>hmem := m3, heap_used := heap_used h1 - hb_size (m1 b),
                          heap_alloc_count := heap_alloc_count h1 - 1, heap_lock := False\<rparr>)))"

definition heap_get_used :: "kheap \<Rightarrow> u64" where
  "heap_get_used h = heap_used h"

definition heap_get_total :: "kheap \<Rightarrow> u64" where
  "heap_get_total h = heap_total_size h"

end
