(* ===== verification/RegionAllocator.thy ===== *)
theory RegionAllocator
  imports PlantPrelude
begin

text \<open>
  The contract between a byte allocator and its clients. An allocator hands out regions of
  memory, each behind a header of \<open>ovh\<close> bytes; the contract says that a new region overlaps no
  region in use and that a release gives back exactly the released region. The client side is
  proved once: whatever a disciplined client does, no two of its regions overlap and nothing
  it has given back is still accounted for. \<open>KHeapRefine\<close> interprets the contract for
  \<^verbatim>\<open>kmalloc\<close> and \<^verbatim>\<open>kfree\<close>.
\<close>

section \<open>Regions and client traces\<close>

definition apart :: "nat \<Rightarrow> u64 \<times> nat \<Rightarrow> u64 \<times> nat \<Rightarrow> bool" where
  "apart ovh x y \<longleftrightarrow>
     unat (fst x) + snd x + ovh \<le> unat (fst y) \<or> unat (fst y) + snd y + ovh \<le> unat (fst x)"

lemma apart_sym: "apart ovh x y \<longleftrightarrow> apart ovh y x"
  by (auto simp: apart_def)

lemma apart_fst_neq: "0 < ovh \<Longrightarrow> apart ovh x y \<Longrightarrow> fst x \<noteq> fst y"
  by (auto simp: apart_def)

text \<open>
  A client asks for \<open>Malloc sz\<close> bytes, or gives back the \<open>i\<close>-th of the regions it owns. It
  never touches a pointer it does not own. \<open>None\<close> is a call that never returns.
\<close>

datatype alloc_op = Malloc u64 | Free nat

fun alloc_run ::
  "(u64 \<Rightarrow> 's \<Rightarrow> (u64 \<times> 's) option) \<Rightarrow> (u64 \<Rightarrow> 's \<Rightarrow> 's option) \<Rightarrow> alloc_op list \<Rightarrow>
   's \<times> (u64 \<times> u64) list \<Rightarrow> ('s \<times> (u64 \<times> u64) list) option" where
  "alloc_run malloc free [] (s, own) = Some (s, own)"
| "alloc_run malloc free (Malloc sz # ops) (s, own) =
     (case malloc sz s of
        None \<Rightarrow> None
      | Some (p, s') \<Rightarrow> alloc_run malloc free ops (s', if p = 0 then own else (p, sz) # own))"
| "alloc_run malloc free (Free i # ops) (s, own) =
     (if i < length own
      then (case free (fst (own ! i)) s of
              None \<Rightarrow> None
            | Some s' \<Rightarrow> alloc_run malloc free ops (s', take i own @ drop (Suc i) own))
      else alloc_run malloc free ops (s, own))"

definition ops_ok :: "alloc_op list \<Rightarrow> bool" where
  "ops_ok ops \<longleftrightarrow> (\<forall>op \<in> set ops. case op of Malloc sz \<Rightarrow> unat sz + 15 < 2 ^ 64 | Free i \<Rightarrow> True)"

lemma set_take_drop_distinct:
  assumes "distinct (map fst own)" and "i < length own"
  shows "set (take i own @ drop (Suc i) own) = set own - {own ! i}"
    and "distinct (map fst (take i own @ drop (Suc i) own))"
proof -
  have own: "own = take i own @ own ! i # drop (Suc i) own"
    using assms(2) by (rule id_take_nth_drop)
  have d: "distinct (take i own @ own ! i # drop (Suc i) own)"
    using assms(1) own distinct_map by metis
  have "set own = set (take i own @ own ! i # drop (Suc i) own)"
    using own by metis
  then show "set (take i own @ drop (Suc i) own) = set own - {own ! i}"
    using d by auto
  have "distinct (map fst (take i own @ own ! i # drop (Suc i) own))"
    using assms(1) own by metis
  then show "distinct (map fst (take i own @ drop (Suc i) own))"
    by auto
qed

section \<open>The contract\<close>

locale region_allocator =
  fixes malloc :: "u64 \<Rightarrow> 's \<Rightarrow> (u64 \<times> 's) option"
    and free :: "u64 \<Rightarrow> 's \<Rightarrow> 's option"
    and rep :: "'s \<Rightarrow> 'a \<Rightarrow> bool"
    and regions :: "'s \<Rightarrow> 'a \<Rightarrow> (u64 \<times> nat) set"
    and ovh :: nat
  assumes ovh_pos: "0 < ovh"
    and malloc_law: "rep s a \<Longrightarrow> unat sz + 15 < 2 ^ 64 \<Longrightarrow>
      \<exists>p s' a'. malloc sz s = Some (p, s') \<and> rep s' a' \<and>
        (p = 0 \<and> regions s' a' = regions s a \<or>
         p \<noteq> 0 \<and> (\<exists>n. unat sz \<le> n \<and> regions s' a' = insert (p, n) (regions s a) \<and>
           (\<forall>x \<in> regions s a. apart ovh (p, n) x)))"
    and free_law: "rep s a \<Longrightarrow> (p, n) \<in> regions s a \<Longrightarrow>
      \<exists>s' a'. free p s = Some s' \<and> rep s' a' \<and> regions s' a' = regions s a - {(p, n)}"
begin

definition owns :: "'s \<Rightarrow> 'a \<Rightarrow> (u64 \<times> u64) list \<Rightarrow> (u64 \<Rightarrow> nat) \<Rightarrow> bool" where
  "owns s a own f \<longleftrightarrow> rep s a \<and> distinct (map fst own) \<and>
     regions s a = (\<lambda>p. (p, f p)) ` fst ` set own \<and>
     (\<forall>(p, sz) \<in> set own. p \<noteq> 0 \<and> unat sz \<le> f p) \<and>
     (\<forall>x \<in> regions s a. \<forall>y \<in> regions s a. x \<noteq> y \<longrightarrow> apart ovh x y)"

lemma owns_malloc:
  assumes "owns s a own f" and "unat sz + 15 < 2 ^ 64"
  shows "\<exists>p s' a' f'. malloc sz s = Some (p, s') \<and> owns s' a' (if p = 0 then own else (p, sz) # own) f'"
proof -
  obtain p s' a' where m: "malloc sz s = Some (p, s')" "rep s' a'"
    and c: "p = 0 \<and> regions s' a' = regions s a \<or>
         p \<noteq> 0 \<and> (\<exists>n. unat sz \<le> n \<and> regions s' a' = insert (p, n) (regions s a) \<and>
           (\<forall>x \<in> regions s a. apart ovh (p, n) x))"
    using malloc_law [of s a sz] assms by (auto simp: owns_def)
  show ?thesis
  proof (cases "p = 0")
    case True
    then have "owns s' a' own f"
      using assms(1) m c by (auto simp: owns_def)
    then show ?thesis
      using m True by auto
  next
    case False
    then obtain n where n: "unat sz \<le> n" "regions s' a' = insert (p, n) (regions s a)"
        "\<And>x. x \<in> regions s a \<Longrightarrow> apart ovh (p, n) x"
      using c by blast
    have fresh: "p \<notin> fst ` set own"
    proof
      assume "p \<in> fst ` set own"
      then have "(p, f p) \<in> regions s a"
        using assms(1) by (simp add: owns_def)
      then show False
        using apart_fst_neq [OF ovh_pos n(3)] by fastforce
    qed
    have pw: "\<forall>x\<in>regions s a. \<forall>y\<in>regions s a. x \<noteq> y \<longrightarrow> apart ovh x y"
      using assms(1) unfolding owns_def by blast
    have im: "(\<lambda>q. (q, (f(p := n)) q)) ` fst ` set own = (\<lambda>q. (q, f q)) ` fst ` set own"
      using fresh by (intro image_cong) auto
    have "owns s' a' ((p, sz) # own) (f(p := n))"
      unfolding owns_def
    proof (intro conjI)
      show "regions s' a' = (\<lambda>q. (q, (f(p := n)) q)) ` fst ` set ((p, sz) # own)"
        using n(2) assms(1) im by (simp add: owns_def)
      show "\<forall>x\<in>regions s' a'. \<forall>y\<in>regions s' a'. x \<noteq> y \<longrightarrow> apart ovh x y"
        unfolding n(2) using n(3) pw apart_sym by (metis insert_iff)
    qed (use m assms(1) fresh n(1) False in \<open>auto simp: owns_def rev_image_eqI\<close>)
    then show ?thesis
      using m False by auto
  qed
qed

lemma owns_free:
  assumes "owns s a own f" and "i < length own"
  shows "\<exists>s' a'. free (fst (own ! i)) s = Some s' \<and> owns s' a' (take i own @ drop (Suc i) own) f"
proof -
  have rg: "regions s a = (\<lambda>p. (p, f p)) ` fst ` set own" and rp: "rep s a"
    using assms(1) by (simp_all add: owns_def)
  have "(fst (own ! i), f (fst (own ! i))) \<in> regions s a"
    unfolding rg using assms(2) by auto
  then obtain s' a' where r: "free (fst (own ! i)) s = Some s'" "rep s' a'"
      "regions s' a' = regions s a - {(fst (own ! i), f (fst (own ! i)))}"
    using free_law [OF rp] by blast
  have d: "distinct (map fst own)"
    using assms(1) by (simp add: owns_def)
  note td = set_take_drop_distinct [OF d assms(2)]
  have fs: "fst ` (set own - {own ! i}) = fst ` set own - {fst (own ! i)}"
    using d assms(2) by (auto simp: distinct_map inj_on_def)
  have "regions s' a' = (\<lambda>p. (p, f p)) ` fst ` set (take i own @ drop (Suc i) own)"
    unfolding td(1) fs r(3) rg by auto
  moreover have "\<forall>(p, sz)\<in>set (take i own @ drop (Suc i) own). p \<noteq> 0 \<and> unat sz \<le> f p"
    unfolding td(1) using assms(1) by (simp add: owns_def)
  moreover have "\<forall>x\<in>regions s' a'. \<forall>y\<in>regions s' a'. x \<noteq> y \<longrightarrow> apart ovh x y"
    unfolding r(3) using assms(1) [unfolded owns_def] by simp
  ultimately have "owns s' a' (take i own @ drop (Suc i) own) f"
    using r(2) td(2) unfolding owns_def by blast
  then show ?thesis
    using r(1) by blast
qed

lemma run_owns:
  assumes "owns s a own f" and "ops_ok ops"
  shows "\<exists>s' a' own' f'. alloc_run malloc free ops (s, own) = Some (s', own') \<and> owns s' a' own' f'"
  using assms
proof (induction ops arbitrary: s a own f)
  case (Cons op ops)
  have ok: "ops_ok ops"
    using Cons.prems(2) by (simp add: ops_ok_def)
  show ?case
  proof (cases op)
    case (Malloc sz)
    then have "unat sz + 15 < 2 ^ 64"
      using Cons.prems(2) by (simp add: ops_ok_def)
    then obtain p s1 a1 f1 where "malloc sz s = Some (p, s1)"
        and own1: "owns s1 a1 (if p = 0 then own else (p, sz) # own) f1"
      using owns_malloc [OF Cons.prems(1)] by blast
    then show ?thesis
      using Cons.IH [OF own1 ok] Malloc by simp
  next
    case (Free i)
    show ?thesis
    proof (cases "i < length own")
      case True
      then obtain s1 a1 where "free (fst (own ! i)) s = Some s1"
        and own1: "owns s1 a1 (take i own @ drop (Suc i) own) f"
        using owns_free [OF Cons.prems(1)] by blast
      then show ?thesis
        using Cons.IH [OF own1 ok] Free True by simp
    next
      case False
      then show ?thesis
        using Cons.IH [OF Cons.prems(1) ok] Free by simp
    qed
  qed
qed auto

end

end
