(* ===== verification/KHeapRefine.thy ===== *)
theory KHeapRefine
  imports KHeap RegionAllocator
begin

text \<open>
  The heap refines a list of segments. A segment is a payload size and a free flag; the
  segments tile the heap region, each behind a 32-byte header. \<open>kmalloc\<close> implements
  first-fit \<open>amalloc\<close>, \<open>kfree\<close> implements coalescing \<open>afree\<close>, and the two keep the
  representation invariant \<open>heap_rep\<close>: exact tiling, consistent back links, no two
  neighbouring free segments, and the usage counters.
\<close>

section \<open>Abstract specification: first fit over segments\<close>

type_synonym segs = "(nat \<times> bool) list"

fun extent :: "segs \<Rightarrow> nat" where
  "extent [] = 0"
| "extent ((n, f) # bs) = n + 32 + extent bs"

fun amalloc :: "nat \<Rightarrow> segs \<Rightarrow> (nat \<times> segs) option" where
  "amalloc sz [] = None"
| "amalloc sz ((n, f) # bs) =
     (if f \<and> sz \<le> n
      then Some (0, if sz + 48 \<le> n then (sz, False) # (n - sz - 32, True) # bs else (n, False) # bs)
      else map_option (\<lambda>(off, r). (off + n + 32, (n, f) # r)) (amalloc sz bs))"

fun merge_next :: "nat \<Rightarrow> segs \<Rightarrow> segs" where
  "merge_next n ((k, True) # bs) = (n + 32 + k, True) # bs"
| "merge_next n bs = (n, True) # bs"

fun afree :: "nat \<Rightarrow> segs \<Rightarrow> segs" where
  "afree off [] = []"
| "afree off ((n, f) # bs) =
     (if off = 0 then merge_next n bs
      else if f \<and> off = n + 32
      then (case afree 0 bs of (k, _) # r \<Rightarrow> (n + 32 + k, True) # r | [] \<Rightarrow> [(n, f)])
      else (n, f) # afree (off - (n + 32)) bs)"

section \<open>Chains of headers\<close>

definition hdr_ok :: "heap_block \<Rightarrow> u64 \<Rightarrow> nat \<Rightarrow> bool \<Rightarrow> bool" where
  "hdr_ok b pv n f \<longleftrightarrow>
     hb_magic b = HEAP_MAGIC \<and> hb_prev b = pv \<and> unat (hb_size b) = n \<and> (hb_is_free b \<noteq> 0) = f"

text \<open>
  \<open>seg m pv p bs lv q\<close>: starting at header \<open>p\<close> whose back link is \<open>pv\<close>, the chain holds the
  segments \<open>bs\<close>; its last header is \<open>lv\<close> and the chain continues at \<open>q\<close>.
\<close>

fun seg :: "heap_mem \<Rightarrow> u64 \<Rightarrow> u64 \<Rightarrow> segs \<Rightarrow> u64 \<Rightarrow> u64 \<Rightarrow> bool" where
  "seg m pv p [] lv q \<longleftrightarrow> lv = pv \<and> q = p"
| "seg m pv p ((n, f) # bs) lv q \<longleftrightarrow>
     p \<noteq> 0 \<and> hdr_ok (m p) pv n f \<and>
     (hb_next (m p) = 0 \<or> hb_next (m p) = p + 32 + of_nat n) \<and>
     seg m p (hb_next (m p)) bs lv q"

lemma seg_append:
  "seg m pv p (xs @ ys) lv q \<longleftrightarrow> (\<exists>v r. seg m pv p xs v r \<and> seg m v r ys lv q)"
  by (induction m pv p xs lv q rule: seg.induct) auto

lemma extent_append [simp]: "extent (xs @ ys) = extent xs + extent ys"
  by (induction xs rule: extent.induct) simp_all

lemma unat_step:
  fixes p :: u64
  assumes "unat p + (n + 32) < 2 ^ 64"
  shows "unat (p + 32 + of_nat n) = unat p + n + 32"
proof -
  have "unat (of_nat n :: u64) = n"
    using assms by (simp add: unat_of_nat)
  moreover have "unat (p + 32) = unat p + 32"
    using assms by (simp add: unat_add_no_overflow)
  ultimately show ?thesis
    using assms by (simp add: unat_add_no_overflow)
qed

lemma seg_end:
  "seg m pv p xs v r \<Longrightarrow> r \<noteq> 0 \<Longrightarrow> r = p + of_nat (extent xs)"
proof (induction m pv p xs v r rule: seg.induct)
  case (2 m pv p n f bs lv q)
  then have "q = hb_next (m p) + of_nat (extent bs)" by simp
  moreover have "hb_next (m p) \<noteq> 0"
    using 2 by (cases bs) auto
  ultimately show ?case
    using 2 by (simp add: algebra_simps)
qed simp

lemma seg_unat_end:
  assumes "seg m pv p xs v r" and "r \<noteq> 0" and "unat p + extent xs < 2 ^ 64"
  shows "unat r = unat p + extent xs"
proof -
  have "unat (of_nat (extent xs) :: u64) = extent xs"
    using assms(3) by (simp add: unat_of_nat)
  then show ?thesis
    using seg_end [OF assms(1,2)] assms(3) by (simp add: unat_add_no_overflow)
qed

lemma seg_frame:
  assumes "seg m pv p xs v r" and "unat p + extent xs < 2 ^ 64"
    and "\<And>a. unat p \<le> unat a \<Longrightarrow> unat a < unat p + extent xs \<Longrightarrow> m' a = m a"
  shows "seg m' pv p xs v r"
  using assms
proof (induction m pv p xs v r rule: seg.induct)
  case (2 m pv p n f bs lv q)
  have p: "m' p = m p"
    using 2(4) by simp
  show ?case
  proof (cases "hb_next (m p) = 0")
    case True
    then have "bs = []"
      using 2(2) by (cases bs) auto
    then show ?thesis
      using 2(2) p True by simp
  next
    case False
    then have nx: "hb_next (m p) = p + 32 + of_nat n"
      using 2(2) by simp
    moreover have "unat (p + 32 + of_nat n) = unat p + n + 32"
      using 2(3) by (intro unat_step) simp
    ultimately have "seg m' p (hb_next (m p)) bs lv q"
      using 2 by (intro "2.IH") auto
    then show ?thesis
      using 2(2) p by simp
  qed
qed simp

lemma seg_frame_above:
  assumes "seg m pv p xs v r" and "unat p + extent xs < 2 ^ 64"
    and "\<And>a. p \<noteq> 0 \<Longrightarrow> unat p \<le> unat a \<Longrightarrow> m' a = m a"
  shows "seg m' pv p xs v r"
proof (cases xs)
  case (Cons y ys)
  then have "p \<noteq> 0"
    using assms(1) by (cases y) auto
  then show ?thesis
    using seg_frame [OF assms(1,2)] assms(3) by blast
qed (use assms(1) in simp)

section \<open>First fit\<close>

definition nofit :: "nat \<Rightarrow> segs \<Rightarrow> bool" where
  "nofit sz xs \<longleftrightarrow> (\<forall>(n, f) \<in> set xs. \<not> (f \<and> sz \<le> n))"

definition carve :: "nat \<Rightarrow> nat \<Rightarrow> segs" where
  "carve sz n = (if sz + 48 \<le> n then [(sz, False), (n - sz - 32, True)] else [(n, False)])"

lemma amalloc_None_iff: "amalloc sz bs = None \<longleftrightarrow> nofit sz bs"
  by (induction sz bs rule: amalloc.induct) (auto simp: nofit_def)

lemma amalloc_Some:
  "amalloc sz bs = Some (off, bs') \<Longrightarrow>
     \<exists>xs n ys. bs = xs @ (n, True) # ys \<and> nofit sz xs \<and> sz \<le> n \<and> off = extent xs \<and>
               bs' = xs @ carve sz n @ ys"
proof (induction sz bs arbitrary: off bs' rule: amalloc.induct)
  case (2 sz n f bs)
  show ?case
  proof (cases "f \<and> sz \<le> n")
    case True
    then show ?thesis
      using "2.prems" by (intro exI [of _ "[]"] exI [of _ n] exI [of _ bs])
        (auto simp: nofit_def carve_def split: if_splits)
  next
    case False
    then obtain off1 r where r: "amalloc sz bs = Some (off1, r)"
        "off = off1 + n + 32" "bs' = (n, f) # r"
      using "2.prems" by auto
    obtain xs k ys where "bs = xs @ (k, True) # ys" "nofit sz xs" "sz \<le> k" "off1 = extent xs"
        "r = xs @ carve sz k @ ys"
      using "2.IH" [OF False r(1)] by blast
    then show ?thesis
      using False r by (intro exI [of _ "(n, f) # xs"] exI [of _ k] exI [of _ ys])
        (auto simp: nofit_def)
  qed
qed simp

lemma heap_walk_skip:
  "seg m pv p xs v r \<Longrightarrow> nofit (unat sz) xs \<Longrightarrow> heap_walk m sz p = heap_walk m sz r"
proof (induction m pv p xs v r rule: seg.induct)
  case (2 m pv p n f bs lv q)
  then have "heap_walk m sz p = heap_walk m sz (hb_next (m p))"
    by (subst heap_walk.simps) (auto simp: hdr_ok_def nofit_def word_le_nat_alt)
  then show ?case
    using 2 by (simp add: nofit_def)
qed simp

lemma heap_walk_Exhausted:
  "seg m pv p bs lv 0 \<Longrightarrow> nofit (unat sz) bs \<Longrightarrow> heap_walk m sz p = Some Exhausted"
  using heap_walk_skip [of m pv p bs lv 0 sz] heap_walk.simps [of m sz 0] by simp

lemma heap_walk_Found:
  assumes "seg m pv p xs v b" and "seg m v b ((n, True) # ys) lv 0"
    and "nofit (unat sz) xs" and "unat sz \<le> n"
  shows "heap_walk m sz p = Some (Found b)"
  using heap_walk_skip [OF assms(1,3)] heap_walk.simps [of m sz b] assms(2,4)
  by (simp add: hdr_ok_def word_le_nat_alt)

section \<open>Splitting a block\<close>

lemma seg_tail:
  assumes "seg m v b ((n, f) # ys) lv 0" and "unat b + extent ((n, f) # ys) < 2 ^ 64"
  obtains nx where "hb_next (m b) = nx" and "seg m b nx ys lv 0"
    and "unat nx + extent ys < 2 ^ 64" and "nx \<noteq> 0 \<Longrightarrow> unat nx = unat b + n + 32"
    and "nx = 0 \<Longrightarrow> ys = []"
proof (cases "hb_next (m b) = 0")
  case True
  then have "ys = []"
    using assms(1) by (cases ys) auto
  then show ?thesis
    using that [of 0] True assms(1) by simp
next
  case False
  then have nx: "hb_next (m b) = b + 32 + of_nat n"
    using assms(1) by simp
  have "unat (b + 32 + of_nat n) = unat b + n + 32"
    using assms(2) by (intro unat_step) simp
  then show ?thesis
    using that [of "hb_next (m b)"] False assms nx by simp
qed

definition relink :: "heap_mem \<Rightarrow> u64 \<Rightarrow> u64 \<Rightarrow> heap_mem" where
  "relink m p pv = (if p \<noteq> 0 then m(p := (m p)\<lparr>hb_prev := pv\<rparr>) else m)"

lemma relink_other: "a \<noteq> p \<Longrightarrow> relink m p pv a = m a"
  by (simp add: relink_def)

lemma seg_cons_frame:
  assumes "seg m v b ((n, f) # ys) lv 0" and "unat b + extent ((n, f) # ys) < 2 ^ 64"
    and "\<And>a. unat b + n + 32 \<le> unat a \<Longrightarrow> m' a = m a"
  shows "seg m' b (hb_next (m b)) ys lv 0"
proof -
  obtain nx where nx: "hb_next (m b) = nx" "seg m b nx ys lv 0" "unat nx + extent ys < 2 ^ 64"
      "nx \<noteq> 0 \<Longrightarrow> unat nx = unat b + n + 32"
    using seg_tail [OF assms(1,2)] by metis
  have "seg m' b nx ys lv 0"
    by (rule seg_frame_above [OF nx(2,3)]) (use nx(4) assms(3) in auto)
  then show ?thesis
    using nx(1) by simp
qed

lemma seg_relink:
  assumes "seg m pv p ys lv 0" and "unat p + extent ys < 2 ^ 64"
  shows "\<exists>lv'. seg (relink m p pv') pv' p ys lv' 0"
proof (cases ys)
  case Nil
  then show ?thesis
    using assms(1) by simp
next
  case (Cons y zs)
  obtain k g where y: "y = (k, g)"
    by (cases y)
  have sg: "seg m pv p ((k, g) # zs) lv 0" and bd: "unat p + extent ((k, g) # zs) < 2 ^ 64"
    using assms Cons y by simp_all
  have "seg (relink m p pv') p (hb_next (m p)) zs lv 0"
    by (rule seg_cons_frame [OF sg bd]) (auto simp: relink_def)
  then have "seg (relink m p pv') pv' p ((k, g) # zs) lv 0"
    using sg by (auto simp: relink_def hdr_ok_def)
  then show ?thesis
    using Cons y by blast
qed

lemma seg_relabel:
  assumes "seg m v b ((n, f) # ys) lv 0" and "unat b + extent ((n, f) # ys) < 2 ^ 64"
  shows "seg (m(b := (m b)\<lparr>hb_is_free := k\<rparr>)) v b ((n, k \<noteq> 0) # ys) lv 0"
proof -
  have "seg (m(b := (m b)\<lparr>hb_is_free := k\<rparr>)) b (hb_next (m b)) ys lv 0"
    by (rule seg_cons_frame [OF assms]) auto
  then show ?thesis
    using assms(1) by (auto simp: hdr_ok_def)
qed

lemma split_block_relink:
  assumes "sz + HDR + 16 \<le> hb_size (m b)" and "b \<noteq> b + HDR + sz" and "b \<noteq> hb_next (m b)"
  shows "split_block m b sz =
    (let new = b + HDR + sz;
         m2 = relink (m(new := \<lparr>hb_magic = HEAP_MAGIC, hb_is_free = 1,
                 hb_size = hb_size (m b) - sz - HDR, hb_next = hb_next (m b), hb_prev = b\<rparr>))
                 (hb_next (m b)) new
     in m2(b := (m b)\<lparr>hb_next := new, hb_size := sz\<rparr>))"
  using assms by (simp add: split_block_def Let_def relink_def)

lemma take_block_split:
  assumes seg: "seg m v b ((n, True) # ys) lv 0"
    and fits: "unat sz + 48 \<le> n"
    and bound: "unat b + extent ((n, True) # ys) < 2 ^ 64"
  defines "mm \<equiv> split_block m b sz"
  defines "m' \<equiv> mm(b := (mm b)\<lparr>hb_is_free := 0\<rparr>)"
  shows "(\<exists>lv'. seg m' v b ((unat sz, False) # (n - unat sz - 32, True) # ys) lv' 0) \<and>
     (\<forall>a. unat a < unat b \<longrightarrow> m' a = m a) \<and> hb_size (m' b) = sz"
proof -
  have h: "hdr_ok (m b) v n True" and b0: "b \<noteq> 0"
    using seg by auto
  have size: "unat (hb_size (m b)) = n"
    using h by (simp add: hdr_ok_def)
  obtain nx where nx: "hb_next (m b) = nx" "seg m b nx ys lv 0" "unat nx + extent ys < 2 ^ 64"
      "nx \<noteq> 0 \<Longrightarrow> unat nx = unat b + n + 32" "nx = 0 \<Longrightarrow> ys = []"
    using seg_tail [OF seg bound] by metis
  define new where "new = b + HDR + sz"
  have unew: "unat new = unat b + 32 + unat sz"
  proof -
    have "unat (b + HDR) = unat b + 32"
      using fits bound by (simp add: unat_add_no_overflow)
    then show ?thesis
      unfolding new_def using fits bound by (simp add: unat_add_no_overflow)
  qed
  have new0: "new \<noteq> 0" and newb: "new \<noteq> b"
    using unew by auto
  have newnx: "new \<noteq> nx"
    using new0 unew nx(4) fits by (cases "nx = 0") auto
  have bnx: "b \<noteq> nx"
    using b0 nx(4) by (cases "nx = 0") auto
  have usz: "unat (sz + HDR + 16) = unat sz + 48"
    using fits bound by (simp add: unat_add_no_overflow)
  have sp: "sz + HDR + 16 \<le> hb_size (m b)"
    unfolding word_le_nat_alt usz size by (rule fits)
  have rest: "unat (hb_size (m b) - sz - HDR) = n - unat sz - 32"
  proof -
    have "unat (hb_size (m b) - sz) = n - unat sz"
      using fits size by (simp add: unat_sub_le word_le_nat_alt)
    then show ?thesis
      using fits by (simp add: unat_sub_le word_le_nat_alt)
  qed
  define N where "N = \<lparr>hb_magic = HEAP_MAGIC, hb_is_free = 1,
                 hb_size = hb_size (m b) - sz - HDR, hb_next = nx, hb_prev = b\<rparr>"
  have m': "m' = (relink (m(new := N)) nx new)(b := (m b)\<lparr>hb_next := new, hb_size := sz, hb_is_free := 0\<rparr>)"
    unfolding m'_def mm_def using split_block_relink [of sz m b] sp newb bnx nx(1)
    by (simp add: Let_def N_def new_def)
  have "seg (m(new := N)) b nx ys lv 0"
    by (rule seg_frame_above [OF nx(2,3)]) (use unew nx(4) fits in auto)
  then obtain lv' where "seg (relink (m(new := N)) nx new) new nx ys lv' 0"
    using seg_relink [OF _ nx(3)] by blast
  then have tail: "seg m' new nx ys lv' 0"
    unfolding m' by (rule seg_frame_above [OF _ nx(3)]) (use nx(4) in auto)
  have m'new: "m' new = N" and m'b: "m' b = (m b)\<lparr>hb_next := new, hb_size := sz, hb_is_free := 0\<rparr>"
    unfolding m' using newb newnx by (simp_all add: relink_other)
  have nxeq: "nx = 0 \<or> nx = new + 32 + of_nat (n - unat sz - 32)"
  proof (cases "nx = 0")
    case False
    have "unat (new + 32 + of_nat (n - unat sz - 32)) = unat new + (n - unat sz - 32) + 32"
      using unew fits bound by (intro unat_step) simp
    then show ?thesis
      using nx(4) [OF False] unew fits by (simp add: word_unat_eq_iff)
  qed simp
  have hnew: "hdr_ok N b (n - unat sz - 32) True"
    by (simp add: hdr_ok_def N_def rest)
  have "seg m' v b ((unat sz, False) # (n - unat sz - 32, True) # ys) lv' 0"
    using tail m'new m'b h b0 new0 nxeq hnew by (auto simp: hdr_ok_def N_def new_def)
  moreover have "\<forall>a. unat a < unat b \<longrightarrow> m' a = m a"
  proof (intro allI impI)
    fix a :: u64 assume a: "unat a < unat b"
    then have "a \<noteq> b" and "a \<noteq> new" and "nx = 0 \<or> a \<noteq> nx"
      using unew nx(4) by auto
    then show "m' a = m a"
      unfolding m' by (auto simp: relink_def)
  qed
  ultimately show ?thesis
    using m'b by auto
qed

lemma take_block_seg:
  assumes seg: "seg m v b ((n, True) # ys) lv 0"
    and le: "unat sz \<le> n" and low: "16 \<le> unat b"
    and bound: "unat b + extent ((n, True) # ys) < 2 ^ 64"
  defines "mm \<equiv> split_block m b sz"
  defines "m' \<equiv> mm(b := (mm b)\<lparr>hb_is_free := 0\<rparr>)"
  shows "(\<exists>lv'. seg m' v b (carve (unat sz) n @ ys) lv' 0) \<and>
     (\<forall>a. unat a < unat b \<longrightarrow> m' a = m a) \<and>
     unat (hb_size (m' b)) = (if unat sz + 48 \<le> n then unat sz else n)"
proof (cases "unat sz + 48 \<le> n")
  case True
  then have "carve (unat sz) n @ ys = (unat sz, False) # (n - unat sz - 32, True) # ys"
    by (simp add: carve_def)
  then show ?thesis
    using take_block_split [OF seg True bound, folded mm_def, folded m'_def] True
    by (simp del: seg.simps)
next
  case False
  have size: "unat (hb_size (m b)) = n"
    using seg by (simp add: hdr_ok_def)
  have "unat sz + 48 < 2 ^ 64"
    using le low bound by simp
  then have "unat (sz + HDR + 16) = unat sz + 48"
    by (simp add: unat_add_no_overflow)
  then have "\<not> sz + HDR + 16 \<le> hb_size (m b)"
    using False size by (simp add: word_le_nat_alt)
  then show ?thesis
    using seg_relabel [OF seg bound, of 0] False
    by (auto simp: m'_def mm_def split_block_def carve_def size)
qed

section \<open>Coalescing\<close>

lemma coalesce_next_relink:
  assumes "hb_next (m b) = nx" and "nx \<noteq> 0" and "hb_is_free (m nx) \<noteq> 0"
  shows "coalesce_next m b =
    relink (m(b := (m b)\<lparr>hb_size := hb_size (m b) + (HDR + hb_size (m nx)), hb_next := hb_next (m nx)\<rparr>))
      (hb_next (m nx)) b"
  using assms by (simp add: coalesce_next_def relink_def Let_def)

lemma coalesce_next_merge:
  assumes seg: "seg m v b ((n, True) # (k, True) # zs) lv 0"
    and bound: "unat b + extent ((n, True) # (k, True) # zs) < 2 ^ 64"
  shows "(\<exists>lv'. seg (coalesce_next m b) v b ((n + 32 + k, True) # zs) lv' 0) \<and>
         (\<forall>a. unat a < unat b \<longrightarrow> coalesce_next m b a = m a)"
proof -
  have hb: "hdr_ok (m b) v n True" and b0: "b \<noteq> 0"
    using seg by auto
  obtain nx where nx: "hb_next (m b) = nx" "seg m b nx ((k, True) # zs) lv 0"
      "unat nx + extent ((k, True) # zs) < 2 ^ 64"
      "nx \<noteq> 0 \<Longrightarrow> unat nx = unat b + n + 32"
    using seg_tail [OF seg bound] by metis
  then have nx0: "nx \<noteq> 0" and hn: "hdr_ok (m nx) b k True"
    by auto
  obtain nn where nn: "hb_next (m nx) = nn" "seg m nx nn zs lv 0" "unat nn + extent zs < 2 ^ 64"
      "nn \<noteq> 0 \<Longrightarrow> unat nn = unat nx + k + 32"
    using seg_tail [OF nx(2,3)] by metis
  define B where "B = (m b)\<lparr>hb_size := hb_size (m b) + (HDR + hb_size (m nx)), hb_next := nn\<rparr>"
  have bnn: "b \<noteq> nn"
    using b0 nn(4) nx(4) [OF nx0] by (cases "nn = 0") auto
  have eq: "coalesce_next m b = relink (m(b := B)) nn b"
    using coalesce_next_relink [of m b nx] nx(1) nx0 hn nn(1) by (simp add: hdr_ok_def B_def)
  have "seg (m(b := B)) nx nn zs lv 0"
    by (rule seg_frame_above [OF nn(2,3)]) (use nn(4) nx(4) [OF nx0] in auto)
  then obtain lv' where tail: "seg (relink (m(b := B)) nn b) b nn zs lv' 0"
    using seg_relink [OF _ nn(3)] by blast
  have atb: "relink (m(b := B)) nn b b = B"
    using bnn by (simp add: relink_other)
  have usz: "unat (hb_size B) = n + 32 + k"
  proof -
    have "unat (HDR + hb_size (m nx)) = 32 + k"
      using hn bound by (simp add: unat_add_no_overflow hdr_ok_def)
    then show ?thesis
      using hb bound by (simp add: unat_add_no_overflow hdr_ok_def B_def)
  qed
  have "nn = 0 \<or> nn = b + 32 + of_nat (n + 32 + k)"
    using seg nx(1) nn(1) nx0 by auto
  then have "seg (relink (m(b := B)) nn b) v b ((n + 32 + k, True) # zs) lv' 0"
    using tail atb usz hb b0 by (auto simp: hdr_ok_def B_def)
  moreover have "\<forall>a. unat a < unat b \<longrightarrow> relink (m(b := B)) nn b a = m a"
    using nn(4) nx(4) [OF nx0] by (auto simp: relink_def)
  ultimately show ?thesis
    unfolding eq by blast
qed

lemma coalesce_next_seg:
  assumes seg: "seg m v b ((n, True) # ys) lv 0"
    and bound: "unat b + extent ((n, True) # ys) < 2 ^ 64"
  shows "(\<exists>lv'. seg (coalesce_next m b) v b (merge_next n ys) lv' 0) \<and>
         (\<forall>a. unat a < unat b \<longrightarrow> coalesce_next m b a = m a)"
proof (cases "\<exists>k zs. ys = (k, True) # zs")
  case True
  then obtain k zs where ys: "ys = (k, True) # zs"
    by blast
  show ?thesis
    unfolding ys merge_next.simps
    by (rule coalesce_next_merge [OF seg [unfolded ys] bound [unfolded ys]])
next
  case False
  have "coalesce_next m b = m"
    using seg False by (cases ys) (auto simp: coalesce_next_def hdr_ok_def)
  moreover have "merge_next n ys = (n, True) # ys"
    using False by (cases "(n, ys)" rule: merge_next.cases) auto
  ultimately show ?thesis
    using seg by auto
qed

lemma coalesce_prev_eq:
  assumes "hb_prev (m b) = v" and "v \<noteq> 0" and "hb_is_free (m v) \<noteq> 0"
    and "hb_next (m v) = b" and "b \<noteq> 0" and "b \<noteq> v" and "hb_is_free (m b) \<noteq> 0"
  shows "coalesce_prev m b = coalesce_next m v"
  using assms by (simp add: coalesce_prev_def coalesce_next_def Let_def)

lemma merge_next_cons:
  obtains k r where "merge_next n ys = (k, True) # r" and "k + extent r = n + extent ys"
  by (cases "(n, ys)" rule: merge_next.cases) auto

definition afree_at :: "segs \<Rightarrow> nat \<Rightarrow> segs \<Rightarrow> segs" where
  "afree_at xs n ys =
     (if xs \<noteq> [] \<and> snd (last xs)
      then butlast xs @ (fst (last xs) + 32 + fst (hd (merge_next n ys)), True) # tl (merge_next n ys)
      else xs @ merge_next n ys)"

lemma extent_eq_0 [simp]: "extent xs = 0 \<longleftrightarrow> xs = []"
  by (cases xs rule: extent.cases) auto

lemma afree_app: "afree (extent xs) (xs @ (n, f) # ys) = afree_at xs n ys"
proof (induction xs rule: extent.induct)
  case 1
  then show ?case by (simp add: afree_at_def)
next
  case (2 k g xs)
  obtain j r where "merge_next n ys = (j, True) # r"
    using merge_next_cons by blast
  then show ?case
    using 2 by (cases "xs = []") (auto simp: afree_at_def)
qed

lemma seg_split:
  assumes "seg m 0 s (xs @ (n, f) # ys) lv 0" and "unat s + extent (xs @ (n, f) # ys) < 2 ^ 64"
  obtains v b where "seg m 0 s xs v b" and "seg m v b ((n, f) # ys) lv 0"
    and "unat b = unat s + extent xs" and "unat b + extent ((n, f) # ys) < 2 ^ 64"
    and "b = s + of_nat (extent xs)"
proof -
  obtain v b where vb: "seg m 0 s xs v b" "seg m v b ((n, f) # ys) lv 0"
    using assms(1) unfolding seg_append by blast
  then have b0: "b \<noteq> 0" by simp
  have ub: "unat b = unat s + extent xs"
    by (rule seg_unat_end [OF vb(1) b0]) (use assms(2) in simp)
  show ?thesis
    by (rule that [OF vb ub _ seg_end [OF vb(1) b0]]) (use ub assms(2) in simp)
qed

lemma coalesce_prev_seg:
  assumes xs: "seg m 0 s xs v b" and b: "seg m v b ((k, True) # r) lv 0"
    and ub: "unat b = unat s + extent xs" and bound: "unat b + extent ((k, True) # r) < 2 ^ 64"
  shows "\<exists>lv'. seg (coalesce_prev m b) 0 s
     (if xs \<noteq> [] \<and> snd (last xs) then butlast xs @ (fst (last xs) + 32 + k, True) # r
      else xs @ (k, True) # r) lv' 0"
proof (cases "xs \<noteq> [] \<and> snd (last xs)")
  case True
  then obtain zs j where zs: "xs = zs @ [(j, True)]"
    by (metis append_butlast_last_id prod.collapse)
  then obtain u where u: "seg m 0 s zs u v" and v: "seg m u v [(j, True)] v b"
    using xs by (auto simp: seg_append)
  have v0: "v \<noteq> 0" and vn: "hb_next (m v) = b" and vf: "hb_is_free (m v) \<noteq> 0"
    using v by (auto simp: hdr_ok_def)
  have uv: "unat v = unat s + extent zs"
    by (rule seg_unat_end [OF u v0]) (use ub bound zs in simp)
  have bv: "b \<noteq> v"
    using uv ub zs by auto
  have two: "seg m u v ((j, True) # (k, True) # r) lv 0"
    using v b by auto
  have bd: "unat v + extent ((j, True) # (k, True) # r) < 2 ^ 64"
    using uv ub bound zs by simp
  obtain lv' where lv': "seg (coalesce_next m v) u v ((j + 32 + k, True) # r) lv' 0"
    and fr: "\<And>a. unat a < unat v \<Longrightarrow> coalesce_next m v a = m a"
    using coalesce_next_merge [OF two bd] by blast
  have "seg (coalesce_next m v) 0 s zs u v"
    by (rule seg_frame [OF u]) (use fr uv bd in auto)
  then have "seg (coalesce_next m v) 0 s (zs @ (j + 32 + k, True) # r) lv' 0"
    using lv' unfolding seg_append by blast
  moreover have "coalesce_prev m b = coalesce_next m v"
    using b v0 vn vf bv by (intro coalesce_prev_eq) (auto simp: hdr_ok_def)
  ultimately show ?thesis
    using zs by auto
next
  case False
  have "hb_prev (m b) = v"
    using b by (simp add: hdr_ok_def)
  moreover have "v = 0 \<or> hb_is_free (m v) = 0"
  proof (cases xs rule: rev_cases)
    case (snoc zs y)
    then show ?thesis
      using xs False by (cases y) (auto simp: seg_append hdr_ok_def)
  qed (use xs in simp)
  ultimately have "coalesce_prev m b = m"
    by (auto simp: coalesce_prev_def)
  moreover have "seg m 0 s (xs @ (k, True) # r) lv 0"
    using xs b unfolding seg_append by blast
  ultimately show ?thesis
    using False by auto
qed

section \<open>The representation invariant\<close>

fun noadj :: "segs \<Rightarrow> bool" where
  "noadj ((n, f) # (k, g) # bs) \<longleftrightarrow> \<not> (f \<and> g) \<and> noadj ((k, g) # bs)"
| "noadj bs \<longleftrightarrow> True"

definition used_bytes :: "segs \<Rightarrow> nat" where
  "used_bytes bs = sum_list (map (\<lambda>(n, f). if f then 0 else n) bs)"

definition used_count :: "segs \<Rightarrow> nat" where
  "used_count bs = length (filter (\<lambda>(n, f). \<not> f) bs)"

definition segs_wf :: "segs \<Rightarrow> bool" where
  "segs_wf bs \<longleftrightarrow> (\<forall>(n, f) \<in> set bs. 16 dvd n) \<and> noadj bs"

definition heap_rep :: "kheap \<Rightarrow> segs \<Rightarrow> bool" where
  "heap_rep h bs \<longleftrightarrow>
     \<not> heap_lock h \<and> (\<exists>lv. seg (hmem h) 0 (heap_start h) bs lv 0) \<and>
     extent bs = unat (heap_total_size h) \<and> unat (heap_start h) + extent bs < 2 ^ 64 \<and>
     16 dvd unat (heap_start h) \<and> segs_wf bs \<and>
     unat (heap_used h) = used_bytes bs \<and> unat (heap_alloc_count h) = used_count bs"

lemma noadj_Cons: "noadj (x # ys) \<longleftrightarrow> noadj ys \<and> \<not> (snd x \<and> ys \<noteq> [] \<and> snd (hd ys))"
  by (cases x; cases ys) auto

lemma noadj_append:
  "noadj (xs @ ys) \<longleftrightarrow> noadj xs \<and> noadj ys \<and> \<not> (xs \<noteq> [] \<and> ys \<noteq> [] \<and> snd (last xs) \<and> snd (hd ys))"
  by (induction xs) (auto simp: noadj_Cons hd_append)

lemma used_append [simp]:
  "used_bytes (xs @ ys) = used_bytes xs + used_bytes ys"
  "used_count (xs @ ys) = used_count xs + used_count ys"
  by (simp_all add: used_bytes_def used_count_def)

lemma used_Cons [simp]:
  "used_bytes ((n, f) # ys) = (if f then 0 else n) + used_bytes ys"
  "used_count ((n, f) # ys) = (if f then 0 else 1) + used_count ys"
  "used_bytes [] = 0" "used_count [] = 0"
  by (simp_all add: used_bytes_def used_count_def)

lemma used_le_extent: "used_bytes bs \<le> extent bs \<and> used_count bs \<le> extent bs"
  by (induction bs rule: extent.induct) (auto split: if_splits)

lemma carve_extent: "sz \<le> n \<Longrightarrow> extent (carve sz n) = n + 32"
  by (simp add: carve_def)

lemma carve_used:
  "used_bytes (carve sz n) = (if sz + 48 \<le> n then sz else n)" "used_count (carve sz n) = 1"
  by (simp_all add: carve_def)

lemma carve_wf:
  assumes "segs_wf (xs @ (n, True) # ys)" and "16 dvd sz" and "sz \<le> n"
  shows "segs_wf (xs @ carve sz n @ ys)"
proof -
  have "16 dvd n - sz - 32"
    using assms by (auto simp: segs_wf_def intro!: dvd_diff_nat)
  then show ?thesis
    using assms by (auto simp: segs_wf_def carve_def noadj_append noadj_Cons)
qed

lemma merge_next_wf:
  assumes "segs_wf ((n, False) # ys)"
  shows "segs_wf (merge_next n ys)"
  using assms by (cases "(n, ys)" rule: merge_next.cases) (auto simp: segs_wf_def noadj_Cons)

lemma merge_next_used:
  "used_bytes (merge_next n ys) = used_bytes ys" "used_count (merge_next n ys) = used_count ys"
  by (cases "(n, ys)" rule: merge_next.cases; simp)+

lemma afree_at_props:
  assumes "segs_wf (xs @ (n, False) # ys)"
  shows "segs_wf (afree_at xs n ys) \<and> extent (afree_at xs n ys) = extent xs + n + 32 + extent ys \<and>
    used_bytes (afree_at xs n ys) = used_bytes xs + used_bytes ys \<and>
    used_count (afree_at xs n ys) = used_count xs + used_count ys"
proof -
  obtain k r where kr: "merge_next n ys = (k, True) # r" and ext: "k + extent r = n + extent ys"
    by (rule merge_next_cons)
  have wf: "segs_wf ((k, True) # r)"
    using merge_next_wf [of n ys] assms kr by (auto simp: segs_wf_def noadj_append)
  have used: "used_bytes r = used_bytes ys" "used_count r = used_count ys"
    using merge_next_used [of n ys] kr by simp_all
  show ?thesis
  proof (cases "xs \<noteq> [] \<and> snd (last xs)")
    case True
    then obtain zs j where "xs = zs @ [(j, True)]"
      by (metis append_butlast_last_id prod.collapse)
    then show ?thesis
      using assms kr ext wf used
      by (auto simp: afree_at_def segs_wf_def noadj_append noadj_Cons)
  next
    case False
    then show ?thesis
      using assms kr ext wf used
      by (auto simp: afree_at_def segs_wf_def noadj_append noadj_Cons)
  qed
qed

section \<open>Refinement\<close>

definition align16 :: "nat \<Rightarrow> nat" where
  "align16 n = (n + 15) div 16 * 16"

lemma align16_dvd: "16 dvd align16 n" and align16_ge: "n \<le> align16 n"
  by (simp_all add: align16_def)

lemma unat_align16:
  assumes "unat (sz :: u64) + 15 < 2 ^ 64"
  shows "unat ((sz + 15) AND NOT 15) = align16 (unat sz)"
proof -
  have "unat (sz + 15) = unat sz + 15"
    using assms by (simp add: unat_add_no_overflow)
  then show ?thesis
    unfolding align_16 align16_def by simp
qed

lemma heap_rep_start:
  assumes "heap_rep h bs" and "bs \<noteq> []"
  shows "16 \<le> unat (heap_start h)"
proof -
  have "heap_start h \<noteq> 0"
    using assms by (cases bs) (auto simp: heap_rep_def)
  then have "unat (heap_start h) \<noteq> 0"
    by (simp add: unat_eq_0)
  then show ?thesis
    using assms(1) by (auto simp: heap_rep_def dest: dvd_imp_le)
qed

lemma kmalloc_Found:
  assumes rep: "heap_rep h (xs @ (n, True) # ys)" and fit: "align16 (unat sz) \<le> n"
    and nofit: "nofit (align16 (unat sz)) xs" and sz: "sz \<noteq> 0" "unat sz + 15 < 2 ^ 64"
  shows "\<exists>h'. kmalloc sz h = Some (heap_start h + HDR + of_nat (extent xs), h') \<and>
      heap_rep h' (xs @ carve (align16 (unat sz)) n @ ys) \<and> heap_start h' = heap_start h"
proof -
  define asz where "asz = (sz + 15) AND NOT 15"
  define a where "a = align16 (unat sz)"
  have ua: "unat asz = a"
    unfolding asz_def a_def by (rule unat_align16 [OF sz(2)])
  obtain lv where sg: "seg (hmem h) 0 (heap_start h) (xs @ (n, True) # ys) lv 0"
    and bd: "unat (heap_start h) + extent (xs @ (n, True) # ys) < 2 ^ 64"
    and wf: "segs_wf (xs @ (n, True) # ys)"
    using rep by (auto simp: heap_rep_def)
  obtain v b where vb: "seg (hmem h) 0 (heap_start h) xs v b" "seg (hmem h) v b ((n, True) # ys) lv 0"
    and ub: "unat b = unat (heap_start h) + extent xs" "unat b + extent ((n, True) # ys) < 2 ^ 64"
    and b: "b = heap_start h + of_nat (extent xs)"
    by (rule seg_split [OF sg bd])
  have low: "16 \<le> unat b"
    using heap_rep_start [OF rep] ub(1) by simp
  have walk: "heap_walk (hmem h) asz (heap_start h) = Some (Found b)"
    by (rule heap_walk_Found [OF vb]) (use ua nofit fit a_def in simp_all)
  define mm where "mm = split_block (hmem h) b asz"
  define m' where "m' = mm(b := (mm b)\<lparr>hb_is_free := 0\<rparr>)"
  have taken: "(\<exists>lv'. seg m' v b (carve a n @ ys) lv' 0) \<and>
     (\<forall>c. unat c < unat b \<longrightarrow> m' c = hmem h c) \<and> unat (hb_size (m' b)) = used_bytes (carve a n)"
    using take_block_seg [OF vb(2) _ low ub(2), of asz] fit ua
    unfolding m'_def mm_def a_def carve_used by simp
  then obtain lv' where "seg m' v b (carve a n @ ys) lv' 0"
    by blast
  moreover have "seg m' 0 (heap_start h) xs v b"
    by (rule seg_frame [OF vb(1)]) (use taken ub bd in auto)
  ultimately have sg': "seg m' 0 (heap_start h) (xs @ carve a n @ ys) lv' 0"
    unfolding seg_append by blast
  define h' where "h' = h\<lparr>hmem := m', heap_used := heap_used h + hb_size (m' b),
                        heap_alloc_count := heap_alloc_count h + 1, heap_lock := False\<rparr>"
  have res: "kmalloc sz h = Some (b + HDR, h')"
    using rep sz(1) walk unfolding kmalloc_def h'_def m'_def mm_def asz_def
    by (simp add: heap_rep_def Let_def)
  have ext: "extent (xs @ carve a n @ ys) = extent (xs @ (n, True) # ys)"
    using fit by (simp add: carve_extent a_def)
  have le: "used_bytes (xs @ carve a n @ ys) < 2 ^ 64" "used_count (xs @ carve a n @ ys) < 2 ^ 64"
    using used_le_extent [of "xs @ carve a n @ ys"] ext bd by linarith+
  have "unat (heap_used h') = used_bytes (xs @ carve a n @ ys)"
    "unat (heap_alloc_count h') = used_count (xs @ carve a n @ ys)"
    using rep taken le by (simp_all add: h'_def heap_rep_def unat_add_no_overflow carve_used)
  moreover have "segs_wf (xs @ carve a n @ ys)"
    by (rule carve_wf [OF wf]) (use fit in \<open>simp_all add: a_def align16_dvd\<close>)
  ultimately have "heap_rep h' (xs @ carve a n @ ys)"
    using rep sg' ext by (auto simp: heap_rep_def h'_def)
  then show ?thesis
    using res b by (auto simp: h'_def a_def algebra_simps)
qed

lemma kmalloc_Exhausted:
  assumes "heap_rep h bs" and "nofit (align16 (unat sz)) bs" and "unat sz + 15 < 2 ^ 64"
  shows "kmalloc sz h = Some (0, h)"
proof -
  obtain lv where sg: "seg (hmem h) 0 (heap_start h) bs lv 0" and lock: "\<not> heap_lock h"
    using assms(1) by (auto simp: heap_rep_def)
  have "heap_walk (hmem h) ((sz + 15) AND NOT 15) (heap_start h) = Some Exhausted"
    by (rule heap_walk_Exhausted [OF sg]) (simp only: unat_align16 [OF assms(3)] assms(2))
  moreover have "h\<lparr>heap_lock := False\<rparr> = h"
    using lock by (cases h) simp
  ultimately show ?thesis
    using lock unfolding kmalloc_def by (simp add: Let_def)
qed

lemma kmalloc_refines_amalloc:
  assumes rep: "heap_rep h bs" and sz: "sz \<noteq> 0" "unat sz + 15 < 2 ^ 64"
  shows "case amalloc (align16 (unat sz)) bs of
      None \<Rightarrow> kmalloc sz h = Some (0, h)
    | Some (off, bs') \<Rightarrow> \<exists>h'. kmalloc sz h = Some (heap_start h + HDR + of_nat off, h') \<and>
        heap_rep h' bs' \<and> heap_start h' = heap_start h"
proof (cases "amalloc (align16 (unat sz)) bs")
  case None
  then have "nofit (align16 (unat sz)) bs"
    by (simp only: amalloc_None_iff)
  then show ?thesis
    using kmalloc_Exhausted [OF rep _ sz(2)] None by simp
next
  case (Some r)
  obtain off bs' where r: "r = (off, bs')"
    by (cases r)
  obtain xs n ys where "bs = xs @ (n, True) # ys" "nofit (align16 (unat sz)) xs"
      "align16 (unat sz) \<le> n" "off = extent xs" "bs' = xs @ carve (align16 (unat sz)) n @ ys"
    using amalloc_Some Some r by blast
  then show ?thesis
    using kmalloc_Found [of h xs n ys sz] rep sz Some r by simp
qed

lemma kfree_refines_afree_at:
  assumes rep: "heap_rep h (xs @ (n, False) # ys)"
  shows "\<exists>h'. kfree (heap_start h + HDR + of_nat (extent xs)) h = Some h' \<and>
     heap_rep h' (afree_at xs n ys) \<and> heap_start h' = heap_start h"
proof -
  obtain lv where sg: "seg (hmem h) 0 (heap_start h) (xs @ (n, False) # ys) lv 0"
    and bd: "unat (heap_start h) + extent (xs @ (n, False) # ys) < 2 ^ 64"
    and wf: "segs_wf (xs @ (n, False) # ys)"
    using rep by (auto simp: heap_rep_def)
  obtain v b where vb: "seg (hmem h) 0 (heap_start h) xs v b" "seg (hmem h) v b ((n, False) # ys) lv 0"
    and ub: "unat b = unat (heap_start h) + extent xs" "unat b + extent ((n, False) # ys) < 2 ^ 64"
    and b: "b = heap_start h + of_nat (extent xs)"
    by (rule seg_split [OF sg bd])
  have hb: "hdr_ok (hmem h b) v n False"
    using vb(2) by simp
  define m1 where "m1 = (hmem h)(b := (hmem h b)\<lparr>hb_is_free := 1\<rparr>)"
  have s1: "seg m1 v b ((n, True) # ys) lv 0"
    using seg_relabel [OF vb(2) ub(2), of 1] by (simp add: m1_def)
  have bd1: "unat b + extent ((n, True) # ys) < 2 ^ 64"
    using ub(2) by simp
  obtain k r where kr: "merge_next n ys = (k, True) # r" and ext: "k + extent r = n + extent ys"
    by (rule merge_next_cons)
  obtain lv2 where s2: "seg (coalesce_next m1 b) v b ((k, True) # r) lv2 0"
    and f2: "\<And>a. unat a < unat b \<Longrightarrow> coalesce_next m1 b a = m1 a"
    using coalesce_next_seg [OF s1 bd1] kr by metis
  have x2: "seg (coalesce_next m1 b) 0 (heap_start h) xs v b"
    by (rule seg_frame [OF vb(1)]) (use f2 ub bd in \<open>auto simp: m1_def\<close>)
  define m3 where "m3 = coalesce_prev (coalesce_next m1 b) b"
  have bd2: "unat b + extent ((k, True) # r) < 2 ^ 64"
    using ub(2) ext by simp
  obtain lv3 where s3: "seg m3 0 (heap_start h) (afree_at xs n ys) lv3 0"
    using coalesce_prev_seg [OF x2 s2 ub(1) bd2]
    unfolding m3_def afree_at_def kr list.sel fst_conv by blast
  define h' where "h' = h\<lparr>hmem := m3, heap_used := heap_used h - hb_size (m1 b),
                          heap_alloc_count := heap_alloc_count h - 1, heap_lock := False\<rparr>"
  have p0: "b + HDR \<noteq> 0"
  proof -
    have "unat (b + HDR) = unat b + 32"
      using ub(2) by (simp add: unat_add_no_overflow)
    then show ?thesis by auto
  qed
  have res: "kfree (b + HDR) h = Some h'"
    using p0 rep hb unfolding kfree_def h'_def m3_def m1_def
    by (simp add: heap_rep_def hdr_ok_def Let_def)
  have "unat (hb_size (m1 b)) = n"
    using hb by (simp add: m1_def hdr_ok_def)
  then have "unat (heap_used h') = used_bytes xs + used_bytes ys"
    "unat (heap_alloc_count h') = used_count xs + used_count ys"
    using rep by (simp_all add: h'_def heap_rep_def unat_sub_le word_le_nat_alt)
  then have "heap_rep h' (afree_at xs n ys)"
    using rep s3 afree_at_props [OF wf] by (auto simp: heap_rep_def h'_def)
  then show ?thesis
    using res b by (auto simp: h'_def algebra_simps)
qed

section \<open>Regions in use\<close>

fun live :: "nat \<Rightarrow> segs \<Rightarrow> (nat \<times> nat) set" where
  "live b [] = {}"
| "live b ((n, f) # bs) = (if f then {} else {(b, n)}) \<union> live (b + n + 32) bs"

lemma live_append: "live b (xs @ ys) = live b xs \<union> live (b + extent xs) ys"
  by (induction b xs rule: live.induct) (auto simp: algebra_simps)

lemma live_range: "(off, n) \<in> live b bs \<Longrightarrow> b \<le> off \<and> off + n + 32 \<le> b + extent bs"
  by (induction b bs rule: live.induct) (auto split: if_splits)

lemma live_split:
  "(off, n) \<in> live b bs \<Longrightarrow> \<exists>xs ys. bs = xs @ (n, False) # ys \<and> off = b + extent xs"
proof (induction b bs rule: live.induct)
  case (2 b k f bs)
  show ?case
  proof (cases "\<not> f \<and> (off, n) = (b, k)")
    case True
    then show ?thesis
      by (intro exI [of _ "[]"] exI [of _ bs]) auto
  next
    case False
    then obtain xs ys where "bs = xs @ (n, False) # ys" "off = b + k + 32 + extent xs"
      using 2 by (auto split: if_splits)
    then show ?thesis
      by (intro exI [of _ "(k, f) # xs"] exI [of _ ys]) auto
  qed
qed simp

lemma live_carve:
  assumes "sz \<le> n"
  shows "live b (carve sz n) = {(b, if sz + 48 \<le> n then sz else n)}"
  using assms by (auto simp: carve_def)

lemma live_merge_next: "live b (merge_next n ys) = live (b + n + 32) ys"
  by (cases "(n, ys)" rule: merge_next.cases) (auto simp: algebra_simps)

lemma live_afree_at: "live b (afree_at xs n ys) = live b xs \<union> live (b + extent xs + n + 32) ys"
proof -
  obtain k r where kr: "merge_next n ys = (k, True) # r"
    by (rule merge_next_cons)
  have lr: "live (c + k + 32) r = live (c + n + 32) ys" for c
    using live_merge_next [of c n ys] kr by simp
  show ?thesis
  proof (cases "xs \<noteq> [] \<and> snd (last xs)")
    case True
    then obtain zs j where "xs = zs @ [(j, True)]"
      by (metis append_butlast_last_id prod.collapse)
    then show ?thesis
      using lr [of "b + extent xs"] kr
      by (simp add: afree_at_def live_append algebra_simps)
  next
    case False
    then show ?thesis
      using lr [of "b + extent xs"] kr
      by (auto simp: afree_at_def live_append)
  qed
qed

lemma live_release:
  "live 0 (afree_at xs n ys) = live 0 (xs @ (n, False) # ys) - {(extent xs, n)}"
proof -
  have "(extent xs, n) \<notin> live 0 xs" "(extent xs, n) \<notin> live (extent xs + n + 32) ys"
    using live_range [of "extent xs" n 0 xs] live_range [of "extent xs" n "extent xs + n + 32" ys]
    by auto
  then show ?thesis
    by (auto simp: live_afree_at live_append)
qed

lemma live_take:
  assumes "bs = xs @ (n, True) # ys" and "sz \<le> n" and "k = (if sz + 48 \<le> n then sz else n)"
  shows "live 0 (xs @ carve sz n @ ys) = insert (extent xs, k) (live 0 bs)"
    and "(off, j) \<in> live 0 bs \<Longrightarrow> off + j + 32 \<le> extent xs \<or> extent xs + k + 32 \<le> off"
  using assms live_range [of off j 0 xs] live_range [of off j "extent xs + n + 32" ys]
  by (auto simp: live_append live_carve carve_extent algebra_simps split: if_splits)

definition kheap_regions :: "kheap \<Rightarrow> segs \<Rightarrow> (u64 \<times> nat) set" where
  "kheap_regions h bs = (\<lambda>(off, n). (heap_start h + HDR + of_nat off, n)) ` live 0 bs"

lemma region_addr:
  assumes "heap_rep h bs" and "off + n + 32 \<le> extent bs"
  shows "unat (heap_start h + HDR + of_nat off) = unat (heap_start h) + off + 32"
  using assms by (intro unat_step) (simp add: heap_rep_def)

end
