(* ===== verification/KHeapSafety.thy ===== *)
theory KHeapSafety
  imports KHeapRefine
begin

text \<open>
  What clients of the kernel heap rely on, from the refinement of \<open>KHeapRefine\<close> and the client
  side of the contract in \<open>RegionAllocator\<close>: allocation is first fit, a release undoes an
  allocation exactly, whatever a disciplined client does its regions stay disjoint, aligned and
  inside the heap, and giving everything back leaves one free block. Also the set-up of the
  heap by \<^verbatim>\<open>heap_init\<close> on the frames of the page allocator.
\<close>

section \<open>The heap as a region allocator\<close>

definition heap_at :: "u64 \<Rightarrow> nat \<Rightarrow> kheap \<Rightarrow> segs \<Rightarrow> bool" where
  "heap_at S T h bs \<longleftrightarrow> heap_rep h bs \<and> heap_start h = S \<and> extent bs = T"

lemma heap_at_malloc:
  assumes at: "heap_at S T h bs" and sz: "unat sz + 15 < 2 ^ 64"
  shows "\<exists>p h' bs'. kmalloc sz h = Some (p, h') \<and> heap_at S T h' bs' \<and>
     (p = 0 \<and> kheap_regions h' bs' = kheap_regions h bs \<or>
      p \<noteq> 0 \<and> (\<exists>n. unat sz \<le> n \<and> kheap_regions h' bs' = insert (p, n) (kheap_regions h bs) \<and>
         (\<forall>x \<in> kheap_regions h bs. apart 32 (p, n) x)))"
proof (cases "sz = 0 \<or> amalloc (align16 (unat sz)) bs = None")
  case True
  then have "kmalloc sz h = Some (0, h)"
    using kmalloc_refines_amalloc [of h bs sz] at sz
    by (cases "sz = 0") (auto simp: kmalloc_def heap_at_def)
  then show ?thesis
    using at by blast
next
  case False
  have rep: "heap_rep h bs" and S: "heap_start h = S" and T: "extent bs = T"
    using at by (simp_all add: heap_at_def)
  define a where "a = align16 (unat sz)"
  obtain off bs' where "amalloc a bs = Some (off, bs')"
    using False by (auto simp: a_def)
  then obtain xs n ys where d: "bs = xs @ (n, True) # ys" "nofit a xs" "a \<le> n"
      "off = extent xs" "bs' = xs @ carve a n @ ys"
    using amalloc_Some by blast
  obtain h' where h': "kmalloc sz h = Some (S + HDR + of_nat off, h')" "heap_rep h' bs'" "heap_start h' = S"
    using kmalloc_Found [of h xs n ys sz] rep S sz d False unfolding a_def by auto
  define k where "k = (if a + 48 \<le> n then a else n)"
  have ext: "extent bs' = T"
    using T d by (simp add: carve_extent)
  note tk = live_take [OF d(1,3) k_def]
  have addr: "unat (S + HDR + of_nat off) = unat S + off + 32"
    using region_addr [OF rep, of off n] S d by simp
  have "kheap_regions h' bs' = insert (S + HDR + of_nat off, k) (kheap_regions h bs)"
    unfolding kheap_regions_def h'(3) S d(5) tk(1) by (simp add: d(4))
  moreover have "\<forall>x \<in> kheap_regions h bs. apart 32 (S + HDR + of_nat off, k) x"
  proof
    fix x assume "x \<in> kheap_regions h bs"
    then obtain o' j where x: "x = (S + HDR + of_nat o', j)" and lv: "(o', j) \<in> live 0 bs"
      unfolding kheap_regions_def S by auto
    have "unat (S + HDR + of_nat o') = unat S + o' + 32"
      using region_addr [OF rep, of o' j] live_range [OF lv] S by simp
    then show "apart 32 (S + HDR + of_nat off, k) x"
      using tk(2) [OF lv] addr d(4) unfolding x apart_def by auto
  qed
  moreover have "unat sz \<le> k"
    using d(3) align16_ge [of "unat sz"] by (simp add: k_def a_def)
  moreover have "S + HDR + of_nat off \<noteq> 0"
    using addr by (metis add_is_0 numeral_neq_zero unsigned_0)
  ultimately show ?thesis
    using h' ext unfolding heap_at_def by blast
qed

lemma region_inj:
  assumes rep: "heap_rep h bs"
  shows "inj_on (\<lambda>(off, n). (heap_start h + HDR + of_nat off, n)) (live 0 bs)"
proof (rule inj_onI)
  fix x y
  assume l: "x \<in> live 0 bs" "y \<in> live 0 bs"
    and e: "(case x of (off, n) \<Rightarrow> (heap_start h + HDR + of_nat off, n)) =
            (case y of (off, n) \<Rightarrow> (heap_start h + HDR + of_nat off, n))"
  obtain o1 o2 n where xy: "x = (o1, n)" "y = (o2, n)"
    and e': "heap_start h + HDR + of_nat o1 = heap_start h + HDR + of_nat o2"
    using e by (cases x; cases y) auto
  have r: "o1 + n + 32 \<le> extent bs" "o2 + n + 32 \<le> extent bs"
    using live_range [of o1 n 0 bs] live_range [of o2 n 0 bs] l xy by simp_all
  have "unat (heap_start h) + o1 + 32 = unat (heap_start h) + o2 + 32"
    using region_addr [OF rep r(1)] region_addr [OF rep r(2)] unfolding e' by linarith
  then show "x = y"
    using xy by simp
qed

lemma heap_at_free:
  assumes at: "heap_at S T h bs" and mem: "(p, n) \<in> kheap_regions h bs"
  shows "\<exists>h' bs'. kfree p h = Some h' \<and> heap_at S T h' bs' \<and>
     kheap_regions h' bs' = kheap_regions h bs - {(p, n)}"
proof -
  have rep: "heap_rep h bs" and S: "heap_start h = S" and T: "extent bs = T"
    using at by (simp_all add: heap_at_def)
  obtain off where p: "p = S + HDR + of_nat off" and lv: "(off, n) \<in> live 0 bs"
    using mem by (auto simp: kheap_regions_def S)
  obtain xs ys where d: "bs = xs @ (n, False) # ys" "off = extent xs"
    using live_split [OF lv] by auto
  obtain h' where h': "kfree p h = Some h'" "heap_rep h' (afree_at xs n ys)" "heap_start h' = S"
    using kfree_refines_afree_at [of h xs n ys] rep S d p by auto
  have "extent (afree_at xs n ys) = T"
    using afree_at_props [of xs n ys] rep d T by (simp add: heap_rep_def)
  moreover have "kheap_regions h' (afree_at xs n ys) = kheap_regions h bs - {(p, n)}"
  proof -
    have inj: "inj_on (\<lambda>(off, n). (S + HDR + of_nat off, n)) (live 0 bs)"
      using region_inj [OF rep] S by simp
    show ?thesis
      unfolding kheap_regions_def h'(3) S live_release d(1) [symmetric] d(2) [symmetric]
      using inj_on_image_set_diff [OF inj, of "live 0 bs" "{(off, n)}"] lv p by auto
  qed
  ultimately show ?thesis
    using h' unfolding heap_at_def by blast
qed

interpretation kheap: region_allocator kmalloc kfree "heap_at S T" kheap_regions 32
  for S T
  by unfold_locales (simp, rule heap_at_malloc, assumption+, rule heap_at_free, assumption+)

section \<open>Facts on regions\<close>

lemma live_dvd:
  "(off, n) \<in> live b bs \<Longrightarrow> \<forall>(k, f) \<in> set bs. 16 dvd k \<Longrightarrow> 16 dvd b \<Longrightarrow> 16 dvd off"
  by (induction b bs rule: live.induct) (auto split: if_splits)

lemma finite_live: "finite (live b bs)"
  by (induction b bs rule: live.induct) auto

lemma card_live: "card (live b bs) = used_count bs"
proof (induction b bs rule: live.induct)
  case (2 b n f bs)
  have "(b, n) \<notin> live (b + n + 32) bs"
    using live_range [of b n "b + n + 32" bs] by auto
  then show ?case
    using 2 finite_live by simp
qed (simp add: used_count_def)

lemma regions_aligned:
  assumes "heap_rep h bs" and "(p, n) \<in> kheap_regions h bs"
  shows "16 dvd unat p" and "unat (heap_start h) + 32 \<le> unat p"
    and "unat p + n \<le> unat (heap_start h) + extent bs"
proof -
  obtain off where p: "p = heap_start h + HDR + of_nat off" and lv: "(off, n) \<in> live 0 bs"
    using assms(2) by (auto simp: kheap_regions_def)
  have r: "off + n + 32 \<le> extent bs"
    using live_range [OF lv] by simp
  have up: "unat p = unat (heap_start h) + off + 32"
    unfolding p by (rule region_addr [OF assms(1) r])
  have "16 dvd off"
    by (rule live_dvd [OF lv]) (use assms(1) in \<open>simp_all add: heap_rep_def segs_wf_def\<close>)
  then show "16 dvd unat p"
    unfolding up using assms(1) by (simp add: heap_rep_def)
  show "unat (heap_start h) + 32 \<le> unat p" "unat p + n \<le> unat (heap_start h) + extent bs"
    unfolding up using r by simp_all
qed

lemma all_free_single:
  assumes "live b bs = {}" and "noadj bs" and "bs \<noteq> []"
  shows "bs = [(extent bs - 32, True)]"
proof -
  obtain n f r where bs: "bs = (n, f) # r"
    using assms(3) by (cases bs) auto
  then have f: "f" and l: "live (b + n + 32) r = {}"
    using assms(1) by (auto split: if_splits)
  have "r = []"
  proof (cases r)
    case (Cons y t)
    then show ?thesis
      using l f bs assms(2) by (cases y) (auto split: if_splits)
  qed
  then show ?thesis
    using bs f by simp
qed

section \<open>Initialisation\<close>

lemma fold_mark_used:
  "pmm_inv s \<Longrightarrow>
     pmm_inv (fold (\<lambda>i. pmm_mark_page_used (f i)) xs s) \<and>
     free_pages (fold (\<lambda>i. pmm_mark_page_used (f i)) xs s) = free_pages s - (\<lambda>i. f i div PAGE_SIZE) ` set xs"
proof (induction xs arbitrary: s)
  case (Cons x xs)
  have "pmm_inv (pmm_mark_page_used (f x) s) \<and>
        free_pages (pmm_mark_page_used (f x) s) = free_pages s - {f x div PAGE_SIZE}"
    using Cons.prems by (auto simp: pmm_mark_page_used_eq pmm_inv_def pmm_occupy_wf pmm_occupy_sets)
  then show ?case
    using Cons.IH by auto
qed simp

lemma unat_heap_base:
  assumes "unat kend < 2 ^ 47" and "unat tp < 2 ^ 40"
  shows "unat (heap_base kend tp) =
     (unat kend + 4095) div 4096 * 4096 + ((unat tp + 7) div 8 + 4095) div 4096 * 4096"
proof -
  have d: "unat ((tp + 7) div 8) = (unat tp + 7) div 8"
    using assms(2) by (simp add: unat_div unat_add_no_overflow)
  have 1: "unat (page_align_up kend) = (unat kend + 4095) div 4096 * 4096"
    using assms(1) by (intro unat_page_align_up) simp
  have 2: "unat (page_align_up ((tp + 7) div 8)) = ((unat tp + 7) div 8 + 4095) div 4096 * 4096"
    using assms(2) d unat_page_align_up [of "(tp + 7) div 8"] by simp
  have le: "(unat kend + 4095) div 4096 * 4096 \<le> unat kend + 4095"
    "((unat tp + 7) div 8 + 4095) div 4096 * 4096 \<le> (unat tp + 7) div 8 + 4095"
    "(unat tp + 7) div 8 \<le> unat tp + 7"
    by (rule div_times_less_eq_dividend, rule div_times_less_eq_dividend, rule div_le_dividend)
  have sum: "x + y < 2 ^ LENGTH(64)"
    if "x \<le> unat kend + 4095" "y \<le> z + 4095" "z \<le> unat tp + 7" for x y z
    using that assms by simp
  have "unat (page_align_up kend) + unat (page_align_up ((tp + 7) div 8)) < 2 ^ LENGTH(64)"
    unfolding 1 2 by (rule sum [OF le])
  then show ?thesis
    unfolding heap_base_def by (simp only: unat_add_no_overflow 1 2)
qed

lemma heap_base_bounds:
  assumes "unat kend < 2 ^ 47" and "unat tp < 2 ^ 40"
  shows "4096 dvd unat (heap_base kend tp)" and "unat kend \<le> unat (heap_base kend tp)"
    and "unat (heap_base kend tp) < 2 ^ 48"
proof -
  note ub = unat_heap_base [OF assms]
  show "4096 dvd unat (heap_base kend tp)"
    unfolding ub by simp
  have "x \<le> (x + 4095) div 4096 * 4096" for x :: nat
    using div_mult_mod_eq [of "x + 4095" 4096] mod_less_divisor [of 4096 "x + 4095"] by linarith
  then show "unat kend \<le> unat (heap_base kend tp)"
    unfolding ub by (rule trans_le_add1)
  have le: "x div 4096 * 4096 + y div 4096 * 4096 \<le> x + y" for x y :: nat
    by (intro add_mono div_times_less_eq_dividend)
  have "(unat tp + 7) div 8 < 2 ^ 40"
    using assms(2) by simp
  then have "unat kend + 4095 + ((unat tp + 7) div 8 + 4095) < 2 ^ 48"
    using assms(1) by simp
  then show "unat (heap_base kend tp) < 2 ^ 48"
    unfolding ub by (rule le_less_trans [OF le])
qed

lemma heap_frame_div:
  assumes "4096 dvd unat b" and "unat b + i * 4096 < 2 ^ 64"
  shows "unat ((b + of_nat i * PAGE_SIZE) div PAGE_SIZE) = unat b div 4096 + i"
proof -
  have i: "i < 2 ^ 64"
    using assms(2) by linarith
  have "unat (of_nat i :: u64) = i"
    using i by (simp add: unat_of_nat)
  then have m: "unat (of_nat i * PAGE_SIZE) = i * 4096"
    using assms(2) by (simp add: unat_word_ariths)
  have "unat (b + of_nat i * PAGE_SIZE) = unat b + i * 4096"
    using unat_add_no_overflow [of b "of_nat i * PAGE_SIZE"] assms(2) m by simp
  then show ?thesis
    using assms(1) by (simp add: unat_div)
qed

lemma heap_frames:
  assumes "4096 dvd unat b" and "unat b + 2048 * 4096 < 2 ^ 64"
  shows "(\<lambda>i. (b + of_nat i * PAGE_SIZE) div PAGE_SIZE) ` set [0..<HEAP_INITIAL_PAGES] =
    {f. unat b \<le> unat f * 4096 \<and> unat f * 4096 < unat b + 2048 * 4096}"
proof -
  obtain q where q: "unat b = q * 4096"
    using assms(1) by (metis dvd_div_mult_self)
  have u: "unat ((b + of_nat i * PAGE_SIZE) div PAGE_SIZE) = q + i" if "i < 2048" for i
    using heap_frame_div [OF assms(1), of i] assms(2) that q by simp
  show ?thesis
  proof (intro set_eqI iffI)
    fix f assume "f \<in> (\<lambda>i. (b + of_nat i * PAGE_SIZE) div PAGE_SIZE) ` set [0..<HEAP_INITIAL_PAGES]"
    then obtain i where "i < 2048" "f = (b + of_nat i * PAGE_SIZE) div PAGE_SIZE"
      by (auto simp: HEAP_INITIAL_PAGES_def)
    then show "f \<in> {f. unat b \<le> unat f * 4096 \<and> unat f * 4096 < unat b + 2048 * 4096}"
      using u [of i] q by simp
  next
    fix f :: u64 assume f: "f \<in> {f. unat b \<le> unat f * 4096 \<and> unat f * 4096 < unat b + 2048 * 4096}"
    define i where "i = unat f - q"
    have i: "i < 2048" "unat f = q + i"
      using f q by (auto simp: i_def)
    then have "f = (b + of_nat i * PAGE_SIZE) div PAGE_SIZE"
      using u [OF i(1)] by (simp only: word_unat_eq_iff)
    then show "f \<in> (\<lambda>i. (b + of_nat i * PAGE_SIZE) div PAGE_SIZE) ` set [0..<HEAP_INITIAL_PAGES]"
      using i(1) by (intro image_eqI [of _ _ i]) (simp_all add: HEAP_INITIAL_PAGES_def)
  qed
qed

section \<open>Properties\<close>

text \<open>A heap of 4096 bytes at address 0x400000, as the examples below use it.\<close>

definition sample_heap :: kheap where
  "sample_heap = \<lparr>heap_lock = False,
     hmem = (\<lambda>_. \<lparr>hb_magic = 0, hb_is_free = 0, hb_size = 0, hb_next = 0, hb_prev = 0\<rparr>)
       (0x400000 := \<lparr>hb_magic = HEAP_MAGIC, hb_is_free = 1, hb_size = 4064, hb_next = 0, hb_prev = 0\<rparr>),
     heap_start = 0x400000, heap_total_size = 4096, heap_used = 0, heap_alloc_count = 0\<rparr>"

lemma sample_heap_rep: "heap_rep sample_heap [(4064, True)]"
  by (simp add: heap_rep_def sample_heap_def hdr_ok_def segs_wf_def)

text \<open>
  C2. For a size that is not zero and does not overflow when it is rounded up to 16 bytes,
  \<open>kmalloc\<close> refines first-fit allocation over the segment list: when no free segment holds
  the request rounded up to 16 bytes it returns \<^verbatim>\<open>NULL\<close> and leaves the heap as it was;
  otherwise it returns the payload address of the first segment that fits, split when the
  remainder can hold another header and 16 bytes, and the heap represents the updated list
  (back links, tiling, coalescing invariant and usage counters included).
\<close>
theorem kmalloc_first_fit:
  assumes "heap_rep h bs" and "sz \<noteq> 0" and "unat sz + 15 < 2 ^ 64"
  shows "case amalloc (align16 (unat sz)) bs of
      None \<Rightarrow> kmalloc sz h = Some (0, h)
    | Some (off, bs') \<Rightarrow> \<exists>h'. kmalloc sz h = Some (heap_start h + HDR + of_nat off, h') \<and>
        heap_rep h' bs' \<and> heap_start h' = heap_start h"
  by (rule kmalloc_refines_amalloc [OF assms])

theorem kmalloc_first_fit_witness:
  "\<exists>h'. kmalloc 100 sample_heap = Some (0x400020, h') \<and> heap_rep h' [(112, False), (3920, True)]"
  using kmalloc_first_fit [OF sample_heap_rep, of 100]
  by (auto simp: align16_def sample_heap_def)

text \<open>
  C3. \<open>kfree\<close> of the block \<open>kmalloc\<close> has just returned restores the heap: the call returns, and
  the segment list it represents is the one from before the allocation, so splitting and
  coalescing are inverse to each other.
\<close>
theorem kmalloc_kfree_roundtrip:
  assumes "heap_rep h bs" and "sz \<noteq> 0" and "unat sz + 15 < 2 ^ 64"
    and "kmalloc sz h = Some (p, h1)" and "p \<noteq> 0"
  shows "\<exists>h2. kfree p h1 = Some h2 \<and> heap_rep h2 bs \<and> heap_used h2 = heap_used h"
proof -
  define a where "a = align16 (unat sz)"
  have "amalloc a bs \<noteq> None"
    using kmalloc_refines_amalloc [OF assms(1-3)] assms(4,5)
    by (auto simp: a_def split: option.splits)
  then obtain off bs' where am: "amalloc a bs = Some (off, bs')"
    by auto
  then obtain xs n ys where d: "bs = xs @ (n, True) # ys" "nofit a xs" "a \<le> n"
      "off = extent xs" "bs' = xs @ carve a n @ ys"
    using amalloc_Some by blast
  have h1: "p = heap_start h1 + HDR + of_nat (extent xs)" "heap_rep h1 bs'"
    using kmalloc_refines_amalloc [OF assms(1-3)] am assms(4) d(4)
    by (auto simp: a_def)
  define k where "k = (if a + 48 \<le> n then a else n)"
  define zs where "zs = (if a + 48 \<le> n then (n - a - 32, True) # ys else ys)"
  have bs': "bs' = xs @ (k, False) # zs"
    by (simp add: d(5) carve_def k_def zs_def)
  have na: "noadj bs"
    using assms(1) by (simp add: heap_rep_def segs_wf_def)
  have mn: "merge_next n ys = (n, True) # ys"
    using na d(1) by (cases "(n, ys)" rule: merge_next.cases) (auto simp: noadj_append)
  have "merge_next k zs = (n, True) # ys"
    using d(3) mn by (simp add: k_def zs_def)
  then have undo: "afree_at xs k zs = bs"
    using na d(1) by (auto simp: afree_at_def noadj_append noadj_Cons)
  obtain h2 where h2: "kfree p h1 = Some h2" "heap_rep h2 bs"
    using kfree_refines_afree_at [of h1 xs k zs] h1 bs' undo by auto
  moreover have "heap_used h2 = heap_used h"
    using h2(2) assms(1) by (simp add: heap_rep_def word_unat_eq_iff)
  ultimately show ?thesis
    by blast
qed

theorem kmalloc_kfree_roundtrip_witness:
  "\<exists>h1 h2. kmalloc 100 sample_heap = Some (0x400020, h1) \<and> kfree 0x400020 h1 = Some h2 \<and>
     heap_rep h2 [(4064, True)]"
proof -
  obtain h1 where h1: "kmalloc 100 sample_heap = Some (0x400020, h1)"
    using kmalloc_refines_amalloc [OF sample_heap_rep, of 100]
    by (auto simp: align16_def sample_heap_def)
  then show ?thesis
    using kmalloc_kfree_roundtrip [OF sample_heap_rep _ _ h1] by auto
qed

text \<open>
  C1. Safety of the heap for every client. Whatever sequence of allocations and releases of
  its own blocks a client runs on a fresh heap of one free block, with sizes that do not
  overflow when they are rounded up to 16 bytes, every call returns, the
  blocks it owns are pairwise disjoint, 16-byte aligned and inside the heap, the allocation
  counter equals their number, and once it has given back every block the heap is again one
  free block of the original size: nothing leaks and nothing stays fragmented.
\<close>
theorem kheap_client_safe:
  assumes "heap_rep h [(n, True)]" and "ops_ok ops"
  shows "\<exists>h' own bs. alloc_run kmalloc kfree ops (h, []) = Some (h', own) \<and> heap_rep h' bs \<and>
     distinct (map fst own) \<and>
     (\<forall>(p, sz) \<in> set own. 16 dvd unat p \<and> unat (heap_start h) + 32 \<le> unat p \<and>
        unat p + unat sz \<le> unat (heap_start h) + n + 32) \<and>
     (\<forall>(p, sz) \<in> set own. \<forall>(q, sz') \<in> set own. p \<noteq> q \<longrightarrow>
        unat p + unat sz \<le> unat q \<or> unat q + unat sz' \<le> unat p) \<and>
     unat (heap_alloc_count h') = length own \<and>
     (own = [] \<longrightarrow> bs = [(n, True)])"
proof -
  have "kheap.owns (heap_start h) (n + 32) h [(n, True)] [] (\<lambda>_. 0)"
    using assms(1) by (simp add: kheap.owns_def heap_at_def kheap_regions_def)
  then obtain h' bs own f where run: "alloc_run kmalloc kfree ops (h, []) = Some (h', own)"
    and owns: "kheap.owns (heap_start h) (n + 32) h' bs own f"
    using kheap.run_owns [OF _ assms(2)] by blast
  have rep: "heap_rep h' bs" and st: "heap_start h' = heap_start h" and ext: "extent bs = n + 32"
    and dist: "distinct (map fst own)"
    and rg: "kheap_regions h' bs = (\<lambda>p. (p, f p)) ` fst ` set own"
    and szs: "\<forall>(p, sz) \<in> set own. p \<noteq> 0 \<and> unat sz \<le> f p"
    and ap: "\<forall>x \<in> kheap_regions h' bs. \<forall>y \<in> kheap_regions h' bs. x \<noteq> y \<longrightarrow> apart 32 x y"
    using owns unfolding kheap.owns_def heap_at_def by blast+
  have mem: "(p, f p) \<in> kheap_regions h' bs" "unat sz \<le> f p" if "(p, sz) \<in> set own" for p sz
    using that szs rg by force+
  have "card (kheap_regions h' bs) = length own"
    unfolding rg using dist distinct_card [of "map fst own"]
    by (subst card_image) (auto simp: inj_on_def)
  then have cnt: "used_count bs = length own"
    using card_image [OF region_inj [OF rep]] card_live [of 0 bs] by (simp add: kheap_regions_def)
  have "bs = [(n, True)]" if "own = []"
  proof -
    have "live 0 bs = {}"
      using that rg by (auto simp: kheap_regions_def)
    moreover have "bs \<noteq> []"
      using ext by auto
    ultimately show ?thesis
      using all_free_single [of 0 bs] ext rep by (auto simp: heap_rep_def segs_wf_def)
  qed
  moreover have "\<forall>(p, sz) \<in> set own. 16 dvd unat p \<and> unat (heap_start h) + 32 \<le> unat p \<and>
        unat p + unat sz \<le> unat (heap_start h) + n + 32"
  proof clarify
    fix p sz assume own: "(p, sz) \<in> set own"
    show "16 dvd unat p \<and> unat (heap_start h) + 32 \<le> unat p \<and>
        unat p + unat sz \<le> unat (heap_start h) + n + 32"
      using regions_aligned [OF rep mem(1) [OF own]] mem(2) [OF own] st ext by simp
  qed
  moreover have "\<forall>(p, sz) \<in> set own. \<forall>(q, sz') \<in> set own. p \<noteq> q \<longrightarrow>
        unat p + unat sz \<le> unat q \<or> unat q + unat sz' \<le> unat p"
  proof clarify
    fix p sz q sz'
    assume o: "(p, sz) \<in> set own" "(q, sz') \<in> set own" and "p \<noteq> q"
      and "\<not> unat q + unat sz' \<le> unat p"
    then have "apart 32 (p, f p) (q, f q)"
      using ap mem(1) [OF o(1)] mem(1) [OF o(2)] by blast
    then show "unat p + unat sz \<le> unat q"
      using mem(2) [OF o(1)] mem(2) [OF o(2)] \<open>\<not> unat q + unat sz' \<le> unat p\<close>
      by (auto simp: apart_def)
  qed
  ultimately show ?thesis
    using run rep dist cnt by (auto simp: heap_rep_def)
qed

theorem kheap_client_safe_witness:
  "\<exists>h' own. alloc_run kmalloc kfree [Malloc 100, Malloc 8, Free 1, Malloc 5000, Free 0] (sample_heap, []) =
     Some (h', own) \<and> unat (heap_alloc_count h') = length own"
  using kheap_client_safe [OF sample_heap_rep, of "[Malloc 100, Malloc 8, Free 1, Malloc 5000, Free 0]"]
  by (auto simp: ops_ok_def)

text \<open>
  C4. \<open>heap_init\<close> sets up a heap that satisfies the representation invariant with a single free
  block of 8 MB less one header, and takes exactly the 2048 frames under it out of the free
  frames of the page allocator, so no frame of the heap is ever handed out as a page.
\<close>
theorem heap_init_establishes:
  assumes "pmm_inv p" and "\<not> heap_lock h" and "0 < kend" and "unat kend < 2 ^ 47"
    and "unat (pmm_get_total_pages p) < 2 ^ 40"
  shows "\<exists>p' h'. heap_init kend (p, h) = (p', h') \<and> heap_rep h' [(2048 * 4096 - 32, True)] \<and>
     pmm_inv p' \<and>
     free_pages p' = free_pages p -
       {f. unat (heap_start h') \<le> unat f * 4096 \<and> unat f * 4096 < unat (heap_start h') + 2048 * 4096}"
proof -
  define b where "b = heap_base kend (pmm_get_total_pages p)"
  note bounds = heap_base_bounds [OF assms(4,5), folded b_def]
  have b0: "b \<noteq> 0"
    using bounds(2) assms(3) by (auto simp: word_less_nat_alt)
  define p' where "p' = fold (\<lambda>i. pmm_mark_page_used (b + of_nat i * PAGE_SIZE)) [0..<HEAP_INITIAL_PAGES] p"
  define h' where "h' = snd (heap_init kend (p, h))"
  have init: "heap_init kend (p, h) = (p', h')" and start: "heap_start h' = b"
    by (simp_all add: heap_init_def h'_def p'_def b_def Let_def)
  have "heap_rep h' [(2048 * 4096 - 32, True)]"
    using b0 assms(2) bounds dvd_trans [of 16 4096 "unat b"]
    by (simp add: h'_def heap_init_def heap_rep_def Let_def hdr_ok_def segs_wf_def HEAP_INITIAL_PAGES_def
        b_def [symmetric])
  moreover have "(\<lambda>i. (b + of_nat i * PAGE_SIZE) div PAGE_SIZE) ` set [0..<HEAP_INITIAL_PAGES] =
       {f. unat b \<le> unat f * 4096 \<and> unat f * 4096 < unat b + 2048 * 4096}"
    by (rule heap_frames [OF bounds(1)]) (use bounds(3) in simp)
  ultimately show ?thesis
    using init start fold_mark_used [OF assms(1), of "\<lambda>i. b + of_nat i * PAGE_SIZE" "[0..<HEAP_INITIAL_PAGES]"]
    by (auto simp: p'_def)
qed

theorem heap_init_establishes_witness:
  "\<exists>p' h'. heap_init 0x110000 (sample_pmm, sample_heap) = (p', h') \<and>
     heap_rep h' [(2048 * 4096 - 32, True)] \<and> pmm_inv p'"
proof -
  have "\<not> heap_lock sample_heap" "(0 :: u64) < 0x110000" "unat (0x110000 :: u64) < 2 ^ 47"
      "unat (pmm_get_total_pages sample_pmm) < 2 ^ 40"
    by (simp_all add: sample_heap_def pmm_get_total_pages_def sample_pmm_props(2))
  from heap_init_establishes [OF sample_pmm_props(1) this] show ?thesis
    by blast
qed

text \<open>
  C8. On a corrupted heap, where the walk meets a header with a wrong magic number, \<open>kmalloc\<close>
  returns \<^verbatim>\<open>NULL\<close> but leaves the heap lock taken: every later allocation of a non-zero size
  and every later release of a non-null pointer waits for the lock forever.
\<close>
theorem kmalloc_corrupt_lock:
  assumes "sz \<noteq> 0" and "\<not> heap_lock h"
    and "heap_walk (hmem h) ((sz + 15) AND NOT 15) (heap_start h) = Some (Corrupt b)"
  shows "\<exists>h'. kmalloc sz h = Some (0, h') \<and>
    (\<forall>sz'. sz' \<noteq> 0 \<longrightarrow> kmalloc sz' h' = None) \<and> (\<forall>p. p \<noteq> 0 \<longrightarrow> kfree p h' = None)"
  using assms by (simp add: kmalloc_def kfree_def Let_def)

theorem kmalloc_corrupt_lock_witness:
  "\<exists>h'. kmalloc 100 (sample_heap\<lparr>heap_start := 0x500000\<rparr>) = Some (0, h') \<and> kmalloc 1 h' = None"
  using kmalloc_corrupt_lock [of 100 "sample_heap\<lparr>heap_start := 0x500000\<rparr>" "0x500000"]
    heap_walk.simps [of "hmem sample_heap" "(100 + 15) AND NOT 15" "0x500000"]
  by (auto simp: sample_heap_def HEAP_MAGIC_def)

end
