(* ===== verification/KString.thy ===== *)
theory KString
  imports PlantPrelude
begin

text \<open>
  The kernel's string library \<^verbatim>\<open>lib/string.c\<close> over a flat byte memory. Loops with a count are
  recursive on it; loops that run to the terminator are partial functions, since memory
  need not hold one. The lemmas show \<open>memmove\<close> correct for every overlap, \<open>strcmp\<close> to
  be the lexicographic order of strings, and give the exact set of bytes \<open>strncpy\<close> writes.
  The other components hold \<^verbatim>\<open>char\<close> arrays as the string they contain; the last section
  justifies that for the copy idiom they use.
\<close>

type_synonym bytes = "u64 \<Rightarrow> u8"

section \<open>Block operations\<close>

fun memcpy_loop :: "nat \<Rightarrow> u64 \<Rightarrow> u64 \<Rightarrow> bytes \<Rightarrow> bytes" where
  "memcpy_loop 0 d s m = m"
| "memcpy_loop (Suc n) d s m = memcpy_loop n (d + 1) (s + 1) (m(d := m s))"

definition memcpy :: "u64 \<Rightarrow> u64 \<Rightarrow> u64 \<Rightarrow> bytes \<Rightarrow> bytes" where
  "memcpy dest src n m = memcpy_loop (unat n) dest src m"

fun memset_loop :: "nat \<Rightarrow> u64 \<Rightarrow> u8 \<Rightarrow> bytes \<Rightarrow> bytes" where
  "memset_loop 0 p c m = m"
| "memset_loop (Suc n) p c m = memset_loop n (p + 1) c (m(p := c))"

definition memset :: "u64 \<Rightarrow> int \<Rightarrow> u64 \<Rightarrow> bytes \<Rightarrow> bytes" where
  "memset s c n m = memset_loop (unat n) s (word_of_int c) m"

fun memmove_back :: "nat \<Rightarrow> u64 \<Rightarrow> u64 \<Rightarrow> bytes \<Rightarrow> bytes" where
  "memmove_back 0 d s m = m"
| "memmove_back (Suc n) d s m = memmove_back n (d - 1) (s - 1) (m(d - 1 := m (s - 1)))"

definition memmove :: "u64 \<Rightarrow> u64 \<Rightarrow> u64 \<Rightarrow> bytes \<Rightarrow> bytes" where
  "memmove dest src n m =
     (if dest < src then memcpy_loop (unat n) dest src m
      else memmove_back (unat n) (dest + n) (src + n) m)"

fun memcmp_loop :: "nat \<Rightarrow> u64 \<Rightarrow> u64 \<Rightarrow> bytes \<Rightarrow> int" where
  "memcmp_loop 0 a b m = 0"
| "memcmp_loop (Suc n) a b m =
     (if m a \<noteq> m b then uint (m a) - uint (m b) else memcmp_loop n (a + 1) (b + 1) m)"

definition memcmp :: "u64 \<Rightarrow> u64 \<Rightarrow> u64 \<Rightarrow> bytes \<Rightarrow> int" where
  "memcmp s1 s2 n m = memcmp_loop (unat n) s1 s2 m"

section \<open>String operations\<close>

partial_function (option) strlen_loop :: "bytes \<Rightarrow> u64 \<Rightarrow> u64 \<Rightarrow> u64 option" where
  "strlen_loop m s len = (if m (s + len) \<noteq> 0 then strlen_loop m s (len + 1) else Some len)"

definition strlen :: "u64 \<Rightarrow> bytes \<Rightarrow> u64 option" where
  "strlen s m = strlen_loop m s 0"

partial_function (option) strcmp :: "u64 \<Rightarrow> u64 \<Rightarrow> bytes \<Rightarrow> int option" where
  "strcmp s1 s2 m =
     (if m s1 \<noteq> 0 \<and> m s1 = m s2 then strcmp (s1 + 1) (s2 + 1) m
      else Some (uint (m s1) - uint (m s2)))"

fun strncmp_loop :: "nat \<Rightarrow> u64 \<Rightarrow> u64 \<Rightarrow> bytes \<Rightarrow> int" where
  "strncmp_loop 0 s1 s2 m = 0"
| "strncmp_loop (Suc n) s1 s2 m =
     (if m s1 \<noteq> 0 \<and> m s1 = m s2 then strncmp_loop n (s1 + 1) (s2 + 1) m
      else uint (m s1) - uint (m s2))"

definition strncmp :: "u64 \<Rightarrow> u64 \<Rightarrow> u64 \<Rightarrow> bytes \<Rightarrow> int" where
  "strncmp s1 s2 n m = strncmp_loop (unat n) s1 s2 m"

partial_function (option) strcpy :: "u64 \<Rightarrow> u64 \<Rightarrow> bytes \<Rightarrow> bytes option" where
  "strcpy d s m =
     (let c = m s; m' = m(d := c)
      in if c \<noteq> 0 then strcpy (d + 1) (s + 1) m' else Some m')"

fun strncpy_copy :: "nat \<Rightarrow> u64 \<Rightarrow> u64 \<Rightarrow> bytes \<Rightarrow> nat \<times> u64 \<times> bytes" where
  "strncpy_copy 0 d s m = (0, d, m)"
| "strncpy_copy (Suc n) d s m =
     (let c = m s; m' = m(d := c)
      in if c \<noteq> 0 then strncpy_copy n (d + 1) (s + 1) m' else (Suc n, d + 1, m'))"

definition strncpy :: "u64 \<Rightarrow> u64 \<Rightarrow> u64 \<Rightarrow> bytes \<Rightarrow> bytes" where
  "strncpy dest src n m =
     (let (k, d, m') = strncpy_copy (unat n) dest src m in memset_loop k d 0 m')"

partial_function (option) strend :: "bytes \<Rightarrow> u64 \<Rightarrow> u64 option" where
  "strend m d = (if m d \<noteq> 0 then strend m (d + 1) else Some d)"

definition strcat :: "u64 \<Rightarrow> u64 \<Rightarrow> bytes \<Rightarrow> bytes option" where
  "strcat dest src m = Option.bind (strend m dest) (\<lambda>d. strcpy d src m)"

partial_function (option) strchr :: "u64 \<Rightarrow> int \<Rightarrow> bytes \<Rightarrow> u64 option" where
  "strchr s c m =
     (if m s \<noteq> 0
      then (if m s = word_of_int c then Some s else strchr (s + 1) c m)
      else Some (if c = 0 then s else 0))"

section \<open>Block copies\<close>

definition block_copied :: "nat \<Rightarrow> u64 \<Rightarrow> u64 \<Rightarrow> bytes \<Rightarrow> bytes \<Rightarrow> bool" where
  "block_copied n d s m m' \<longleftrightarrow>
     (\<forall>i < n. m' (d + of_nat i) = m (s + of_nat i)) \<and>
     (\<forall>a. (\<forall>i < n. a \<noteq> d + of_nat i) \<longrightarrow> m' a = m a)"

lemma offset_neq:
  fixes d :: u64
  assumes "i < j" and "j < 2 ^ 64"
  shows "d + of_nat i \<noteq> d + of_nat j"
proof
  assume "d + of_nat i = d + of_nat j"
  then have "unat (of_nat i :: u64) = unat (of_nat j :: u64)" by simp
  moreover have "unat (of_nat i :: u64) = i" "unat (of_nat j :: u64) = j"
    using assms by (simp_all add: unat_of_nat)
  ultimately show False
    using assms(1) by simp
qed

lemma offset_Suc: "(d :: u64) + 1 + of_nat i = d + of_nat (Suc i)"
  by (simp add: algebra_simps)

lemma memcpy_loop_copied:
  assumes "\<And>i j. i < n \<Longrightarrow> j < i \<Longrightarrow> d + of_nat j \<noteq> s + of_nat i" and "n \<le> 2 ^ 64"
  shows "block_copied n d s m (memcpy_loop n d s m)"
  using assms
proof (induction n arbitrary: d s m)
  case (Suc n)
  let ?m = "m(d := m s)"
  have IH: "block_copied n (d + 1) (s + 1) ?m (memcpy_loop n (d + 1) (s + 1) ?m)"
  proof (rule Suc.IH)
    fix i j assume "i < n" "j < i"
    then show "d + 1 + of_nat j \<noteq> s + 1 + of_nat i"
      using Suc.prems(1) [of "Suc i" "Suc j"] unfolding offset_Suc by simp
  qed (use Suc.prems(2) in simp)
  have at: "memcpy_loop (Suc n) d s m (d + of_nat i) = m (s + of_nat i)" if "i < Suc n" for i
  proof (cases i)
    case 0
    have "d \<noteq> d + 1 + of_nat k" if "k < n" for k
      using offset_neq [of 0 "Suc k" d] that Suc.prems(2) unfolding offset_Suc by simp
    then show ?thesis
      using IH 0 by (simp add: block_copied_def)
  next
    case (Suc k)
    then have "memcpy_loop (Suc n) d s m (d + 1 + of_nat k) = ?m (s + 1 + of_nat k)"
      using IH that by (simp add: block_copied_def)
    moreover have "d \<noteq> s + 1 + of_nat k"
      using Suc.prems(1) [of "Suc k" 0] that Suc unfolding offset_Suc by auto
    ultimately show ?thesis
      using Suc by (simp add: algebra_simps)
  qed
  have "memcpy_loop (Suc n) d s m a = m a" if "\<forall>i < Suc n. a \<noteq> d + of_nat i" for a
  proof -
    have "a \<noteq> d" and "\<forall>i < n. a \<noteq> d + 1 + of_nat i"
      using that [rule_format, of 0] that unfolding offset_Suc by auto
    then show ?thesis
      using IH by (simp add: block_copied_def)
  qed
  then show ?case
    using at unfolding block_copied_def by blast
qed (simp add: block_copied_def)

lemma memmove_back_copied:
  assumes "\<And>i j. j < n \<Longrightarrow> i < j \<Longrightarrow> d + of_nat j \<noteq> s + of_nat i" and "n \<le> 2 ^ 64"
  shows "block_copied n d s m (memmove_back n (d + of_nat n) (s + of_nat n) m)"
  using assms
proof (induction n arbitrary: m)
  case (Suc n)
  let ?m = "m(d + of_nat n := m (s + of_nat n))"
  have IH: "block_copied n d s ?m (memmove_back n (d + of_nat n) (s + of_nat n) ?m)"
    using Suc by simp
  have eq: "memmove_back (Suc n) (d + of_nat (Suc n)) (s + of_nat (Suc n)) m =
      memmove_back n (d + of_nat n) (s + of_nat n) ?m"
    by (simp add: algebra_simps)
  have "memmove_back n (d + of_nat n) (s + of_nat n) ?m (d + of_nat i) = m (s + of_nat i)"
    if "i < Suc n" for i
  proof (cases "i = n")
    case True
    have "\<forall>k < n. d + of_nat n \<noteq> d + of_nat k"
      using offset_neq [of _ n d] Suc.prems(2) by fastforce
    then show ?thesis
      using IH True by (simp add: block_copied_def)
  next
    case False
    then have "i < n" using that by simp
    moreover have "d + of_nat n \<noteq> s + of_nat i"
      using Suc.prems(1) [of n i] \<open>i < n\<close> by simp
    ultimately show ?thesis
      using IH by (simp add: block_copied_def)
  qed
  moreover have "memmove_back n (d + of_nat n) (s + of_nat n) ?m a = m a"
    if "\<forall>i < Suc n. a \<noteq> d + of_nat i" for a
    using IH that by (simp add: block_copied_def less_Suc_eq)
  ultimately show ?case
    unfolding eq block_copied_def by blast
qed (simp add: block_copied_def)

lemma unat_offset:
  fixes d :: u64
  assumes "i < n" and "unat d + n \<le> 2 ^ 64"
  shows "unat (d + of_nat i) = unat d + i"
proof -
  have "unat (of_nat i :: u64) = i"
    using assms by (simp add: unat_of_nat)
  then show ?thesis
    using assms by (simp add: unat_add_no_overflow)
qed

lemma memmove_copied:
  assumes "unat dest + unat n \<le> 2 ^ 64" and "unat src + unat n \<le> 2 ^ 64"
  shows "block_copied (unat n) dest src m (memmove dest src n m)"
proof (cases "dest < src")
  case True
  have "dest + of_nat j \<noteq> src + of_nat i" if "i < unat n" "j < i" for i j
    using unat_offset [OF _ assms(1), of j] unat_offset [OF _ assms(2), of i] that True
    by (auto simp: word_less_nat_alt)
  then show ?thesis
    using memcpy_loop_copied [of "unat n" dest src m] True unat_bound [of n]
    by (simp add: memmove_def)
next
  case False
  have "dest + of_nat j \<noteq> src + of_nat i" if "j < unat n" "i < j" for i j
    using unat_offset [OF _ assms(1), of j] unat_offset [OF _ assms(2), of i] that False
    by (auto simp: word_less_nat_alt)
  then have "block_copied (unat n) dest src m
      (memmove_back (unat n) (dest + of_nat (unat n)) (src + of_nat (unat n)) m)"
    using unat_bound [of n] by (intro memmove_back_copied) auto
  then show ?thesis
    using False by (simp add: memmove_def)
qed

section \<open>C strings\<close>

fun cstr :: "bytes \<Rightarrow> u64 \<Rightarrow> u8 list \<Rightarrow> bool" where
  "cstr m s [] \<longleftrightarrow> m s = 0"
| "cstr m s (x # xs) \<longleftrightarrow> x \<noteq> 0 \<and> m s = x \<and> cstr m (s + 1) xs"

fun write_bytes :: "u64 \<Rightarrow> u8 list \<Rightarrow> bytes \<Rightarrow> bytes" where
  "write_bytes d [] m = m"
| "write_bytes d (x # xs) m = write_bytes (d + 1) xs (m(d := x))"

lemma cstr_frame:
  assumes "cstr m s xs" and "\<And>j. j \<le> length xs \<Longrightarrow> m' (s + of_nat j) = m (s + of_nat j)"
  shows "cstr m' s xs"
  using assms
proof (induction m s xs rule: cstr.induct)
  case (1 m s)
  then show ?case
    using "1.prems"(2) [of 0] by simp
next
  case (2 m s x xs)
  have "m' (s + 1 + of_nat j) = m (s + 1 + of_nat j)" if "j \<le> length xs" for j
    using "2.prems"(2) [of "Suc j"] that unfolding offset_Suc by simp
  then show ?case
    using 2 "2.prems"(2) [of 0] by simp
qed

lemma write_bytes_append:
  "write_bytes d (xs @ ys) m = write_bytes (d + of_nat (length xs)) ys (write_bytes d xs m)"
  by (induction xs arbitrary: d m) (simp_all add: algebra_simps)

lemma write_bytes_other:
  "(\<And>i. i < length ys \<Longrightarrow> a \<noteq> d + of_nat i) \<Longrightarrow> write_bytes d ys m a = m a"
proof (induction ys arbitrary: d m)
  case (Cons y ys)
  have "a \<noteq> d + 1 + of_nat i" if "i < length ys" for i
    using Cons.prems [of "Suc i"] that unfolding offset_Suc by simp
  then have "write_bytes (d + 1) ys (m(d := y)) a = (m(d := y)) a"
    by (rule Cons.IH)
  then show ?case
    using Cons.prems [of 0] by (simp only: write_bytes.simps) simp
qed simp

lemma memset_loop_write: "memset_loop n p c m = write_bytes p (replicate n c) m"
  by (induction n arbitrary: p m) simp_all

lemma strlen_loop_cstr:
  "cstr m (s + len) xs \<Longrightarrow> strlen_loop m s len = Some (len + of_nat (length xs))"
proof (induction xs arbitrary: len)
  case Nil
  then show ?case
    by (simp add: strlen_loop.simps)
next
  case (Cons x xs)
  then have "strlen_loop m s len = strlen_loop m s (len + 1)"
    by (subst strlen_loop.simps) simp
  moreover have "cstr m (s + (len + 1)) xs"
    using Cons.prems by (simp add: algebra_simps)
  ultimately show ?case
    using Cons.IH by (simp add: algebra_simps)
qed

lemma strlen_cstr: "cstr m s xs \<Longrightarrow> strlen s m = Some (of_nat (length xs))"
  unfolding strlen_def by (simp add: strlen_loop_cstr)

fun strcmp_val :: "u8 list \<Rightarrow> u8 list \<Rightarrow> int" where
  "strcmp_val [] [] = 0"
| "strcmp_val [] (y # ys) = - uint y"
| "strcmp_val (x # xs) [] = uint x"
| "strcmp_val (x # xs) (y # ys) = (if x = y then strcmp_val xs ys else uint x - uint y)"

lemma strcmp_cstr:
  "cstr m a xs \<Longrightarrow> cstr m b ys \<Longrightarrow> strcmp a b m = Some (strcmp_val xs ys)"
  by (induction xs ys arbitrary: a b rule: strcmp_val.induct) (auto simp: strcmp.simps)

lemma uint_pos: "(w :: 'a::len word) \<noteq> 0 \<Longrightarrow> 0 < uint w"
  by (metis order_le_less unsigned_eq_0_iff uint_ge_0)

lemma strcmp_val_order:
  "0 \<notin> set xs \<Longrightarrow> 0 \<notin> set ys \<Longrightarrow>
     (strcmp_val xs ys = 0 \<longleftrightarrow> xs = ys) \<and> (strcmp_val xs ys < 0 \<longleftrightarrow> (xs, ys) \<in> lexord {(x, y). x < y})"
proof (induction xs ys rule: strcmp_val.induct)
  case (2 y ys)
  then have "0 < uint y"
    by (intro uint_pos) simp
  then show ?case by simp
next
  case (3 x xs)
  then have "0 < uint x"
    by (intro uint_pos) simp
  then show ?case by simp
next
  case (4 x xs y ys)
  then show ?case
    by (auto simp: word_less_def word_uint_eq_iff)
qed simp

lemma cstr_nonzero: "cstr m s xs \<Longrightarrow> 0 \<notin> set xs"
  by (induction m s xs rule: cstr.induct) auto

definition strncpy_bytes :: "nat \<Rightarrow> u8 list \<Rightarrow> u8 list" where
  "strncpy_bytes n xs = (if length xs < n then xs @ replicate (n - length xs + 1) 0 else take n xs)"

lemma strncpy_copy_spec:
  assumes "cstr m s xs" and "\<And>i j. i \<le> n \<Longrightarrow> j \<le> length xs \<Longrightarrow> d + of_nat i \<noteq> s + of_nat j"
  shows "strncpy_copy n d s m =
    (if length xs < n
     then (n - length xs, d + of_nat (length xs) + 1, write_bytes d (xs @ [0]) m)
     else (0, d + of_nat n, write_bytes d (take n xs) m))"
  using assms
proof (induction n arbitrary: d s m xs)
  case (Suc n)
  show ?case
  proof (cases xs)
    case Nil
    then show ?thesis
      using Suc.prems by simp
  next
    case (Cons x t)
    have ne: "d + 1 + of_nat i \<noteq> s + 1 + of_nat j" if "i \<le> n" "j \<le> length t" for i j
      using Suc.prems(2) [of "Suc i" "Suc j"] that Cons unfolding offset_Suc by simp
    have "cstr (m(d := x)) (s + 1) t"
    proof (rule cstr_frame)
      show "cstr m (s + 1) t"
        using Suc.prems(1) Cons by simp
      fix j assume "j \<le> length t"
      then have "d \<noteq> s + 1 + of_nat j"
        using Suc.prems(2) [of 0 "Suc j"] Cons unfolding offset_Suc by simp
      then show "(m(d := x)) (s + 1 + of_nat j) = m (s + 1 + of_nat j)"
        by simp
    qed
    then have "strncpy_copy n (d + 1) (s + 1) (m(d := x)) =
      (if length t < n
       then (n - length t, d + 1 + of_nat (length t) + 1, write_bytes (d + 1) (t @ [0]) (m(d := x)))
       else (0, d + 1 + of_nat n, write_bytes (d + 1) (take n t) (m(d := x))))"
      by (rule Suc.IH [OF _ ne])
    then show ?thesis
      using Suc.prems(1) Cons by (auto simp: algebra_simps Let_def)
  qed
qed simp

lemma strncpy_spec:
  assumes "cstr m src xs"
    and "\<And>i j. i \<le> unat n \<Longrightarrow> j \<le> length xs \<Longrightarrow> dest + of_nat i \<noteq> src + of_nat j"
  shows "strncpy dest src n m = write_bytes dest (strncpy_bytes (unat n) xs) m"
proof -
  note cp = strncpy_copy_spec [OF assms]
  show ?thesis
  proof (cases "length xs < unat n")
    case True
    have "xs @ replicate (unat n - length xs + 1) 0 = (xs @ [0]) @ replicate (unat n - length xs) 0"
      by simp
    moreover have "strncpy dest src n m =
        write_bytes (dest + of_nat (length (xs @ [0]))) (replicate (unat n - length xs) 0)
          (write_bytes dest (xs @ [0]) m)"
      using cp True by (simp add: strncpy_def memset_loop_write algebra_simps)
    ultimately show ?thesis
      using True by (simp only: strncpy_bytes_def write_bytes_append [symmetric] if_True)
  next
    case False
    then show ?thesis
      using cp by (simp add: strncpy_def strncpy_bytes_def)
  qed
qed

section \<open>Fixed-size name fields\<close>

text \<open>
  The kernel keeps names in \<^verbatim>\<open>char f[N]\<close> fields, filled by \<^verbatim>\<open>strncpy(f, src, N - 1)\<close> and
  \<^verbatim>\<open>f[N - 1] = 0\<close>. The other theories hold such a field as the string in it: \<open>field_copy N src\<close>.
\<close>

type_synonym cstring = "u8 list"

definition field_copy :: "nat \<Rightarrow> cstring \<Rightarrow> cstring" where
  "field_copy N src = take (N - 1) src"

lemma write_bytes_nth:
  assumes "length ys \<le> 2 ^ 64" and "i < length ys"
  shows "write_bytes d ys m (d + of_nat i) = ys ! i"
  using assms
proof (induction ys arbitrary: d m i)
  case (Cons y ys)
  have out: "write_bytes (d + 1) ys m' d = m' d" for m'
  proof (rule write_bytes_other)
    fix i assume "i < length ys"
    then show "d \<noteq> d + 1 + of_nat i"
      using offset_neq [of 0 "Suc i" d] Cons.prems(1) unfolding offset_Suc by simp
  qed
  show ?case
  proof (cases i)
    case 0
    then show ?thesis
      using out by simp
  next
    case (Suc k)
    then have "write_bytes (d + 1) ys (m(d := y)) (d + 1 + of_nat k) = ys ! k"
      using Cons.prems by (intro Cons.IH) simp_all
    then show ?thesis
      using Suc unfolding offset_Suc by (simp only: write_bytes.simps nth_Cons_Suc)
  qed
qed simp

lemma cstr_iff:
  "cstr m s xs \<longleftrightarrow> (\<forall>i < length xs. xs ! i \<noteq> 0 \<and> m (s + of_nat i) = xs ! i) \<and> m (s + of_nat (length xs)) = 0"
proof (induction xs arbitrary: s)
  case (Cons x xs)
  have "(\<forall>i < Suc (length xs). P i) \<longleftrightarrow> P 0 \<and> (\<forall>i < length xs. P (Suc i))" for P
    by (metis (full_types) Suc_less_eq gr0_conv_Suc not_gr_zero zero_less_Suc)
  then show ?case
    using Cons [of "s + 1"] by (auto simp: algebra_simps)
qed simp

lemma strncpy_bytes_length: "length (strncpy_bytes n xs) \<le> n + 1"
  by (simp add: strncpy_bytes_def)

lemma field_copy_lemma:
  assumes src: "cstr m src xs" and N: "0 < N"
    and apart: "\<And>i j. i < unat N \<Longrightarrow> j \<le> length xs \<Longrightarrow> f + of_nat i \<noteq> src + of_nat j"
  defines "m' \<equiv> (strncpy f src (N - 1) m)(f + (N - 1) := 0)"
  shows "cstr m' f (field_copy (unat N) xs)"
    and "(\<forall>i < unat N. a \<noteq> f + of_nat i) \<Longrightarrow> m' a = m a"
proof -
  have N1: "unat (N - 1) = unat N - 1" "0 < unat N"
    using N by (simp_all add: unat_sub_le word_le_nat_alt word_less_nat_alt)
  let ?ys = "strncpy_bytes (unat (N - 1)) xs"
  have eq: "strncpy f src (N - 1) m = write_bytes f ?ys m"
    by (rule strncpy_spec [OF src]) (use apart N1 in auto)
  have le: "length ?ys \<le> unat N"
    using strncpy_bytes_length [of "unat (N - 1)" xs] N1 by simp
  have b: "unat N < 2 ^ 64"
    using unat_bound [of N] by simp
  have last: "f + (N - 1) = f + of_nat (unat N - 1)"
    using N1 by (metis of_nat_unat ucast_id)
  let ?zs = "field_copy (unat N) xs"
  have len: "length ?zs \<le> unat N - 1"
    by (simp add: field_copy_def)
  have byte: "m' (f + of_nat i) = ?ys ! i" if "i < length ?ys" "i < unat N - 1" for i
  proof -
    have "write_bytes f ?ys m (f + of_nat i) = ?ys ! i"
      by (rule write_bytes_nth) (use le b that in linarith)+
    moreover have "f + of_nat i \<noteq> f + of_nat (unat N - 1)"
      by (rule offset_neq) (use that b in linarith)+
    ultimately show ?thesis
      unfolding m'_def eq last by (metis fun_upd_other)
  qed
  have "\<forall>i < length ?zs. ?zs ! i \<noteq> 0 \<and> m' (f + of_nat i) = ?zs ! i"
  proof (intro allI impI)
    fix i assume i: "i < length ?zs"
    then have "?ys ! i = ?zs ! i" "i < length ?ys"
      by (auto simp: strncpy_bytes_def field_copy_def N1 nth_append)
    moreover have "xs ! i \<noteq> 0"
      using i cstr_nonzero [OF src] by (auto simp: field_copy_def in_set_conv_nth)
    ultimately show "?zs ! i \<noteq> 0 \<and> m' (f + of_nat i) = ?zs ! i"
      using byte [of i] i len by (auto simp: field_copy_def)
  qed
  moreover have "m' (f + of_nat (length ?zs)) = 0"
  proof (cases "length xs < unat N - 1")
    case True
    then have "length ?zs = length xs" "length xs < length ?ys" "?ys ! length xs = 0"
      by (auto simp: field_copy_def strncpy_bytes_def N1 nth_append)
    then show ?thesis
      using byte [of "length xs"] True by simp
  next
    case False
    then have "length ?zs = unat N - 1"
      by (simp add: field_copy_def)
    then show ?thesis
      by (simp add: m'_def last)
  qed
  ultimately show "cstr m' f ?zs"
    unfolding cstr_iff by blast
  assume out: "\<forall>i < unat N. a \<noteq> f + of_nat i"
  then have "write_bytes f ?ys m a = m a"
    using le by (intro write_bytes_other) auto
  moreover have "a \<noteq> f + (N - 1)"
    unfolding last by (rule out [rule_format]) (use N1 in linarith)
  ultimately show "m' a = m a"
    by (simp add: m'_def eq)
qed

section \<open>Properties\<close>

text \<open>
  C9. \<open>memmove\<close> copies \<open>n\<close> bytes correctly however source and destination overlap: every
  destination byte gets the value its source byte had before the call, and no other byte of
  memory changes (for ranges that do not wrap round the address space).
\<close>
theorem memmove_correct:
  assumes "unat dest + unat n \<le> 2 ^ 64" and "unat src + unat n \<le> 2 ^ 64"
  shows "(\<forall>i < unat n. memmove dest src n m (dest + of_nat i) = m (src + of_nat i)) \<and>
     (\<forall>a. (\<forall>i < unat n. a \<noteq> dest + of_nat i) \<longrightarrow> memmove dest src n m a = m a)"
  using memmove_copied [OF assms] unfolding block_copied_def .

theorem memmove_correct_witness:
  "memmove 0x1002 0x1000 4 (\<lambda>a. ucast a) (0x1002 + of_nat 1) = ucast (0x1000 + of_nat 1 :: u64)"
proof -
  have "unat (0x1002 :: u64) + unat (4 :: u64) \<le> 2 ^ 64" "unat (0x1000 :: u64) + unat (4 :: u64) \<le> 2 ^ 64"
    and u: "(1 :: nat) < unat (4 :: u64)"
    by simp_all
  from memmove_correct [OF this(1,2), of "\<lambda>a. ucast a"] u show ?thesis
    by blast
qed

text \<open>
  C10. \<open>strcmp\<close> on two terminated strings returns, returns 0 exactly when they are equal, and
  is negative exactly when the first comes before the second in the lexicographic order of
  unsigned bytes.
\<close>
theorem strcmp_correct:
  assumes "cstr m a xs" and "cstr m b ys"
  shows "\<exists>r. strcmp a b m = Some r \<and> (r = 0 \<longleftrightarrow> xs = ys) \<and>
     (r < 0 \<longleftrightarrow> (xs, ys) \<in> lexord {(x, y). x < y})"
  using strcmp_cstr [OF assms] strcmp_val_order [OF cstr_nonzero cstr_nonzero] assms by blast

theorem strcmp_correct_witness:
  "\<exists>r. strcmp 0x1000 0x2000 (write_bytes 0x1000 [97, 98, 0] (write_bytes 0x2000 [97, 99, 0] (\<lambda>_. 0))) =
     Some r \<and> r < 0"
proof -
  let ?m = "write_bytes 0x1000 [97, 98, 0] (write_bytes 0x2000 [97, 99, 0] (\<lambda>_. 0))"
  have "cstr ?m 0x1000 [97, 98]" "cstr ?m 0x2000 [97, 99]"
    by simp_all
  then show ?thesis
    using strcmp_correct [of ?m "0x1000" "[97, 98]" "0x2000" "[97, 99]"] by (auto simp del: write_bytes.simps)
qed

text \<open>
  C11. The exact effect of \<open>strncpy\<close>: with a source of at least \<open>n\<close> bytes it writes the first \<open>n\<close>
  of them; with a shorter one it writes the string and then zeros up to and including
  \<^verbatim>\<open>dest[n]\<close>, one byte past the \<open>n\<close> bytes it was given.
\<close>
theorem strncpy_exact:
  assumes "cstr m src xs"
    and "\<And>i j. i \<le> unat n \<Longrightarrow> j \<le> length xs \<Longrightarrow> dest + of_nat i \<noteq> src + of_nat j"
  shows "strncpy dest src n m =
     write_bytes dest (if length xs < unat n then xs @ replicate (unat n - length xs + 1) 0
                       else take (unat n) xs) m"
  using strncpy_spec [OF assms] unfolding strncpy_bytes_def .

theorem strncpy_exact_witness:
  "strncpy 0x1000 0x2000 2 (write_bytes 0x2000 [97, 0] (\<lambda>_. 7)) 0x1002 = 0"
proof -
  let ?m = "write_bytes 0x2000 [97, 0] (\<lambda>_. 7)"
  have "(0x1000 :: u64) + of_nat i \<noteq> 0x2000 + of_nat j" if "i \<le> unat (2 :: u64)" "j \<le> length [97 :: u8]" for i j
    using unat_offset [of i 3 "0x1000"] unat_offset [of j 2 "0x2000"] that by auto
  then have "strncpy 0x1000 0x2000 2 ?m =
     write_bytes 0x1000 (if length [97 :: u8] < unat (2 :: u64) then [97] @ replicate (unat (2 :: u64) - length [97 :: u8] + 1) 0
                       else take (unat (2 :: u64)) [97]) ?m"
    by (intro strncpy_exact) simp_all
  moreover have "replicate (2 - length [97 :: u8] + 1) 0 = [0, 0 :: u8]"
    by (simp add: numeral_2_eq_2)
  moreover have "unat (2 :: u64) = 2"
    by simp
  ultimately have "strncpy 0x1000 0x2000 2 ?m = write_bytes 0x1000 [97, 0, 0] ?m"
    by (simp del: replicate.simps write_bytes.simps)
  then show ?thesis
    by simp
qed

text \<open>
  C12. The kernel's way of filling a name field, \<^verbatim>\<open>strncpy(f, src, N - 1)\<close> and then a terminator in
  the last byte, leaves in the field the source string cut to \<open>N - 1\<close> bytes and changes no byte
  outside the \<open>N\<close> bytes of the field, although \<^verbatim>\<open>strncpy\<close> writes one byte more than its count.
\<close>
theorem field_copy_correct:
  assumes "cstr m src xs" and "0 < N"
    and "\<And>i j. i < unat N \<Longrightarrow> j \<le> length xs \<Longrightarrow> f + of_nat i \<noteq> src + of_nat j"
  shows "cstr ((strncpy f src (N - 1) m)(f + (N - 1) := 0)) f (field_copy (unat N) xs) \<and>
     (\<forall>a. (\<forall>i < unat N. a \<noteq> f + of_nat i) \<longrightarrow> ((strncpy f src (N - 1) m)(f + (N - 1) := 0)) a = m a)"
  using field_copy_lemma [OF assms] by blast

theorem field_copy_correct_witness:
  "cstr ((strncpy 0x1000 0x2000 (4 - 1) (write_bytes 0x2000 [97, 98, 99, 100, 0] (\<lambda>_. 7)))(0x1000 + (4 - 1) := 0))
     0x1000 [97, 98, 99]"
proof -
  let ?m = "write_bytes 0x2000 [97, 98, 99, 100, 0] (\<lambda>_. 7)"
  have ap: "(0x1000 :: u64) + of_nat i \<noteq> 0x2000 + of_nat j"
    if "i < unat (4 :: u64)" "j \<le> length [97, 98, 99, 100 :: u8]" for i j
    using unat_offset [of i 4 "0x1000"] unat_offset [of j 5 "0x2000"] that by auto
  have st: "cstr ?m 0x2000 [97, 98, 99, 100]" and pos: "(0 :: u64) < 4"
    by simp_all
  have "cstr ((strncpy 0x1000 0x2000 (4 - 1) ?m)(0x1000 + (4 - 1) := 0)) 0x1000
      (field_copy (unat (4 :: u64)) [97, 98, 99, 100])"
    by (rule conjunct1 [OF field_copy_correct [OF st pos ap]])
  moreover have "field_copy (unat (4 :: u64)) [97, 98, 99, 100] = [97, 98, 99]"
    by (simp add: field_copy_def)
  ultimately show ?thesis
    by (simp only:)
qed

end
