(* ===== verification/KUtil.thy ===== *)
theory KUtil
  imports KString
begin

text \<open>
  Number formatting and tokenising, \<^verbatim>\<open>lib/util.c\<close>. The text a function leaves in its buffer is
  the string it returns. The digit loop is shared with the formatted output of
  \<^verbatim>\<open>lib/printf.c\<close> and \<^verbatim>\<open>user/libc/uprintf.c\<close>. Digits are shown to be the canonical
  representation of the value and to fit the local 65-byte buffers; \<open>tokenize\<close> is shown to cut
  a line into its words.
\<close>

section \<open>Digits\<close>

definition lower_digits :: cstring where
  "lower_digits = [48, 49, 50, 51, 52, 53, 54, 55, 56, 57, 97, 98, 99, 100, 101, 102]"

definition upper_digits :: cstring where
  "upper_digits = [48, 49, 50, 51, 52, 53, 54, 55, 56, 57, 65, 66, 67, 68, 69, 70]"

text \<open>The bytes put into \<^verbatim>\<open>tmp\<close>, least significant digit first. The loop is entered with a base
  from 2 to 16 only.\<close>

function digit_loop :: "cstring \<Rightarrow> u64 \<Rightarrow> u64 \<Rightarrow> cstring" where
  "digit_loop ds base v =
     (if v > 0 \<and> 2 \<le> base then ds ! unat (v mod base) # digit_loop ds base (v div base) else [])"
  by pat_completeness auto
termination
proof (relation "measure (\<lambda>(ds, base, v). unat v)", goal_cases)
  case (2 ds base v)
  then have "2 \<le> unat base" "0 < unat v"
    by (simp_all add: word_le_nat_alt word_less_nat_alt)
  then show ?case
    by (simp add: unat_div)
qed simp

declare digit_loop.simps [simp del]

definition digit_buf :: "cstring \<Rightarrow> u64 \<Rightarrow> u64 \<Rightarrow> cstring" where
  "digit_buf ds base v = (if v = 0 then [48] else digit_loop ds base v)"

definition utoa :: "u64 \<Rightarrow> int \<Rightarrow> cstring" where
  "utoa val base =
     (if base < 2 \<or> 16 < base then [] else rev (digit_buf lower_digits (word_of_int base) val))"

text \<open>
  The negation of the least 64-bit integer overflows in \<^verbatim>\<open>int64_t\<close>, which C leaves undefined: no result.
\<close>

definition itoa :: "u64 \<Rightarrow> int \<Rightarrow> cstring option" where
  "itoa val base =
     (if base < 2 \<or> 16 < base then Some []
      else
        let negative = (sint val < 0 \<and> base = 10) in
        if negative \<and> sint val = - (2 ^ 63) then None
        else
          let uval = (if negative then - val else val)
          in Some ((if negative then [45] else []) @ rev (digit_buf lower_digits (word_of_int base) uval)))"

section \<open>Tokens\<close>

text \<open>A line is the byte array with its terminator; a pointer into it is an index.\<close>

definition is_ws :: "u8 \<Rightarrow> bool" where
  "is_ws c \<longleftrightarrow> c = 32 \<or> c = 9"

function skip_ws :: "u8 list \<Rightarrow> nat \<Rightarrow> nat" where
  "skip_ws b p = (if p < length b \<and> is_ws (b ! p) then skip_ws b (p + 1) else p)"
  by pat_completeness auto
termination
  by (relation "measure (\<lambda>(b, p). length b - p)") auto

function token_end :: "u8 list \<Rightarrow> nat \<Rightarrow> nat" where
  "token_end b p = (if p < length b \<and> b ! p \<noteq> 0 \<and> \<not> is_ws (b ! p) then token_end b (p + 1) else p)"
  by pat_completeness auto
termination
  by (relation "measure (\<lambda>(b, p). length b - p)") auto

declare skip_ws.simps [simp del] token_end.simps [simp del]

lemma skip_ws_ge: "p \<le> skip_ws b p"
  by (induction b p rule: skip_ws.induct) (subst skip_ws.simps, auto)

lemma token_end_ge: "p \<le> token_end b p"
  by (induction b p rule: token_end.induct) (subst token_end.simps, auto)

text \<open>\<open>n\<close> is the room left in \<^verbatim>\<open>tokens\<close>.\<close>

fun tokenize_loop :: "nat \<Rightarrow> u8 list \<Rightarrow> nat \<Rightarrow> nat list \<times> u8 list" where
  "tokenize_loop 0 b p = ([], b)"
| "tokenize_loop (Suc n) b p =
     (if p < length b \<and> b ! p \<noteq> 0 then
        (let q = skip_ws b p in
         if b ! q = 0 then ([], b)
         else
           let e = token_end b q;
               (ts, b') = (if b ! e \<noteq> 0 then tokenize_loop n (b[e := 0]) (e + 1) else tokenize_loop n b e)
           in (q # ts, b'))
      else ([], b))"

definition tokenize :: "u8 list \<Rightarrow> int \<Rightarrow> nat list \<times> u8 list" where
  "tokenize str max_tokens = tokenize_loop (nat max_tokens) str 0"

section \<open>Canonical digits\<close>

fun radix_value :: "nat \<Rightarrow> nat list \<Rightarrow> nat" where
  "radix_value b [] = 0"
| "radix_value b (d # ds) = d + b * radix_value b ds"

function digit_vals :: "nat \<Rightarrow> nat \<Rightarrow> nat list" where
  "digit_vals b v = (if 0 < v \<and> 2 \<le> b then (v mod b) # digit_vals b (v div b) else [])"
  by pat_completeness auto
termination
  by (relation "measure snd") auto

declare digit_vals.simps [simp del]

lemma digit_loop_vals: "digit_loop ds base v = map (\<lambda>d. ds ! d) (digit_vals (unat base) (unat v))"
proof (induction ds base v rule: digit_loop.induct)
  case (1 ds base v)
  have g: "v > 0 \<and> 2 \<le> base \<longleftrightarrow> 0 < unat v \<and> 2 \<le> unat base"
    by (simp add: word_less_nat_alt word_le_nat_alt)
  show ?case
  proof (cases "v > 0 \<and> 2 \<le> base")
    case True
    then show ?thesis
      using "1.IH" [OF True] g
      by (subst digit_loop.simps, subst digit_vals.simps) (simp add: unat_mod unat_div)
  next
    case False
    have "digit_loop ds base v = []"
      by (subst digit_loop.simps) (rule if_not_P [OF False])
    moreover have "digit_vals (unat base) (unat v) = []"
      by (subst digit_vals.simps) (rule if_not_P [OF False [unfolded g]])
    ultimately show ?thesis
      by simp
  qed
qed

lemma digit_vals_value: "2 \<le> b \<Longrightarrow> radix_value b (digit_vals b v) = v"
  by (induction b v rule: digit_vals.induct) (subst digit_vals.simps, auto)

lemma digit_vals_range: "\<forall>d \<in> set (digit_vals b v). d < b"
  by (induction b v rule: digit_vals.induct) (subst digit_vals.simps, auto)

lemma digit_vals_last: "2 \<le> b \<Longrightarrow> 0 < v \<Longrightarrow> digit_vals b v \<noteq> [] \<and> last (digit_vals b v) \<noteq> 0"
proof (induction b v rule: digit_vals.induct)
  case (1 b v)
  show ?case
  proof (cases "v div b = 0")
    case True
    then have "digit_vals b v = [v]"
      using "1.prems" by (subst digit_vals.simps, subst digit_vals.simps) (auto simp: div_eq_0_iff)
    then show ?thesis
      using "1.prems" by simp
  next
    case False
    then show ?thesis
      using 1 by (subst (1 2) digit_vals.simps) auto
  qed
qed

lemma digit_vals_length: "v < b ^ k \<Longrightarrow> length (digit_vals b v) \<le> k"
proof (induction k arbitrary: v)
  case 0
  then show ?case
    by (subst digit_vals.simps) simp
next
  case (Suc k)
  have "v div b < b ^ k" if "2 \<le> b"
    using Suc.prems that by (simp add: div_less_iff_less_mult mult.commute)
  then show ?case
    using Suc.IH [of "v div b"] by (subst digit_vals.simps) auto
qed

lemma digit_vals_64: "2 \<le> b \<Longrightarrow> length (digit_vals b (unat (v :: u64))) \<le> 64"
  using digit_vals_length [of "unat v" b 64] unat_bound [of v]
    power_mono [of 2 b 64] by simp

definition numeral_of :: "nat \<Rightarrow> nat \<Rightarrow> nat list" where
  "numeral_of b v = (if v = 0 then [0] else rev (digit_vals b v))"

lemma rev_digit_buf:
  assumes "ds ! 0 = 48"
  shows "rev (digit_buf ds base v) = map (\<lambda>d. ds ! d) (numeral_of (unat base) (unat v))"
  using assms by (auto simp: digit_buf_def numeral_of_def digit_loop_vals rev_map unat_eq_0)

lemma numeral_of_canonical:
  assumes "2 \<le> b"
  shows "radix_value b (rev (numeral_of b v)) = v" and "\<forall>d \<in> set (numeral_of b v). d < b"
    and "numeral_of b v \<noteq> []" and "hd (numeral_of b v) = 0 \<Longrightarrow> numeral_of b v = [0]"
  using assms digit_vals_value [OF assms] digit_vals_range [of b v] digit_vals_last [OF assms, of v]
  by (auto simp: numeral_of_def hd_rev)

lemma numeral_of_length: "2 \<le> b \<Longrightarrow> length (numeral_of b (unat (v :: u64))) \<le> 64"
  using digit_vals_64 [of b v] by (simp add: numeral_of_def)

text \<open>
  \<open>canonical b v ns\<close>: the numeral \<open>ns\<close>, most significant digit first, denotes \<open>v\<close> in base \<open>b\<close>
  without leading zeros and fits a 65-byte buffer.
\<close>

definition canonical :: "nat \<Rightarrow> nat \<Rightarrow> nat list \<Rightarrow> bool" where
  "canonical b v ns \<longleftrightarrow> radix_value b (rev ns) = v \<and> (\<forall>d \<in> set ns. d < b) \<and> ns \<noteq> [] \<and>
     (hd ns = 0 \<longrightarrow> ns = [0]) \<and> length ns \<le> 64"

lemma radix_value_pos: "ds \<noteq> [] \<Longrightarrow> last ds \<noteq> 0 \<Longrightarrow> 0 < b \<Longrightarrow> 0 < radix_value b ds"
  by (induction ds) (auto split: if_splits)

lemma digit_vals_unique:
  assumes "2 \<le> b" and "\<forall>d \<in> set ds. d < b" and "ds \<noteq> [] \<longrightarrow> last ds \<noteq> 0"
  shows "digit_vals b (radix_value b ds) = ds"
  using assms
proof (induction ds)
  case Nil
  then show ?case by (simp add: digit_vals.simps)
next
  case (Cons d ds)
  have "0 < radix_value b (d # ds)"
    using Cons.prems by (intro radix_value_pos) auto
  moreover have "digit_vals b (radix_value b ds) = ds"
    using Cons by (auto split: if_splits)
  ultimately show ?case
    using Cons.prems by (subst digit_vals.simps) simp
qed

lemma canonical_numeral:
  assumes "2 \<le> b"
  shows "canonical b (unat (v :: u64)) ns \<longleftrightarrow> ns = numeral_of b (unat v)"
proof
  assume "ns = numeral_of b (unat v)"
  then show "canonical b (unat v) ns"
    using numeral_of_canonical [OF assms, of "unat v"] numeral_of_length [OF assms, of v] by (simp add: canonical_def)
next
  assume c: "canonical b (unat v) ns"
  show "ns = numeral_of b (unat v)"
  proof (cases "hd ns = 0")
    case True
    then have "ns = [0]" "unat v = 0" using c by (auto simp: canonical_def)
    then show ?thesis by (simp add: numeral_of_def)
  next
    case False
    then have "digit_vals b (unat v) = rev ns" "0 < unat v"
      using c digit_vals_unique [OF assms, of "rev ns"] radix_value_pos [of "rev ns" b] assms
      by (auto simp: canonical_def last_rev)
    then show ?thesis by (simp add: numeral_of_def)
  qed
qed

lemma canonical_ex1: "2 \<le> b \<Longrightarrow> \<exists>!ns. canonical b (unat (v :: u64)) ns"
  by (simp add: canonical_numeral)

lemma lower_digits_0: "lower_digits ! 0 = 48"
  by (simp add: lower_digits_def)

lemma unat_base:
  assumes "2 \<le> base" and "base \<le> 16"
  shows "unat (word_of_int base :: u64) = nat base"
proof -
  have "uint (word_of_int base :: u64) = base"
    using assms by (simp add: uint_word_of_int)
  then show ?thesis
    by (simp add: unat_eq_nat_uint)
qed

lemma word_of_int_sint: "word_of_int (sint (v :: u64)) = v"
  by (metis scast_eq scast_id)

lemma unat_sint:
  "sint (v :: u64) < 0 \<Longrightarrow> unat (- v) = nat (- sint v)"
  "0 \<le> sint (v :: u64) \<Longrightarrow> unat v = nat (sint v)"
proof -
  have r: "- (2 ^ 63) \<le> sint v" "sint v < 2 ^ 63"
    using sint_range_size [of v] by (simp_all add: word_size)
  have "uint (- v) = (- sint v) mod 2 ^ 64"
    using uint_word_of_int [of "- sint v", where 'a = 64] word_of_int_sint [of v] by simp
  then show "sint (v :: u64) < 0 \<Longrightarrow> unat (- v) = nat (- sint v)"
    using r by (simp add: unat_eq_nat_uint)
  have "uint v = sint v mod 2 ^ 64"
    using uint_word_of_int [of "sint v", where 'a = 64] word_of_int_sint [of v] by simp
  then show "0 \<le> sint (v :: u64) \<Longrightarrow> unat v = nat (sint v)"
    using r by (simp add: unat_eq_nat_uint)
qed

section \<open>Words of a line\<close>

function line_words :: "u8 list \<Rightarrow> u8 list list" where
  "line_words xs =
     (let ys = dropWhile is_ws xs
      in if ys = [] then []
         else takeWhile (\<lambda>c. \<not> is_ws c) ys # line_words (dropWhile (\<lambda>c. \<not> is_ws c) ys))"
  by pat_completeness auto
termination
proof (relation "measure length", goal_cases)
  case (2 xs ys)
  then obtain y zs where ys: "ys = y # zs" and "\<not> is_ws y"
    using hd_dropWhile by (metis list.exhaust list.sel(1))
  then have "length (dropWhile (\<lambda>c. \<not> is_ws c) ys) < length ys"
    by (simp add: less_Suc_eq_le length_dropWhile_le)
  moreover have "length ys \<le> length xs"
    using 2 length_dropWhile_le [of is_ws xs] by simp
  ultimately show ?case
    by simp
qed simp

declare line_words.simps [simp del]

lemma skip_ws_app:
  "0 \<notin> set xs \<Longrightarrow> skip_ws (pre @ xs @ [0]) (length pre) = length pre + length (takeWhile is_ws xs)"
proof (induction xs arbitrary: pre)
  case Nil
  then show ?case
    by (simp add: skip_ws.simps is_ws_def)
next
  case (Cons x xs)
  then show ?case
    using Cons.IH [of "pre @ [x]"] by (subst skip_ws.simps) (auto simp: nth_append)
qed

lemma token_end_app:
  "0 \<notin> set xs \<Longrightarrow>
     token_end (pre @ xs @ [0]) (length pre) = length pre + length (takeWhile (\<lambda>c. \<not> is_ws c) xs)"
proof (induction xs arbitrary: pre)
  case Nil
  then show ?case
    by (simp add: token_end.simps)
next
  case (Cons x xs)
  then show ?case
    using Cons.IH [of "pre @ [x]"] by (subst token_end.simps) (auto simp: nth_append)
qed

definition token_at :: "u8 list \<Rightarrow> nat \<Rightarrow> u8 list" where
  "token_at b p = takeWhile (\<lambda>c. c \<noteq> 0) (drop p b)"

lemma line_words_step:
  assumes "dropWhile is_ws xs = tok @ rest" and "tok \<noteq> []" and "\<forall>c \<in> set tok. \<not> is_ws c"
    and "rest = [] \<or> is_ws (hd rest)"
  shows "line_words xs = tok # line_words (tl rest)"
proof -
  have t: "takeWhile (\<lambda>c. \<not> is_ws c) (tok @ rest) = tok" "dropWhile (\<lambda>c. \<not> is_ws c) (tok @ rest) = rest"
    using assms(3,4) by (cases rest; simp)+
  have "line_words rest = line_words (tl rest)"
    using assms(4) by (cases rest) (auto simp: line_words.simps [of "_ # _"] line_words.simps)
  then show ?thesis
    using assms(1,2) t by (subst line_words.simps) (simp add: Let_def)
qed

lemma token_at_app: "0 \<notin> set tok \<Longrightarrow> token_at (pre @ tok @ 0 # r) (length pre) = tok"
  by (induction tok) (auto simp: token_at_def)

lemma line_words_Nil: "dropWhile is_ws xs = [] \<Longrightarrow> line_words xs = []"
  by (subst line_words.simps) simp

lemma tokenize_loop_words:
  assumes "0 \<notin> set xs" and "tokenize_loop n (pre @ xs @ [0]) (length pre) = (ts, b')"
  shows "\<exists>zs. b' = pre @ zs @ [0] \<and> length zs = length xs \<and> map (token_at b') ts = take n (line_words xs)"
  using assms
proof (induction n arbitrary: pre xs ts b')
  case (Suc n)
  let ?b = "pre @ xs @ [0]"
  let ?ws = "takeWhile is_ws xs" and ?ys = "dropWhile is_ws xs"
  let ?tok = "takeWhile (\<lambda>c. \<not> is_ws c) ?ys" and ?rest = "dropWhile (\<lambda>c. \<not> is_ws c) ?ys"
  have split: "xs = ?ws @ ?ys" and ysplit: "?ys = ?tok @ ?rest"
    by simp_all
  have no0: "0 \<notin> set ?ys" "0 \<notin> set ?tok" "0 \<notin> set ?rest"
    using Suc.prems(1) set_dropWhileD set_takeWhileD by (metis, metis set_dropWhileD set_takeWhileD, metis set_dropWhileD)
  have q: "skip_ws ?b (length pre) = length (pre @ ?ws)"
    using skip_ws_app [OF Suc.prems(1)] by simp
  show ?case
  proof (cases "?ys = []")
    case True
    have "?b ! length (pre @ ?ws) = 0"
      using True split by (metis append.assoc append_Nil2 nth_append_length)
    then have "ts = [] \<and> b' = ?b"
      using Suc.prems(2) q by (auto simp: Let_def split: if_splits)
    then show ?thesis
      using line_words_Nil [OF True] by auto
  next
    case False
    then have tok: "?tok \<noteq> []"
      using hd_dropWhile [of is_ws xs] by (cases ?ys) auto
    have b: "?b = (pre @ ?ws) @ ?ys @ [0]"
      using split by (metis append.assoc)
    have e: "token_end ?b (length (pre @ ?ws)) = length (pre @ ?ws @ ?tok)"
      unfolding b token_end_app [OF no0(1)] by simp
    have q0: "?b ! length (pre @ ?ws) \<noteq> 0"
      unfolding b using False no0(1) by (cases ?ys) (auto simp: nth_append)
    have p0: "?b ! length pre \<noteq> 0"
      using Suc.prems(1) False by (cases xs) (auto simp: nth_append)
    have words: "line_words xs = ?tok # line_words (tl ?rest)"
      by (rule line_words_step [OF ysplit tok])
        (use hd_dropWhile [of "\<lambda>c. \<not> is_ws c" ?ys] in \<open>auto dest: set_takeWhileD\<close>)
    have be: "?b = (pre @ ?ws @ ?tok) @ ?rest @ [0]"
      using b ysplit by (metis append.assoc)
    show ?thesis
    proof (cases ?rest)
      case Nil
      then have e0: "?b ! length (pre @ ?ws @ ?tok) = 0"
        using be by (metis append_Nil nth_append_length)
      obtain us where "tokenize_loop n ?b (length (pre @ ?ws @ ?tok)) = (us, b')" "ts = length (pre @ ?ws) # us"
        using Suc.prems(2) p0 q q0 e e0 by (auto simp: Let_def split: prod.splits)
      then have b': "b' = ?b" and ts: "ts = [length (pre @ ?ws)]"
        using e0 by (cases n; auto)+
      have "token_at b' (length (pre @ ?ws)) = ?tok"
        using token_at_app [OF no0(2), of "pre @ ?ws" "[]"] b' be Nil by simp
      then have "map (token_at b') ts = take (Suc n) (line_words xs)"
        using words Nil ts line_words_Nil [of "[]"] by simp
      then show ?thesis
        using b' by blast
    next
      case (Cons c r)
      then have c0: "c \<noteq> 0"
        using no0(3) by auto
      then have e0: "?b ! length (pre @ ?ws @ ?tok) \<noteq> 0"
        using be Cons by (metis append_Cons nth_append_length)
      have upd: "?b[length (pre @ ?ws @ ?tok) := 0] = (pre @ ?ws @ ?tok @ [0]) @ r @ [0]"
        using be Cons by (metis append.assoc append_Cons append_Nil list_update_length)
      obtain us where us: "tokenize_loop n ((pre @ ?ws @ ?tok @ [0]) @ r @ [0]) (length (pre @ ?ws @ ?tok @ [0])) = (us, b')"
          "ts = length (pre @ ?ws) # us"
        using Suc.prems(2) p0 q q0 e e0 upd by (auto simp: Let_def split: prod.splits)
      obtain zs where zs: "b' = (pre @ ?ws @ ?tok @ [0]) @ zs @ [0]" "length zs = length r"
          "map (token_at b') us = take n (line_words r)"
        using Suc.IH [OF _ us(1)] no0(3) Cons by auto
      have "token_at b' (length (pre @ ?ws)) = ?tok"
        using zs(1) token_at_app [OF no0(2), of "pre @ ?ws" "zs @ [0]"] by simp
      moreover have "length xs = length (?ws @ ?tok @ [0] @ zs)"
        using split ysplit Cons zs(2) by (metis length_append length_Cons append_Cons append_Nil)
      ultimately show ?thesis
        using words Cons zs us(2) by (intro exI [of _ "?ws @ ?tok @ [0] @ zs"]) auto
    qed
  qed
qed auto

section \<open>Properties\<close>

text \<open>
  C13. \<open>utoa\<close> prints the canonical numeral of its argument: in every base from 2 to 16 the text is the one
  digit sequence, most significant first and without leading zeros, whose value is the argument, and the
  digits fit the 65-byte local buffer. \<open>itoa\<close> does the same for a signed argument that is not negative or is
  printed in a base other than 10, where a negative argument \<open>v\<close> is printed as \<open>2 ^ 64 + v\<close>; in base 10 it
  prints a minus sign and the magnitude of a negative argument. It has no defined result exactly for
  the least 64-bit integer in base 10.
\<close>
theorem itoa_canonical:
  assumes "2 \<le> base" and "base \<le> 16"
  shows "(\<exists>!ns. canonical (nat base) (unat v) ns) \<and>
     (\<forall>ns. canonical (nat base) (unat v) ns \<longrightarrow> utoa v base = map (\<lambda>d. lower_digits ! d) ns) \<and>
     (itoa v base = None \<longleftrightarrow> base = 10 \<and> sint v = - (2 ^ 63)) \<and>
     (\<not> (base = 10 \<and> sint v < 0) \<longrightarrow> itoa v base = Some (utoa v base)) \<and>
     (base = 10 \<and> - (2 ^ 63) < sint v \<and> sint v < 0 \<longrightarrow>
       (\<exists>!ns. canonical 10 (nat (- sint v)) ns) \<and>
       (\<forall>ns. canonical 10 (nat (- sint v)) ns \<longrightarrow> itoa v base = Some (45 # map (\<lambda>d. lower_digits ! d) ns)))"
proof (intro conjI)
  have b: "2 \<le> nat base" "2 \<le> (10 :: nat)"
    using assms(1) by simp_all
  note out = rev_digit_buf [OF lower_digits_0, of "word_of_int base", unfolded unat_base [OF assms]]
  show "\<exists>!ns. canonical (nat base) (unat v) ns" by (rule canonical_ex1 [OF b(1)])
  show "\<forall>ns. canonical (nat base) (unat v) ns \<longrightarrow> utoa v base = map (\<lambda>d. lower_digits ! d) ns"
    using canonical_numeral [OF b(1)] out [of v] assms by (auto simp: utoa_def)
  show "itoa v base = None \<longleftrightarrow> base = 10 \<and> sint v = - (2 ^ 63)"
    using assms by (auto simp: itoa_def Let_def)
  show "\<not> (base = 10 \<and> sint v < 0) \<longrightarrow> itoa v base = Some (utoa v base)"
    using assms by (auto simp: itoa_def utoa_def)
  show "base = 10 \<and> - (2 ^ 63) < sint v \<and> sint v < 0 \<longrightarrow>
       (\<exists>!ns. canonical 10 (nat (- sint v)) ns) \<and>
       (\<forall>ns. canonical 10 (nat (- sint v)) ns \<longrightarrow> itoa v base = Some (45 # map (\<lambda>d. lower_digits ! d) ns))"
  proof
    assume n: "base = 10 \<and> - (2 ^ 63) < sint v \<and> sint v < 0"
    then have u: "unat (- v) = nat (- sint v)" using unat_sint [of v] by auto
    have "itoa v base = Some (45 # map (\<lambda>d. lower_digits ! d) (numeral_of 10 (unat (- v))))"
      using n out [of "- v"] by (simp add: itoa_def Let_def)
    then show "(\<exists>!ns. canonical 10 (nat (- sint v)) ns) \<and>
       (\<forall>ns. canonical 10 (nat (- sint v)) ns \<longrightarrow> itoa v base = Some (45 # map (\<lambda>d. lower_digits ! d) ns))"
      using canonical_ex1 [OF b(2), of "- v"] canonical_numeral [OF b(2), of "- v"] unfolding u by auto
  qed
qed

theorem itoa_canonical_witness:
  "itoa (- 42) 10 = Some [45, 52, 50] \<and> itoa (- 1) 16 = Some [102, 102, 102, 102, 102, 102, 102, 102, 102, 102, 102, 102, 102, 102, 102, 102] \<and> itoa (- (2 ^ 63)) 10 = None"
proof (intro conjI)
  have s: "sint (- 42 :: u64) = - 42"
    by simp
  have "canonical 10 42 [4, 2]" by (simp add: canonical_def)
  then have "itoa (- 42) 10 = Some (45 # map (\<lambda>d. lower_digits ! d) [4, 2])"
    using itoa_canonical [of 10 "- 42"] unfolding s by auto
  then show "itoa (- 42) 10 = Some [45, 52, 50]" by (simp add: lower_digits_def)
  have "unat (- 1 :: u64) = 0xFFFFFFFFFFFFFFFF" by (simp add: unsigned_minus_1_eq_mask mask_eq_exp_minus_1)
  moreover have "canonical 16 0xFFFFFFFFFFFFFFFF [15, 15, 15, 15, 15, 15, 15, 15, 15, 15, 15, 15, 15, 15, 15, 15]" by (simp add: canonical_def)
  ultimately have "utoa (- 1) 16 = map (\<lambda>d. lower_digits ! d)
      [15, 15, 15, 15, 15, 15, 15, 15, 15, 15, 15, 15, 15, 15, 15, 15]" "itoa (- 1) 16 = Some (utoa (- 1) 16)"
    using itoa_canonical [of 16 "- 1"] by auto
  then show "itoa (- 1) 16 = Some [102, 102, 102, 102, 102, 102, 102, 102, 102, 102, 102, 102, 102, 102, 102, 102]" by (simp add: lower_digits_def)
  have "sint (- (2 ^ 63) :: u64) = - (2 ^ 63)" by simp
  then show "itoa (- (2 ^ 63)) 10 = None"
    using itoa_canonical [of 10 "- (2 ^ 63)"] by auto
qed

text \<open>
  C14. \<open>tokenize\<close> cuts a line into its blank-separated words: the pointers it returns, read as
  strings in the line it has modified, are the first \<^verbatim>\<open>max_tokens\<close> words of the line, and it
  neither moves the terminator nor writes outside the line.
\<close>
theorem tokenize_correct:
  assumes "0 \<notin> set xs"
  shows "\<exists>ts zs. tokenize (xs @ [0]) k = (ts, zs @ [0]) \<and> length zs = length xs \<and>
     map (token_at (zs @ [0])) ts = take (nat k) (line_words xs)"
proof -
  obtain ts b' where r: "tokenize_loop (nat k) (xs @ [0]) 0 = (ts, b')"
    by fastforce
  then show ?thesis
    using tokenize_loop_words [OF assms, of "nat k" "[]" ts b'] by (auto simp: tokenize_def)
qed

theorem tokenize_correct_witness:
  "\<exists>ts zs. tokenize ([108, 115, 32, 32, 97, 98] @ [0]) 8 = (ts, zs @ [0]) \<and>
     map (token_at (zs @ [0])) ts = [[108, 115], [97, 98]]"
proof -
  have "line_words [108, 115, 32, 32, 97, 98] = [[108, 115], [97, 98]]"
    by (simp add: line_words.simps is_ws_def)
  then show ?thesis
    using tokenize_correct [of "[108, 115, 32, 32, 97, 98]" 8] by auto
qed

end
