(* ===== verification/Vma.thy ===== *)
theory Vma
  imports PmmInit KString
begin

text \<open>
  Virtual memory areas and shared-memory segments, \<^verbatim>\<open>mm/vma.c\<close>. A task's areas are a table of
  32 slots and a segment is a slot of a table of 16; pointers to slots are indices. Segments
  take their frames from the page allocator of \<open>Pmm\<close>. The search for a free address range is
  a loop that a malformed area could keep from ending, so it is a partial function, shown to
  return and to be first fit.
\<close>

section \<open>Areas of a task\<close>

record vma =
  v_start :: u64
  v_end :: u64
  v_flags :: u32
  v_type :: u32
  v_shm_id :: int
  v_used :: bool

definition VMA_MAX_PER_TASK :: nat where
  "VMA_MAX_PER_TASK = 32"

definition MMAP_BASE :: u64 where
  "MMAP_BASE = 0x10000000"

definition MMAP_END :: u64 where
  "MMAP_END = 0x70000000"

definition vma_init_list :: "vma list" where
  "vma_init_list = replicate VMA_MAX_PER_TASK
     \<lparr>v_start = 0, v_end = 0, v_flags = 0, v_type = 0, v_shm_id = 0, v_used = False\<rparr>"

definition vma_alloc :: "vma list \<Rightarrow> nat option" where
  "vma_alloc vs = first_idx (\<lambda>v. \<not> v_used v) vs"

definition vma_find :: "vma list \<Rightarrow> u64 \<Rightarrow> nat option" where
  "vma_find vs addr = first_idx (\<lambda>v. v_used v \<and> v_start v \<le> addr \<and> addr < v_end v) vs"

definition vma_add :: "vma list \<Rightarrow> u64 \<Rightarrow> u64 \<Rightarrow> u32 \<Rightarrow> u32 \<Rightarrow> int \<times> vma list" where
  "vma_add vs start end flags type =
     (case vma_alloc vs of
        None \<Rightarrow> (- 1, vs)
      | Some i \<Rightarrow> (0, vs[i := \<lparr>v_start = start, v_end = end, v_flags = flags, v_type = type,
                              v_shm_id = - 1, v_used = True\<rparr>]))"

definition vma_remove :: "vma list \<Rightarrow> u64 \<Rightarrow> u64 \<Rightarrow> vma list" where
  "vma_remove vs start end =
     map (\<lambda>v. if v_used v \<and> start \<le> v_start v \<and> v_end v \<le> end then v\<lparr>v_used := False\<rparr> else v) vs"

definition vma_copy :: "vma list \<Rightarrow> vma list" where
  "vma_copy src = src"

definition vma_overlaps :: "u64 \<Rightarrow> u64 \<Rightarrow> vma \<Rightarrow> bool" where
  "vma_overlaps addr sz v \<longleftrightarrow> v_used v \<and> addr < v_end v \<and> v_start v < addr + sz"

partial_function (option) vma_find_loop :: "vma list \<Rightarrow> u64 \<Rightarrow> u64 \<Rightarrow> u64 option" where
  "vma_find_loop vs sz addr =
     (if addr + sz \<le> MMAP_END
      then (case first_idx (vma_overlaps addr sz) vs of
              None \<Rightarrow> Some addr
            | Some i \<Rightarrow> vma_find_loop vs sz (page_align_up (v_end (vs ! i))))
      else Some 0)"

definition vma_find_free :: "vma list \<Rightarrow> u64 \<Rightarrow> u64 option" where
  "vma_find_free vs sz = vma_find_loop vs (page_align_up sz) MMAP_BASE"

section \<open>Shared memory\<close>

record shm_segment =
  s_name :: cstring
  s_pages :: "u64 list"
  num_pages :: u32
  ref_count :: u32
  s_used :: bool

record shm_state =
  shm_table :: "shm_segment list"
  shm_pmm :: pmm_state
  shm_mem :: bytes

definition SHM_MAX_SEGMENTS :: nat where
  "SHM_MAX_SEGMENTS = 16"

definition SHM_NAME_MAX :: nat where
  "SHM_NAME_MAX = 32"

definition SHM_MAX_PAGES :: nat where
  "SHM_MAX_PAGES = 256"

definition shm_init :: "shm_state \<Rightarrow> shm_state" where
  "shm_init st = st\<lparr>shm_table := replicate SHM_MAX_SEGMENTS
     \<lparr>s_name = [], s_pages = replicate SHM_MAX_PAGES 0, num_pages = 0, ref_count = 0, s_used = False\<rparr>\<rparr>"

definition shm_find :: "shm_state \<Rightarrow> cstring \<Rightarrow> int" where
  "shm_find st name =
     (case first_idx (\<lambda>s. s_used s \<and> s_name s = name) (shm_table st) of
        Some i \<Rightarrow> int i | None \<Rightarrow> - 1)"

text \<open>
  The loop of \<^verbatim>\<open>shm_create\<close> clears each frame right after taking it; clearing a frame does not touch the
  allocator, so all the frames taken are cleared here after the loop.
\<close>

definition shm_create :: "cstring \<Rightarrow> u32 \<Rightarrow> shm_state \<Rightarrow> int \<times> shm_state" where
  "shm_create name n st =
     (if n = 0 \<or> of_nat SHM_MAX_PAGES < n then (- 1, st)
      else if 0 \<le> shm_find st name then (shm_find st name, st)
      else
        case first_idx (\<lambda>s. \<not> s_used s) (shm_table st) of
          None \<Rightarrow> (- 1, st)
        | Some slot \<Rightarrow>
            (let (pages, p1) = alloc_frames pmm_alloc_page (unat n) (shm_pmm st);
                 sg = (shm_table st ! slot)
                   \<lparr>s_name := field_copy SHM_NAME_MAX name, num_pages := n, ref_count := 0, s_used := True,
                    s_pages := pages @ drop (length pages) (s_pages (shm_table st ! slot))\<rparr>;
                 mem = fold (\<lambda>page. memset page 0 PAGE_SIZE) pages (shm_mem st)
             in if length pages < unat n
                then (- 1, st\<lparr>shm_table := (shm_table st)[slot := sg\<lparr>s_used := False\<rparr>],
                              shm_pmm := fold pmm_free_page pages p1, shm_mem := mem\<rparr>)
                else (int slot, st\<lparr>shm_table := (shm_table st)[slot := sg], shm_pmm := p1, shm_mem := mem\<rparr>)))"

definition shm_valid :: "shm_state \<Rightarrow> int \<Rightarrow> bool" where
  "shm_valid st sid \<longleftrightarrow> 0 \<le> sid \<and> sid < int SHM_MAX_SEGMENTS \<and> s_used (shm_table st ! nat sid)"

definition shm_ref :: "int \<Rightarrow> shm_state \<Rightarrow> int \<times> shm_state" where
  "shm_ref sid st =
     (if \<not> shm_valid st sid then (- 1, st)
      else (let sg = shm_table st ! nat sid
            in (0, st\<lparr>shm_table := (shm_table st)[nat sid := sg\<lparr>ref_count := ref_count sg + 1\<rparr>]\<rparr>)))"

definition shm_unref :: "int \<Rightarrow> shm_state \<Rightarrow> shm_state" where
  "shm_unref sid st =
     (if \<not> shm_valid st sid then st
      else
        (let sg = shm_table st ! nat sid;
             sg1 = (if 0 < ref_count sg then sg\<lparr>ref_count := ref_count sg - 1\<rparr> else sg)
         in if ref_count sg1 = 0
            then st\<lparr>shm_table := (shm_table st)[nat sid := sg1\<lparr>s_used := False\<rparr>],
                    shm_pmm := fold pmm_free_page (take (unat (num_pages sg1)) (s_pages sg1)) (shm_pmm st)\<rparr>
            else st\<lparr>shm_table := (shm_table st)[nat sid := sg1]\<rparr>))"

definition shm_get :: "int \<Rightarrow> shm_state \<Rightarrow> shm_segment option" where
  "shm_get sid st = (if \<not> shm_valid st sid then None else Some (shm_table st ! nat sid))"

section \<open>First fit in the mmap region\<close>

text \<open>
  \<open>fits vs n a\<close>: the range of \<open>n\<close> bytes at the page-aligned address \<open>a\<close> lies in the mmap region
  and meets no area in use.
\<close>

definition fits :: "vma list \<Rightarrow> nat \<Rightarrow> nat \<Rightarrow> bool" where
  "fits vs n a \<longleftrightarrow> 0x10000000 \<le> a \<and> a + n \<le> 0x70000000 \<and> 4096 dvd a \<and>
     (\<forall>v \<in> set vs. v_used v \<longrightarrow> unat (v_end v) \<le> a \<or> a + n \<le> unat (v_start v))"

lemma page_align_up_ge:
  assumes "unat a + 4095 < 2 ^ 64"
  shows "unat a \<le> unat (page_align_up a)" and "4096 dvd unat (page_align_up a)"
    and "4096 dvd b \<Longrightarrow> unat a \<le> b \<Longrightarrow> unat (page_align_up a) \<le> b"
proof -
  note u = unat_page_align_up [OF assms]
  show "unat a \<le> unat (page_align_up a)"
    unfolding u using div_mult_mod_eq [of "unat a + 4095" 4096] mod_less_divisor [of 4096 "unat a + 4095"]
    by linarith
  show "4096 dvd unat (page_align_up a)"
    unfolding u by simp
  assume "4096 dvd b" "unat a \<le> b"
  then show "unat (page_align_up a) \<le> b"
    unfolding u using align_up_le [of "unat a" "b div 4096"] by simp
qed

lemma vma_find_loop_spec:
  assumes "\<forall>v \<in> set vs. v_used v \<longrightarrow> unat (v_end v) \<le> 2 ^ 47"
    and "0 < unat sz \<and> unat sz < 2 ^ 62" and "unat addr < 2 ^ 63" and "4096 dvd unat addr" and "0x10000000 \<le> unat addr"
    and "\<forall>a. fits vs (unat sz) a \<longrightarrow> unat addr \<le> a"
  shows "\<exists>r. vma_find_loop vs sz addr = Some r \<and>
     (r = 0 \<and> (\<forall>a. \<not> fits vs (unat sz) a) \<or>
      fits vs (unat sz) (unat r) \<and> (\<forall>a. fits vs (unat sz) a \<longrightarrow> unat r \<le> a))"
  using assms
proof (induction "0x70000000 - unat addr" arbitrary: addr rule: less_induct)
  case less
  have us: "unat (addr + sz) = unat addr + unat sz"
    using less.prems(2,3) by (simp add: unat_add_no_overflow)
  have le: "addr + sz \<le> MMAP_END \<longleftrightarrow> unat addr + unat sz \<le> 0x70000000"
    unfolding word_le_nat_alt us MMAP_END_def by simp
  have ov: "vma_overlaps addr sz v \<longleftrightarrow> v_used v \<and> unat addr < unat (v_end v) \<and> unat (v_start v) < unat addr + unat sz" for v
    unfolding vma_overlaps_def word_less_nat_alt us ..
  show ?case
  proof (cases "unat addr + unat sz \<le> 0x70000000")
    case False
    have "\<not> fits vs (unat sz) a" for a
      using False less.prems(6) by (force simp: fits_def)
    then show ?thesis
      using False le by (simp add: vma_find_loop.simps)
  next
    case True
    show ?thesis
    proof (cases "first_idx (vma_overlaps addr sz) vs")
      case None
      then have "\<forall>v \<in> set vs. \<not> vma_overlaps addr sz v"
        by simp
      then have "fits vs (unat sz) (unat addr)"
        using True less.prems(4,5) unfolding ov fits_def by auto
      moreover have "vma_find_loop vs sz addr = Some addr"
        using None True le by (subst vma_find_loop.simps) (simp del: first_idx_None_iff)
      ultimately show ?thesis
        using less.prems(6) by blast
    next
      case (Some i)
      define v where "v = vs ! i"
      have v: "v \<in> set vs" "v_used v" "unat addr < unat (v_end v)" "unat (v_start v) < unat addr + unat sz"
        using first_idx_SomeD [OF Some] by (auto simp: ov v_def)
      have ve: "unat (v_end v) \<le> 2 ^ 47"
        using less.prems(1) v by blast
      have b: "unat (v_end v) + 4095 < 2 ^ 64"
        using ve by simp
      define addr' where "addr' = page_align_up (v_end v)"
      note al = page_align_up_ge [OF b, folded addr'_def]
      have step: "vma_find_loop vs sz addr = vma_find_loop vs sz addr'"
        using Some True le by (subst vma_find_loop.simps) (simp add: v_def addr'_def)
      have next_fit: "unat addr' \<le> a" if "fits vs (unat sz) a" for a
      proof -
        have "unat (v_end v) \<le> a"
          using that v less.prems(6) by (force simp: fits_def)
        then show ?thesis
          using al(3) that by (simp add: fits_def)
      qed
      have "unat addr' \<le> 2 ^ 47 + 4096"
        using al(3) [of "2 ^ 47"] ve by simp
      then show ?thesis
        unfolding step using al(1,2) v(3) less.prems next_fit True
        by (intro less.hyps) auto
    qed
  qed
qed

section \<open>Frames of a segment\<close>

lemma memset_loop_keeps_zero: "m a = 0 \<Longrightarrow> memset_loop n p 0 m a = 0"
  by (induction n arbitrary: p m) auto

lemma memset_loop_zero: "i < n \<Longrightarrow> memset_loop n p 0 m (p + of_nat i) = 0"
proof (induction n arbitrary: i p m)
  case (Suc n)
  then show ?case
    using Suc.IH [of "i - 1" "p + 1"] by (cases i) (auto simp: memset_loop_keeps_zero add.assoc)
qed simp

lemma frames_cleared:
  assumes "p \<in> set ps" and "i < 4096"
  shows "fold (\<lambda>page. memset page 0 PAGE_SIZE) (map (\<lambda>p. p * PAGE_SIZE) ps) m (p * PAGE_SIZE + of_nat i) = 0"
proof -
  have keep: "m a = 0 \<Longrightarrow> fold (\<lambda>page. memset page 0 PAGE_SIZE) qs m a = 0" for m a qs
    by (induction qs arbitrary: m) (auto simp: memset_def memset_loop_keeps_zero)
  have "memset q 0 PAGE_SIZE m (q + of_nat i) = 0" for q m
    using assms(2) by (simp add: memset_def memset_loop_zero)
  then show ?thesis
    using assms(1) by (induction ps arbitrary: m) (auto simp: keep)
qed

lemma shm_create_fresh:
  assumes "pmm_inv (shm_pmm st)" and "shm_find st name < 0" and "shm_create name n st = (r, st')" and "0 \<le> r"
  shows "\<exists>sg ps. nat r < length (shm_table st) \<and> \<not> s_used (shm_table st ! nat r) \<and>
     shm_table st' = (shm_table st)[nat r := sg] \<and> s_used sg \<and> ref_count sg = 0 \<and>
     s_name sg = field_copy SHM_NAME_MAX name \<and> num_pages sg = n \<and> length ps = unat n \<and>
     take (unat n) (s_pages sg) = map (\<lambda>p. p * PAGE_SIZE) ps \<and> distinct ps \<and> set ps \<subseteq> free_pages (shm_pmm st) \<and>
     pmm_inv (shm_pmm st') \<and> free_pages (shm_pmm st') = free_pages (shm_pmm st) - set ps \<and>
     total_pages (shm_pmm st') = total_pages (shm_pmm st) \<and>
     shm_mem st' = fold (\<lambda>page. memset page 0 PAGE_SIZE) (map (\<lambda>p. p * PAGE_SIZE) ps) (shm_mem st)"
proof -
  obtain slot where slot: "first_idx (\<lambda>s. \<not> s_used s) (shm_table st) = Some slot"
    using assms(2-4) by (auto simp: shm_create_def split: if_splits option.splits)
  obtain pages p1 where al: "alloc_frames pmm_alloc_page (unat n) (shm_pmm st) = (pages, p1)"
    by fastforce
  have full: "\<not> length pages < unat n" and r: "r = int slot"
    and st': "shm_table st' = (shm_table st)[slot := (shm_table st ! slot)
                   \<lparr>s_name := field_copy SHM_NAME_MAX name, num_pages := n, ref_count := 0, s_used := True,
                    s_pages := pages @ drop (length pages) (s_pages (shm_table st ! slot))\<rparr>]"
       "shm_pmm st' = p1" "shm_mem st' = fold (\<lambda>page. memset page 0 PAGE_SIZE) pages (shm_mem st)"
    using assms(2-4) slot al by (auto simp: shm_create_def Let_def split: if_splits)
  obtain ps where ps: "pages = map (\<lambda>p. p * PAGE_SIZE) ps" "distinct ps" "set ps \<subseteq> free_pages (shm_pmm st)"
      "pmm_inv p1" "free_pages p1 = free_pages (shm_pmm st) - set ps" "total_pages p1 = total_pages (shm_pmm st)"
      "length ps \<le> unat n"
    using pmm.alloc_frames_spec [OF assms(1) al] by blast
  have "length ps = unat n"
    using ps(1,7) full by simp
  then show ?thesis
    using first_idx_SomeD [OF slot] r st' ps
    by (intro exI [of _ "(shm_table st ! slot)
        \<lparr>s_name := field_copy SHM_NAME_MAX name, num_pages := n, ref_count := 0, s_used := True,
         s_pages := pages @ drop (length pages) (s_pages (shm_table st ! slot))\<rparr>"] exI [of _ ps])
      simp
qed

lemma shm_create_failed:
  assumes "pmm_inv (shm_pmm st)" and "shm_create name n st = (- 1, st')"
  shows "free_pages (shm_pmm st') = free_pages (shm_pmm st) \<and> pmm_inv (shm_pmm st') \<and>
     (\<forall>i < length (shm_table st). s_used (shm_table st' ! i) = s_used (shm_table st ! i))"
proof (cases "first_idx (\<lambda>s. \<not> s_used s) (shm_table st)")
  case None
  then show ?thesis
    using assms by (auto simp: shm_create_def Let_def shm_find_def simp del: first_idx_None_iff
        split: if_splits option.splits)
next
  case (Some slot)
  obtain pages p1 where al: "alloc_frames pmm_alloc_page (unat n) (shm_pmm st) = (pages, p1)"
    by fastforce
  show ?thesis
    using assms Some al pmm.alloc_frames_release [OF assms(1) al] first_idx_SomeD [OF Some]
    by (auto simp: shm_create_def Let_def nth_list_update split: if_splits)
qed

section \<open>Properties\<close>

text \<open>
  C15. \<open>vma_find_free\<close> is first fit: for areas below the 47-bit user limit and a request of at least one
  byte and less than \<open>2 ^ 61\<close> the search returns, its
  result is the lowest page-aligned address of the mmap region at which the request, rounded
  up to pages, overlaps no area in use, and it is 0 exactly when there is no such address.
\<close>
theorem vma_find_free_first_fit:
  assumes "\<forall>v \<in> set vs. v_used v \<longrightarrow> unat (v_end v) \<le> 2 ^ 47" and "0 < unat sz" and "unat sz < 2 ^ 61"
  shows "\<exists>r. vma_find_free vs sz = Some r \<and>
     (r = 0 \<and> (\<forall>a. \<not> fits vs (unat (page_align_up sz)) a) \<or>
      fits vs (unat (page_align_up sz)) (unat r) \<and>
      (\<forall>a. fits vs (unat (page_align_up sz)) a \<longrightarrow> unat r \<le> a))"
proof -
  have b: "unat sz + 4095 < 2 ^ 64"
    using assms(3) by simp
  note al = page_align_up_ge [OF b]
  have "unat (page_align_up sz) \<le> 2 ^ 61"
    using al(3) [of "2 ^ 61"] assms(3) by simp
  then have "0 < unat (page_align_up sz) \<and> unat (page_align_up sz) < 2 ^ 62"
    using al(1) assms(2) by simp
  then show ?thesis
    unfolding vma_find_free_def
    by (intro vma_find_loop_spec [OF assms(1)]) (simp_all add: MMAP_BASE_def fits_def)
qed

theorem vma_find_free_first_fit_witness:
  "\<exists>r. vma_find_free (vma_init_list[0 := \<lparr>v_start = 0x10000000, v_end = 0x10001000, v_flags = 3, v_type = 0,
      v_shm_id = - 1, v_used = True\<rparr>]) 100 = Some r"
proof -
  let ?vs = "vma_init_list[0 := \<lparr>v_start = 0x10000000, v_end = 0x10001000, v_flags = 3, v_type = 0,
      v_shm_id = - 1, v_used = True\<rparr>]"
  have "\<forall>v \<in> set ?vs. v_used v \<longrightarrow> unat (v_end v) \<le> 2 ^ 47"
    by (auto simp: vma_init_list_def VMA_MAX_PER_TASK_def dest!: set_update_subset_insert [THEN subsetD])
  then show ?thesis
    using vma_find_free_first_fit [of ?vs 100] by auto
qed

text \<open>
  C16. Creating a shared-memory segment that fails, for whatever reason, leaks nothing: the free
  frames of the page allocator are those from before the call and no segment becomes used.
\<close>
theorem shm_create_no_leak:
  assumes "pmm_inv (shm_pmm st)" and "shm_create name n st = (- 1, st')"
  shows "free_pages (shm_pmm st') = free_pages (shm_pmm st) \<and> pmm_inv (shm_pmm st') \<and>
     (\<forall>i < length (shm_table st). s_used (shm_table st' ! i) = s_used (shm_table st ! i))"
  by (rule shm_create_failed [OF assms])

definition sample_shm :: shm_state where
  "sample_shm = shm_init \<lparr>shm_table = [], shm_pmm = sample_pmm, shm_mem = \<lambda>_. 170\<rparr>"

lemma sample_shm_props:
  "shm_find sample_shm [97] < 0" "length (shm_table sample_shm) = SHM_MAX_SEGMENTS" "shm_pmm sample_shm = sample_pmm"
  "first_idx (\<lambda>s. \<not> s_used s) (shm_table sample_shm) = Some 0"
  by (simp_all add: shm_find_def sample_shm_def shm_init_def SHM_MAX_SEGMENTS_def first_idx_Some_iff)
    (simp add: first_idx_None_iff [THEN iffD2])

theorem shm_create_no_leak_witness:
  "\<exists>st'. shm_create [97] 16 sample_shm = (- 1, st') \<and> free_pages (shm_pmm st') = free_pages sample_pmm"
proof -
  obtain r st' where c: "shm_create [97] 16 sample_shm = (r, st')"
    by fastforce
  have inv: "pmm_inv (shm_pmm sample_shm)"
    by (simp add: sample_shm_props(3) sample_pmm_props(1))
  have "{p :: u64. 1 \<le> unat p \<and> unat p < 16} \<subseteq> of_nat ` {1 ..< 16}"
    by (auto intro!: image_eqI [where x = "unat _"])
  then have few: "card (free_pages sample_pmm) \<le> 15" "finite (free_pages sample_pmm)"
    unfolding sample_pmm_props(3) using surj_card_le [of "{1 ..< 16 :: nat}"] by (auto intro: finite_subset)
  have "\<not> 0 \<le> r"
  proof
    assume "0 \<le> r"
    then obtain ps where "length ps = 16" "distinct ps" "set ps \<subseteq> free_pages sample_pmm"
      using shm_create_fresh [OF inv sample_shm_props(1) c] unfolding sample_shm_props(3) by auto
    then show False
      using few card_mono [of "free_pages sample_pmm" "set ps"] by (simp add: distinct_card)
  qed
  moreover have "0 \<le> r \<or> r = - 1"
    using c unfolding shm_create_def Let_def by (auto split: if_splits option.splits prod.splits)
  ultimately show ?thesis
    using c shm_create_no_leak [OF inv] sample_shm_props(3) by auto
qed

text \<open>
  C17. The life of a segment: creating a new segment of \<open>n\<close> pages takes \<open>n\<close> distinct free frames,
  one reference keeps it alive, and dropping that reference frees the slot and gives back
  exactly those frames. Every byte of the new segment's frames is zero.
\<close>
theorem shm_lifecycle:
  assumes "pmm_inv (shm_pmm st)" and "length (shm_table st) = SHM_MAX_SEGMENTS"
    and "shm_find st name < 0" and "shm_create name n st = (r, st1)" and "0 \<le> r"
  shows "\<exists>ps st2. distinct ps \<and> length ps = unat n \<and> set ps \<subseteq> free_pages (shm_pmm st) \<and>
     free_pages (shm_pmm st1) = free_pages (shm_pmm st) - set ps \<and>
     (\<forall>p \<in> set ps. \<forall>i < 4096. shm_mem st1 (p * PAGE_SIZE + of_nat i) = 0) \<and> shm_ref r st1 = (0, st2) \<and>
     shm_get r st2 \<noteq> None \<and> shm_get r (shm_unref r st2) = None \<and>
     free_pages (shm_pmm (shm_unref r st2)) = free_pages (shm_pmm st) \<and>
     pmm_inv (shm_pmm (shm_unref r st2))"
proof -
  obtain sg ps where c: "nat r < length (shm_table st)"
      "shm_table st1 = (shm_table st)[nat r := sg]" "s_used sg" "ref_count sg = 0"
      "num_pages sg = n" "length ps = unat n" "take (unat n) (s_pages sg) = map (\<lambda>p. p * PAGE_SIZE) ps"
      "distinct ps" "set ps \<subseteq> free_pages (shm_pmm st)" "pmm_inv (shm_pmm st1)"
      "free_pages (shm_pmm st1) = free_pages (shm_pmm st) - set ps"
      "total_pages (shm_pmm st1) = total_pages (shm_pmm st)"
      "shm_mem st1 = fold (\<lambda>page. memset page 0 PAGE_SIZE) (map (\<lambda>p. p * PAGE_SIZE) ps) (shm_mem st)"
    using shm_create_fresh [OF assms(1,3,4,5)] by blast
  define st2 where "st2 = st1\<lparr>shm_table := (shm_table st1)[nat r := sg\<lparr>ref_count := 1\<rparr>]\<rparr>"
  have ref: "shm_ref r st1 = (0, st2)"
    using c assms(2,5) by (simp add: shm_ref_def shm_valid_def st2_def Let_def)
  have un: "shm_unref r st2 = st2\<lparr>shm_table := (shm_table st2)[nat r := sg\<lparr>ref_count := 0, s_used := False\<rparr>],
        shm_pmm := fold pmm_free_page (map (\<lambda>p. p * PAGE_SIZE) ps) (shm_pmm st1)\<rparr>"
    using c assms(2,5) by (simp add: shm_unref_def shm_valid_def st2_def Let_def)
  have "\<forall>p \<in> set ps. p \<noteq> 0 \<and> p < total_pages (shm_pmm st1)"
    using c(9,12) pmm.frames_range [OF assms(1)] by auto
  from pmm.release_all [OF c(10) this]
  have "pmm_inv (shm_pmm (shm_unref r st2))" "free_pages (shm_pmm (shm_unref r st2)) = free_pages (shm_pmm st)"
    using c(9,11) by (auto simp: un)
  moreover have "shm_get r st2 \<noteq> None" "shm_get r (shm_unref r st2) = None"
    using c assms(2,5) unfolding un by (simp_all add: shm_get_def shm_valid_def st2_def)
  moreover have "\<forall>p \<in> set ps. \<forall>i < 4096. shm_mem st1 (p * PAGE_SIZE + of_nat i) = 0"
    unfolding c(13) by (simp add: frames_cleared)
  ultimately show ?thesis
    using c ref by blast
qed

theorem shm_lifecycle_witness:
  "\<exists>st1 st2. shm_create [97] 1 sample_shm = (0, st1) \<and> shm_ref 0 st1 = (0, st2) \<and>
     free_pages (shm_pmm (shm_unref 0 st2)) = free_pages sample_pmm"
proof -
  have "free_pages sample_pmm \<noteq> {}"
    using sample_pmm_free by blast
  then have "fst (pmm_alloc_page sample_pmm) \<noteq> 0"
    using pmm.alloc_null_iff [OF sample_pmm_props(1)] by simp
  then obtain a p1 where a: "pmm_alloc_page sample_pmm = (a, p1)" "a \<noteq> 0"
    by (cases "pmm_alloc_page sample_pmm") auto
  note f = sample_shm_props(1) and len = sample_shm_props(2) and pm = sample_shm_props(3) and z = sample_shm_props(4)
  obtain st1 where c: "shm_create [97] 1 sample_shm = (0, st1)"
    using a f z pm by (simp add: shm_create_def Let_def SHM_MAX_PAGES_def)
  have "pmm_inv (shm_pmm sample_shm)"
    using sample_pmm_props(1) pm by simp
  from shm_lifecycle [OF this len f c] show ?thesis
    using c pm by auto
qed

end
