(* ===== verification/BCache.thy ===== *)
theory BCache
  imports PlantPrelude
begin

text \<open>
  The disk driver's sector transfers, \<^verbatim>\<open>drivers/ata.c\<close>, and the buffer cache over them,
  \<^verbatim>\<open>fs/bcache.c\<close>. The drive is a parameter of the state: whether it is present, the contents of
  its sectors and the sectors on which a transfer reports an error. The cache has 64 entries
  with least-recently-used replacement. \<open>bview\<close> is what a client sees, the cached copy of a
  sector or else the one on disk; the interface \<open>sector_store\<close> says that reads and writes act
  on it like on an array and that a sync makes the disk equal to it.
\<close>

section \<open>The drive\<close>

type_synonym sector = "u8 list"

record ata =
  disk_present :: bool
  sectors :: "u32 \<Rightarrow> sector"
  bad_sector :: "u32 \<Rightarrow> bool"

text \<open>Only 28 bits of the sector number reach the drive.\<close>

definition lba28 :: "u32 \<Rightarrow> u32" where
  "lba28 lba = lba AND 0xFFFFFFF"

fun ata_read_loop :: "nat \<Rightarrow> u32 \<Rightarrow> ata \<Rightarrow> sector list option" where
  "ata_read_loop 0 lba d = Some []"
| "ata_read_loop (Suc n) lba d =
     (if bad_sector d lba then None
      else map_option (\<lambda>ss. sectors d lba # ss) (ata_read_loop n (lba + 1) d))"

definition ata_read_sectors :: "u32 \<Rightarrow> u8 \<Rightarrow> ata \<Rightarrow> sector list option" where
  "ata_read_sectors lba count d =
     (if \<not> disk_present d \<or> count = 0 then None else ata_read_loop (unat count) (lba28 lba) d)"

fun ata_write_loop :: "u32 \<Rightarrow> sector list \<Rightarrow> ata \<Rightarrow> bool \<times> ata" where
  "ata_write_loop lba [] d = (True, d)"
| "ata_write_loop lba (s # ss) d =
     (if bad_sector d lba then (False, d)
      else ata_write_loop (lba + 1) ss (d\<lparr>sectors := (sectors d)(lba := s)\<rparr>))"

definition ata_write_sectors :: "u32 \<Rightarrow> sector list \<Rightarrow> ata \<Rightarrow> bool \<times> ata" where
  "ata_write_sectors lba ss d =
     (if \<not> disk_present d \<or> ss = [] then (False, d) else ata_write_loop (lba28 lba) ss d)"

section \<open>The cache\<close>

definition BCACHE_SIZE :: nat where
  "BCACHE_SIZE = 64"

definition SECTOR_SIZE :: nat where
  "SECTOR_SIZE = 512"

record bcache_entry =
  b_lba :: u32
  b_data :: sector
  b_valid :: bool
  b_dirty :: bool
  access_tick :: u32

record bcache =
  cache :: "bcache_entry list"
  tick_counter :: u32
  hits :: u32
  misses :: u32
  drive :: ata

definition bcache_entry_zero :: bcache_entry where
  "bcache_entry_zero = \<lparr>b_lba = 0, b_data = replicate SECTOR_SIZE 0, b_valid = False, b_dirty = False,
     access_tick = 0\<rparr>"

definition bcache_init :: "bcache \<Rightarrow> bcache" where
  "bcache_init st = st\<lparr>cache := replicate BCACHE_SIZE bcache_entry_zero, tick_counter := 0, hits := 0,
     misses := 0\<rparr>"

definition bcache_find :: "bcache \<Rightarrow> u32 \<Rightarrow> nat option" where
  "bcache_find st lba = first_idx (\<lambda>e. b_valid e \<and> b_lba e = lba) (cache st)"

definition bcache_lru :: "bcache_entry list \<Rightarrow> nat" where
  "bcache_lru c = fold (\<lambda>i lru. if access_tick (c ! i) < access_tick (c ! lru) then i else lru) [1..<BCACHE_SIZE] 0"

definition bcache_evict :: "bcache \<Rightarrow> nat \<times> bcache" where
  "bcache_evict st =
     (case first_idx (\<lambda>e. \<not> b_valid e) (cache st) of
        Some i \<Rightarrow> (i, st)
      | None \<Rightarrow>
          (let i = bcache_lru (cache st);
               e = cache st ! i;
               (e1, d1) = (if b_dirty e
                           then (e\<lparr>b_dirty := False\<rparr>, snd (ata_write_sectors (b_lba e) [b_data e] (drive st)))
                           else (e, drive st))
           in (i, st\<lparr>cache := (cache st)[i := e1\<lparr>b_valid := False\<rparr>], drive := d1\<rparr>)))"

text \<open>
  \<open>bcache_read\<close> returns the index of the entry whose data the caller gets a pointer to, or
  nothing. A failed transfer leaves the entry invalid.
\<close>

definition bcache_read :: "u32 \<Rightarrow> bcache \<Rightarrow> nat option \<times> bcache" where
  "bcache_read lba st =
     (case bcache_find st lba of
        Some i \<Rightarrow>
          (let t = tick_counter st + 1
           in (Some i, st\<lparr>hits := hits st + 1, tick_counter := t,
                          cache := (cache st)[i := (cache st ! i)\<lparr>access_tick := t\<rparr>]\<rparr>))
      | None \<Rightarrow>
          (let (i, st1) = bcache_evict (st\<lparr>misses := misses st + 1\<rparr>)
           in case ata_read_sectors lba 1 (drive st1) of
                None \<Rightarrow> (None, st1)
              | Some ss \<Rightarrow>
                  (let t = tick_counter st1 + 1
                   in (Some i, st1\<lparr>tick_counter := t,
                         cache := (cache st1)[i := \<lparr>b_lba = lba, b_data = hd ss, b_valid = True, b_dirty = False,
                                                    access_tick = t\<rparr>]\<rparr>))))"

definition bcache_mark_dirty :: "u32 \<Rightarrow> bcache \<Rightarrow> bcache" where
  "bcache_mark_dirty lba st =
     (case bcache_find st lba of
        None \<Rightarrow> st
      | Some i \<Rightarrow> st\<lparr>cache := (cache st)[i := (cache st ! i)\<lparr>b_dirty := True\<rparr>]\<rparr>)"

definition bcache_write :: "u32 \<Rightarrow> sector \<Rightarrow> bcache \<Rightarrow> bcache" where
  "bcache_write lba data st =
     (let (i, st1) =
        (case bcache_find st lba of
           Some i \<Rightarrow> (i, st)
         | None \<Rightarrow>
             (let (i, s1) = bcache_evict st; t = tick_counter s1 + 1
              in (i, s1\<lparr>tick_counter := t,
                        cache := (cache s1)[i := (cache s1 ! i)\<lparr>b_lba := lba, b_valid := True, access_tick := t\<rparr>]\<rparr>)));
          t = tick_counter st1 + 1
      in st1\<lparr>tick_counter := t,
             cache := (cache st1)[i := (cache st1 ! i)\<lparr>b_data := data, b_dirty := True, access_tick := t\<rparr>]\<rparr>)"

fun bcache_sync_loop :: "nat list \<Rightarrow> int \<Rightarrow> bcache \<Rightarrow> int \<times> bcache" where
  "bcache_sync_loop [] n st = (n, st)"
| "bcache_sync_loop (i # is) n st =
     (let e = cache st ! i in
      if b_valid e \<and> b_dirty e
      then (case ata_write_sectors (b_lba e) [b_data e] (drive st) of
              (False, d) \<Rightarrow> (- 1, st\<lparr>drive := d\<rparr>)
            | (True, d) \<Rightarrow>
                bcache_sync_loop is (n + 1) (st\<lparr>drive := d, cache := (cache st)[i := e\<lparr>b_dirty := False\<rparr>]\<rparr>))
      else bcache_sync_loop is n st)"

definition bcache_sync :: "bcache \<Rightarrow> int \<times> bcache" where
  "bcache_sync st = bcache_sync_loop [0..<BCACHE_SIZE] 0 st"

definition bcache_invalidate :: "bcache \<Rightarrow> bcache" where
  "bcache_invalidate st =
     (snd (bcache_sync st))\<lparr>cache := replicate BCACHE_SIZE bcache_entry_zero\<rparr>"

definition bcache_get_hits :: "bcache \<Rightarrow> u32" where
  "bcache_get_hits st = hits st"

definition bcache_get_misses :: "bcache \<Rightarrow> u32" where
  "bcache_get_misses st = misses st"

section \<open>What a client sees\<close>

definition bview :: "bcache \<Rightarrow> u32 \<Rightarrow> sector" where
  "bview st lba =
     (case bcache_find st lba of Some i \<Rightarrow> b_data (cache st ! i) | None \<Rightarrow> sectors (drive st) lba)"

definition drive_ok :: "ata \<Rightarrow> bool" where
  "drive_ok d \<longleftrightarrow> disk_present d \<and> (\<forall>l. \<not> bad_sector d l)"

definition bcache_inv :: "bcache \<Rightarrow> bool" where
  "bcache_inv st \<longleftrightarrow> length (cache st) = BCACHE_SIZE \<and> drive_ok (drive st) \<and>
     (\<forall>i < BCACHE_SIZE. b_valid (cache st ! i) \<longrightarrow>
        unat (b_lba (cache st ! i)) < 2 ^ 28 \<and>
        (\<not> b_dirty (cache st ! i) \<longrightarrow> b_data (cache st ! i) = sectors (drive st) (b_lba (cache st ! i))) \<and>
        (\<forall>j < BCACHE_SIZE. b_valid (cache st ! j) \<longrightarrow> b_lba (cache st ! j) = b_lba (cache st ! i) \<longrightarrow> j = i))"

lemma bcache_inv_lba: "bcache_inv st \<Longrightarrow> i < BCACHE_SIZE \<Longrightarrow> b_valid (cache st ! i) \<Longrightarrow> unat (b_lba (cache st ! i)) < 2 ^ 28"
  unfolding bcache_inv_def by blast

lemma bcache_inv_clean:
  "bcache_inv st \<Longrightarrow> i < BCACHE_SIZE \<Longrightarrow> b_valid (cache st ! i) \<Longrightarrow> \<not> b_dirty (cache st ! i) \<Longrightarrow>
     b_data (cache st ! i) = sectors (drive st) (b_lba (cache st ! i))"
  unfolding bcache_inv_def by blast

lemma bcache_inv_unique:
  "bcache_inv st \<Longrightarrow> i < BCACHE_SIZE \<Longrightarrow> b_valid (cache st ! i) \<Longrightarrow> j < BCACHE_SIZE \<Longrightarrow> b_valid (cache st ! j) \<Longrightarrow>
     b_lba (cache st ! j) = b_lba (cache st ! i) \<Longrightarrow> j = i"
  unfolding bcache_inv_def by blast

lemma bcache_inv_len: "bcache_inv st \<Longrightarrow> length (cache st) = BCACHE_SIZE"
  and bcache_inv_drive: "bcache_inv st \<Longrightarrow> drive_ok (drive st)"
  unfolding bcache_inv_def by blast+

lemma bcache_invI:
  assumes "length (cache st) = BCACHE_SIZE" and "drive_ok (drive st)"
    and "\<And>i. i < BCACHE_SIZE \<Longrightarrow> b_valid (cache st ! i) \<Longrightarrow> unat (b_lba (cache st ! i)) < 2 ^ 28"
    and "\<And>i. i < BCACHE_SIZE \<Longrightarrow> b_valid (cache st ! i) \<Longrightarrow> \<not> b_dirty (cache st ! i) \<Longrightarrow>
      b_data (cache st ! i) = sectors (drive st) (b_lba (cache st ! i))"
    and "\<And>i j. i < BCACHE_SIZE \<Longrightarrow> b_valid (cache st ! i) \<Longrightarrow> j < BCACHE_SIZE \<Longrightarrow> b_valid (cache st ! j) \<Longrightarrow>
      b_lba (cache st ! j) = b_lba (cache st ! i) \<Longrightarrow> j = i"
  shows "bcache_inv st"
  using assms unfolding bcache_inv_def by blast

lemma lba28_id: "unat lba < 2 ^ 28 \<Longrightarrow> lba28 lba = lba"
proof -
  assume "unat lba < 2 ^ 28"
  then have "take_bit 28 lba = lba"
    by (simp add: word_unat_eq_iff unsigned_take_bit_eq take_bit_nat_eq_self)
  moreover have "lba AND 0xFFFFFFF = take_bit 28 lba"
    by (simp add: take_bit_eq_mask mask_eq_exp_minus_1)
  ultimately show ?thesis
    by (simp add: lba28_def)
qed

lemma bcache_find_Some:
  assumes "bcache_inv st"
  shows "bcache_find st lba = Some i \<longleftrightarrow> i < BCACHE_SIZE \<and> b_valid (cache st ! i) \<and> b_lba (cache st ! i) = lba"
proof
  assume "bcache_find st lba = Some i"
  then show "i < BCACHE_SIZE \<and> b_valid (cache st ! i) \<and> b_lba (cache st ! i) = lba"
    using assms first_idx_SomeD by (fastforce simp: bcache_find_def bcache_inv_def)
next
  assume i: "i < BCACHE_SIZE \<and> b_valid (cache st ! i) \<and> b_lba (cache st ! i) = lba"
  have "\<forall>j < i. \<not> (b_valid (cache st ! j) \<and> b_lba (cache st ! j) = lba)"
    using assms i unfolding bcache_inv_def by (metis less_trans nat_neq_iff)
  then show "bcache_find st lba = Some i"
    using assms i unfolding bcache_find_def by (intro first_idx_SomeI) (auto simp: bcache_inv_def)
qed

lemma bcache_find_None:
  assumes "bcache_inv st"
  shows "bcache_find st lba = None \<longleftrightarrow> (\<forall>i < BCACHE_SIZE. \<not> (b_valid (cache st ! i) \<and> b_lba (cache st ! i) = lba))"
  using bcache_find_Some [OF assms, of lba] by (cases "bcache_find st lba") auto

lemma set_entry:
  assumes inv: "bcache_inv st" and i: "i < BCACHE_SIZE"
    and e: "b_valid e" "unat (b_lba e) < 2 ^ 28" "\<not> b_dirty e \<Longrightarrow> b_data e = sectors (drive st) (b_lba e)"
    and slot: "bcache_find st (b_lba e) = Some i \<or> \<not> b_valid (cache st ! i) \<and> bcache_find st (b_lba e) = None"
    and st': "cache st' = (cache st)[i := e]" "drive st' = drive st"
  shows "bcache_inv st'" and "bview st' = (bview st)(b_lba e := b_data e)"
proof -
  have len: "length (cache st) = BCACHE_SIZE"
    using inv by (simp add: bcache_inv_def)
  have at: "cache st' ! j = (if j = i then e else cache st ! j)" if "j < BCACHE_SIZE" for j
    using that len i by (simp add: st' nth_list_update)
  have uniq: "\<not> (b_valid (cache st ! j) \<and> b_lba (cache st ! j) = b_lba e)" if "j < BCACHE_SIZE" "j \<noteq> i" for j
    using slot that bcache_find_Some [OF inv, of "b_lba e" j] by auto
  show inv': "bcache_inv st'"
  proof (rule bcache_invI)
    show "length (cache st') = BCACHE_SIZE" "drive_ok (drive st')"
      using bcache_inv_drive [OF inv] len by (simp_all add: st')
    fix k assume k: "k < BCACHE_SIZE" "b_valid (cache st' ! k)"
    show "unat (b_lba (cache st' ! k)) < 2 ^ 28"
      using k bcache_inv_lba [OF inv, of k] e(2) by (cases "k = i") (simp_all add: at)
    show "b_data (cache st' ! k) = sectors (drive st') (b_lba (cache st' ! k))" if "\<not> b_dirty (cache st' ! k)"
      using that k bcache_inv_clean [OF inv, of k] e(3) by (cases "k = i") (simp_all add: at st'(2))
    fix j assume j: "j < BCACHE_SIZE" "b_valid (cache st' ! j)" "b_lba (cache st' ! j) = b_lba (cache st' ! k)"
    show "j = k"
      using j k uniq [of j] uniq [of k] bcache_inv_unique [OF inv, of k j]
      by (cases "j = i"; cases "k = i") (simp_all add: at)
  qed
  show "bview st' = (bview st)(b_lba e := b_data e)"
  proof
    fix l
    show "bview st' l = ((bview st)(b_lba e := b_data e)) l"
    proof (cases "l = b_lba e")
      case True
      have "bcache_find st' l = Some i"
        using bcache_find_Some [OF inv', of l i] i e at True by simp
      then show ?thesis
        using True at i by (simp add: bview_def)
    next
      case False
      have keep: "bcache_find st' l = Some j \<longleftrightarrow> bcache_find st l = Some j" for j
      proof (cases "j = i")
        case True
        then show ?thesis
          using bcache_find_Some [OF inv', of l i] bcache_find_Some [OF inv, of l i] at i e False slot
            bcache_find_Some [OF inv, of "b_lba e" i] by auto
      next
        case False
        then show ?thesis
          using bcache_find_Some [OF inv', of l j] bcache_find_Some [OF inv, of l j] at by auto
      qed
      then have "bcache_find st' l = bcache_find st l"
        by (metis option.exhaust)
      moreover have "cache st' ! j = cache st ! j" if "bcache_find st l = Some j" for j
        using that keep [of j] False bcache_find_Some [OF inv', of l j] at by (auto split: if_splits)
      ultimately show ?thesis
        using False st'(2) by (simp add: bview_def split: option.splits)
    qed
  qed
qed

lemma lru_less: "bcache_lru c < BCACHE_SIZE"
proof -
  have "fold (\<lambda>i lru. if access_tick (c ! i) < access_tick (c ! lru) then i else lru) xs k < BCACHE_SIZE"
    if "\<forall>x \<in> set xs. x < BCACHE_SIZE" "k < BCACHE_SIZE" for xs k
    using that by (induction xs arbitrary: k) auto
  then show ?thesis
    unfolding bcache_lru_def by (simp add: BCACHE_SIZE_def)
qed

lemma ata_write_one:
  assumes "drive_ok d" and "unat lba < 2 ^ 28"
  shows "ata_write_sectors lba [s] d = (True, d\<lparr>sectors := (sectors d)(lba := s)\<rparr>)"
  using assms by (simp add: ata_write_sectors_def drive_ok_def lba28_id)

lemma ata_read_one:
  assumes "drive_ok d" and "unat lba < 2 ^ 28"
  shows "ata_read_sectors lba 1 d = Some [sectors d lba]"
  using assms by (simp add: ata_read_sectors_def drive_ok_def lba28_id)

lemma bview_cong: "cache st' = cache st \<Longrightarrow> drive st' = drive st \<Longrightarrow> bview st' = bview st"
  unfolding bview_def bcache_find_def by (simp cong: option.case_cong)

lemma bview_cached:
  "bcache_inv st \<Longrightarrow> i < BCACHE_SIZE \<Longrightarrow> b_valid (cache st ! i) \<Longrightarrow> bview st (b_lba (cache st ! i)) = b_data (cache st ! i)"
  using bcache_find_Some [of st "b_lba (cache st ! i)" i] by (simp add: bview_def)

lemma bview_uncached:
  "bcache_inv st \<Longrightarrow> (\<And>i. i < BCACHE_SIZE \<Longrightarrow> b_valid (cache st ! i) \<Longrightarrow> b_lba (cache st ! i) \<noteq> l) \<Longrightarrow>
     bview st l = sectors (drive st) l"
  using bcache_find_None [of st l] by (simp add: bview_def)

lemma flush_entry:
  assumes inv: "bcache_inv st" and i: "i < BCACHE_SIZE" "b_valid (cache st ! i)"
    and st': "cache st' = (cache st)[i := (cache st ! i)\<lparr>b_dirty := False\<rparr>]"
      "drive st' = (drive st)\<lparr>sectors := (sectors (drive st))(b_lba (cache st ! i) := b_data (cache st ! i))\<rparr>"
  shows "bcache_inv st'" and "bview st' = bview st"
proof -
  have at: "cache st' ! j = (if j = i then (cache st ! i)\<lparr>b_dirty := False\<rparr> else cache st ! j)" if "j < BCACHE_SIZE" for j
    using that i bcache_inv_len [OF inv] by (simp add: st' nth_list_update)
  have same: "b_valid (cache st' ! j) = b_valid (cache st ! j)" "b_lba (cache st' ! j) = b_lba (cache st ! j)"
      "b_data (cache st' ! j) = b_data (cache st ! j)" if "j < BCACHE_SIZE" for j
    using that by (simp_all add: at)
  have other: "b_lba (cache st ! k) \<noteq> b_lba (cache st ! i)" if "k < BCACHE_SIZE" "b_valid (cache st ! k)" "k \<noteq> i" for k
    using bcache_inv_unique [OF inv i that(1,2)] that(3) by blast
  show inv': "bcache_inv st'"
  proof (rule bcache_invI)
    show "length (cache st') = BCACHE_SIZE" "drive_ok (drive st')"
      using bcache_inv_len [OF inv] bcache_inv_drive [OF inv] by (simp_all add: st' drive_ok_def)
    fix k assume k: "k < BCACHE_SIZE" "b_valid (cache st' ! k)"
    show "unat (b_lba (cache st' ! k)) < 2 ^ 28"
      using k bcache_inv_lba [OF inv, of k] by (simp add: same)
    show "b_data (cache st' ! k) = sectors (drive st') (b_lba (cache st' ! k))" if "\<not> b_dirty (cache st' ! k)"
      using that k bcache_inv_clean [OF inv, of k] other [of k] by (cases "k = i") (simp_all add: at st'(2))
    fix j assume "j < BCACHE_SIZE" "b_valid (cache st' ! j)" "b_lba (cache st' ! j) = b_lba (cache st' ! k)"
    then show "j = k"
      using k bcache_inv_unique [OF inv, of k j] by (simp add: same)
  qed
  show "bview st' = bview st"
  proof
    fix l
    show "bview st' l = bview st l"
    proof (cases "\<exists>k < BCACHE_SIZE. b_valid (cache st ! k) \<and> b_lba (cache st ! k) = l")
      case True
      then obtain k where "k < BCACHE_SIZE" "b_valid (cache st ! k)" "b_lba (cache st ! k) = l"
        by blast
      then show ?thesis
        using bview_cached [OF inv, of k] bview_cached [OF inv', of k] same [of k] by simp
    next
      case False
      moreover have "sectors (drive st') l = sectors (drive st) l"
        using False i by (auto simp: st'(2))
      ultimately show ?thesis
        using bview_uncached [OF inv, of l] bview_uncached [OF inv', of l] same by auto
    qed
  qed
qed

lemma drop_entry:
  assumes inv: "bcache_inv st" and i: "i < BCACHE_SIZE" "\<not> b_dirty (cache st ! i)"
    and st': "cache st' = (cache st)[i := (cache st ! i)\<lparr>b_valid := False\<rparr>]" "drive st' = drive st"
  shows "bcache_inv st'" and "bview st' = bview st"
proof -
  have at: "cache st' ! j = (if j = i then (cache st ! i)\<lparr>b_valid := False\<rparr> else cache st ! j)" if "j < BCACHE_SIZE" for j
    using that i bcache_inv_len [OF inv] by (simp add: st' nth_list_update)
  have sub: "j \<noteq> i \<and> cache st' ! j = cache st ! j" if "j < BCACHE_SIZE" "b_valid (cache st' ! j)" for j
    using that by (simp add: at split: if_splits)
  show inv': "bcache_inv st'"
  proof (rule bcache_invI)
    show "length (cache st') = BCACHE_SIZE" "drive_ok (drive st')"
      using bcache_inv_len [OF inv] bcache_inv_drive [OF inv] by (simp_all add: st' drive_ok_def)
    fix k assume k: "k < BCACHE_SIZE" "b_valid (cache st' ! k)"
    show "unat (b_lba (cache st' ! k)) < 2 ^ 28"
      using k bcache_inv_lba [OF inv, of k] sub [OF k] by simp
    show "b_data (cache st' ! k) = sectors (drive st') (b_lba (cache st' ! k))" if "\<not> b_dirty (cache st' ! k)"
      using that k bcache_inv_clean [OF inv, of k] sub [OF k] by (simp add: st'(2))
    fix j assume j: "j < BCACHE_SIZE" "b_valid (cache st' ! j)" "b_lba (cache st' ! j) = b_lba (cache st' ! k)"
    show "j = k"
      using k j bcache_inv_unique [OF inv, of k j] sub [OF k] sub [OF j(1,2)] by simp
  qed
  show "bview st' = bview st"
  proof
    fix l
    show "bview st' l = bview st l"
    proof (cases "\<exists>k < BCACHE_SIZE. b_valid (cache st' ! k) \<and> b_lba (cache st' ! k) = l")
      case True
      then obtain k where k: "k < BCACHE_SIZE" "b_valid (cache st' ! k)" "b_lba (cache st' ! k) = l"
        by blast
      then show ?thesis
        using bview_cached [OF inv, of k] bview_cached [OF inv', of k] sub [OF k(1,2)] by simp
    next
      case False
      then have v': "bview st' l = sectors (drive st) l"
        using bview_uncached [OF inv', of l] st'(2) by auto
      show ?thesis
      proof (cases "b_valid (cache st ! i) \<and> b_lba (cache st ! i) = l")
        case True
        then show ?thesis
          using v' bview_cached [OF inv, of i] bcache_inv_clean [OF inv, of i] i by simp
      next
        case other: False
        have "b_lba (cache st ! k) \<noteq> l" if "k < BCACHE_SIZE" "b_valid (cache st ! k)" for k
          using that other False at [of k] by (cases "k = i") (simp, metis)
        then show ?thesis
          using v' bview_uncached [OF inv, of l] by simp
      qed
    qed
  qed
qed

lemma bcache_evict_ok:
  assumes inv: "bcache_inv st" and ev: "bcache_evict st = (i, st1)"
  shows "i < BCACHE_SIZE \<and> \<not> b_valid (cache st1 ! i) \<and> bcache_inv st1 \<and> bview st1 = bview st"
proof (cases "first_idx (\<lambda>e. \<not> b_valid e) (cache st)")
  case (Some k)
  then show ?thesis
    using ev inv first_idx_SomeD [OF Some] bcache_inv_len [OF inv] by (auto simp: bcache_evict_def)
next
  case None
  let ?i = "bcache_lru (cache st)"
  have i: "?i < BCACHE_SIZE"
    by (rule lru_less)
  have v: "b_valid (cache st ! ?i)"
    using None i bcache_inv_len [OF inv] nth_mem [of ?i "cache st"] by auto
  define st0 where "st0 = (if b_dirty (cache st ! ?i)
      then st\<lparr>cache := (cache st)[?i := (cache st ! ?i)\<lparr>b_dirty := False\<rparr>],
        drive := (drive st)\<lparr>sectors := (sectors (drive st))(b_lba (cache st ! ?i) := b_data (cache st ! ?i))\<rparr>\<rparr>
      else st)"
  have st0: "bcache_inv st0" "bview st0 = bview st" "\<not> b_dirty (cache st0 ! ?i)"
    using flush_entry [OF inv i v, of st0] inv i bcache_inv_len [OF inv] by (auto simp: st0_def)
  have w: "snd (ata_write_sectors (b_lba (cache st ! ?i)) [b_data (cache st ! ?i)] (drive st)) =
      (drive st)\<lparr>sectors := (sectors (drive st))(b_lba (cache st ! ?i) := b_data (cache st ! ?i))\<rparr>"
    using ata_write_one [OF bcache_inv_drive [OF inv] bcache_inv_lba [OF inv i v]] by simp
  have st1: "i = ?i" "cache st1 = (cache st0)[?i := (cache st0 ! ?i)\<lparr>b_valid := False\<rparr>]" "drive st1 = drive st0"
    using ev None w i bcache_inv_len [OF inv]
    by (auto simp: bcache_evict_def Let_def st0_def simp del: first_idx_None_iff split: if_splits)
  show ?thesis
    using drop_entry [OF st0(1) i st0(3) st1(2,3)] st0(2) st1 i bcache_inv_len [OF st0(1)] by simp
qed

lemma bcache_evict_miss:
  assumes inv: "bcache_inv st" and ev: "bcache_evict st = (i, st1)" and miss: "bcache_find st lba = None"
  shows "bcache_find st1 lba = None"
proof -
  have sub: "b_valid (cache st ! k) \<and> b_lba (cache st ! k) = b_lba (cache st1 ! k)"
    if "k < BCACHE_SIZE" "b_valid (cache st1 ! k)" for k
    using that ev bcache_inv_len [OF inv] lru_less [of "cache st"]
    by (cases "k = bcache_lru (cache st)")
      (auto simp: bcache_evict_def Let_def nth_list_update split: option.splits if_splits prod.splits)
  have "bcache_inv st1"
    using bcache_evict_ok [OF inv ev] by simp
  then show ?thesis
    using sub miss bcache_find_None [OF inv, of lba] bcache_find_None [of st1 lba] by auto
qed

lemma bcache_read_ok:
  assumes inv: "bcache_inv st" and lba: "unat lba < 2 ^ 28"
  shows "\<exists>i st'. bcache_read lba st = (Some i, st') \<and> bcache_find st' lba = Some i \<and>
     b_data (cache st' ! i) = bview st lba \<and> bcache_inv st' \<and> bview st' = bview st"
proof (cases "bcache_find st lba")
  case (Some i)
  let ?t = "tick_counter st + 1"
  let ?e = "(cache st ! i)\<lparr>access_tick := ?t\<rparr>"
  define st' where "st' = st\<lparr>hits := hits st + 1, tick_counter := ?t, cache := (cache st)[i := ?e]\<rparr>"
  have i: "i < BCACHE_SIZE" "b_valid (cache st ! i)" "b_lba (cache st ! i) = lba"
    using Some bcache_find_Some [OF inv] by simp_all
  have r: "bcache_read lba st = (Some i, st')"
    using Some by (simp add: bcache_read_def Let_def st'_def)
  have "bcache_inv st'" "bview st' = (bview st)(lba := b_data (cache st ! i))"
    using set_entry [OF inv i(1), of ?e st'] i Some bcache_inv_lba [OF inv i(1,2)] bcache_inv_clean [OF inv i(1,2)]
    by (simp_all add: st'_def)
  moreover have "bview st lba = b_data (cache st ! i)"
    using Some by (simp add: bview_def)
  moreover have "cache st' ! i = ?e"
    using i(1) bcache_inv_len [OF inv] by (simp add: st'_def)
  ultimately show ?thesis
    using r i bcache_find_Some [of st' lba i] by auto
next
  case None
  obtain i st1 where ev: "bcache_evict (st\<lparr>misses := misses st + 1\<rparr>) = (i, st1)"
    by fastforce
  have inv0: "bcache_inv (st\<lparr>misses := misses st + 1\<rparr>)" "bview (st\<lparr>misses := misses st + 1\<rparr>) = bview st"
    using inv bview_cong [of "st\<lparr>misses := misses st + 1\<rparr>" st] by (simp_all add: bcache_inv_def)
  have e: "i < BCACHE_SIZE" "\<not> b_valid (cache st1 ! i)" "bcache_inv st1" "bview st1 = bview st"
    using bcache_evict_ok [OF inv0(1) ev] inv0(2) by simp_all
  have rd: "ata_read_sectors lba 1 (drive st1) = Some [sectors (drive st1) lba]"
    by (rule ata_read_one [OF bcache_inv_drive [OF e(3)] lba])
  let ?t = "tick_counter st1 + 1"
  let ?e = "\<lparr>b_lba = lba, b_data = sectors (drive st1) lba, b_valid = True, b_dirty = False, access_tick = ?t\<rparr>"
  define st' where "st' = st1\<lparr>tick_counter := ?t, cache := (cache st1)[i := ?e]\<rparr>"
  have r: "bcache_read lba st = (Some i, st')"
    using None ev rd by (simp add: bcache_read_def Let_def st'_def)
  have n1: "bcache_find st1 lba = None"
    by (rule bcache_evict_miss [OF inv0(1) ev]) (use None in \<open>simp add: bcache_find_def\<close>)
  have "bcache_inv st'" "bview st' = (bview st1)(lba := sectors (drive st1) lba)"
    using set_entry [OF e(3,1), of ?e st'] e(2) n1 lba by (simp_all add: st'_def)
  moreover have "bview st1 lba = sectors (drive st1) lba"
    using n1 by (simp add: bview_def)
  moreover have "cache st' ! i = ?e"
    using e(1) bcache_inv_len [OF e(3)] by (simp add: st'_def)
  ultimately show ?thesis
    using r e bcache_find_Some [of st' lba i] by auto
qed

lemma bcache_write_ok:
  assumes inv: "bcache_inv st" and lba: "unat lba < 2 ^ 28"
  shows "bcache_inv (bcache_write lba data st) \<and> bview (bcache_write lba data st) = (bview st)(lba := data)"
proof (cases "bcache_find st lba")
  case (Some i)
  let ?e = "(cache st ! i)\<lparr>b_data := data, b_dirty := True, access_tick := tick_counter st + 1\<rparr>"
  have i: "i < BCACHE_SIZE" "b_valid (cache st ! i)" "b_lba (cache st ! i) = lba"
    using Some bcache_find_Some [OF inv] by simp_all
  show ?thesis
    using set_entry [OF inv i(1), of ?e "bcache_write lba data st"] Some i lba
    by (simp add: bcache_write_def Let_def)
next
  case None
  obtain i st1 where ev: "bcache_evict st = (i, st1)"
    by fastforce
  have e: "i < BCACHE_SIZE" "\<not> b_valid (cache st1 ! i)" "bcache_inv st1" "bview st1 = bview st"
    using bcache_evict_ok [OF inv ev] by simp_all
  note n1 = bcache_evict_miss [OF inv ev None]
  let ?e = "(cache st1 ! i)\<lparr>b_lba := lba, b_valid := True, b_data := data, b_dirty := True,
      access_tick := tick_counter st1 + 1 + 1\<rparr>"
  have "cache (bcache_write lba data st) = (cache st1)[i := ?e]" "drive (bcache_write lba data st) = drive st1"
    using None ev e(1) bcache_inv_len [OF e(3)] by (simp_all add: bcache_write_def Let_def)
  then show ?thesis
    using set_entry [OF e(3,1), of ?e "bcache_write lba data st"] e(2,4) n1 lba by simp
qed

lemma bcache_sync_loop_ok:
  assumes "bcache_inv st" and "\<forall>i \<in> set is. i < BCACHE_SIZE" and "0 \<le> n"
  shows "\<exists>n' st'. bcache_sync_loop is n st = (n', st') \<and> n \<le> n' \<and> bcache_inv st' \<and> bview st' = bview st \<and>
     (\<forall>i < BCACHE_SIZE. b_valid (cache st' ! i) = b_valid (cache st ! i) \<and>
        (b_dirty (cache st' ! i) \<longrightarrow> b_dirty (cache st ! i) \<and> (i \<notin> set is \<or> \<not> b_valid (cache st ! i))))"
  using assms
proof (induction "is" n st rule: bcache_sync_loop.induct)
  case (2 i "is" n st)
  let ?e = "cache st ! i"
  have i: "i < BCACHE_SIZE" and rest: "\<forall>j \<in> set is. j < BCACHE_SIZE"
    using "2.prems"(2) by auto
  note len = bcache_inv_len [OF "2.prems"(1)]
  show ?case
  proof (cases "b_valid ?e \<and> b_dirty ?e")
    case True
    have w: "ata_write_sectors (b_lba ?e) [b_data ?e] (drive st) =
        (True, (drive st)\<lparr>sectors := (sectors (drive st))(b_lba ?e := b_data ?e)\<rparr>)"
      by (rule ata_write_one [OF bcache_inv_drive [OF "2.prems"(1)] bcache_inv_lba [OF "2.prems"(1) i]]) (use True in simp)
    let ?d = "(drive st)\<lparr>sectors := (sectors (drive st))(b_lba ?e := b_data ?e)\<rparr>"
    let ?st = "st\<lparr>drive := ?d, cache := (cache st)[i := ?e\<lparr>b_dirty := False\<rparr>]\<rparr>"
    have ok: "bcache_inv ?st" "bview ?st = bview st"
      using flush_entry [OF "2.prems"(1) i, of ?st] True by simp_all
    have step: "bcache_sync_loop (i # is) n st = bcache_sync_loop is (n + 1) ?st"
      using True w by (simp add: Let_def)
    obtain n' st' where IH: "bcache_sync_loop is (n + 1) ?st = (n', st')" "n + 1 \<le> n'" "bcache_inv st'"
        "bview st' = bview ?st"
        "\<forall>k < BCACHE_SIZE. b_valid (cache st' ! k) = b_valid (cache ?st ! k) \<and>
          (b_dirty (cache st' ! k) \<longrightarrow> b_dirty (cache ?st ! k) \<and> (k \<notin> set is \<or> \<not> b_valid (cache ?st ! k)))"
      using "2.IH"(1) [OF refl True w [symmetric] refl ok(1) rest] "2.prems"(3) by auto
    have "\<forall>k < BCACHE_SIZE. b_valid (cache st' ! k) = b_valid (cache st ! k) \<and>
        (b_dirty (cache st' ! k) \<longrightarrow> b_dirty (cache st ! k) \<and> (k \<notin> set (i # is) \<or> \<not> b_valid (cache st ! k)))"
      using IH(5) i len by (auto simp: nth_list_update split: if_splits)
    then show ?thesis
      unfolding step using IH(1-4) ok(2) by auto
  next
    case False
    have step: "bcache_sync_loop (i # is) n st = bcache_sync_loop is n st"
      using False by (simp only: bcache_sync_loop.simps Let_def if_False)
    show ?thesis
      unfolding step using "2.IH"(2) [OF refl False "2.prems"(1) rest "2.prems"(3)] False by auto
  qed
qed auto

lemma bcache_sync_ok:
  assumes "bcache_inv st"
  shows "\<exists>n st'. bcache_sync st = (n, st') \<and> 0 \<le> n \<and> bcache_inv st' \<and> bview st' = bview st \<and>
     sectors (drive st') = bview st"
proof -
  obtain n st' where s: "bcache_sync st = (n, st')" "0 \<le> n" "bcache_inv st'" "bview st' = bview st"
    and clean: "\<And>i. i < BCACHE_SIZE \<Longrightarrow> b_valid (cache st' ! i) \<Longrightarrow> \<not> b_dirty (cache st' ! i)"
    using bcache_sync_loop_ok [OF assms, of "[0..<BCACHE_SIZE]" 0] by (auto simp: bcache_sync_def)
  have "sectors (drive st') l = bview st' l" for l
  proof (cases "\<exists>k < BCACHE_SIZE. b_valid (cache st' ! k) \<and> b_lba (cache st' ! k) = l")
    case True
    then show ?thesis
      using bview_cached [OF s(3)] bcache_inv_clean [OF s(3)] clean by metis
  next
    case False
    then show ?thesis
      using bview_uncached [OF s(3), of l] by auto
  qed
  then show ?thesis
    using s by auto
qed

section \<open>The interface of a sector store\<close>

datatype store_op = SRead u32 | SWrite u32 sector | SSync

fun store_run ::
  "(u32 \<Rightarrow> 's \<Rightarrow> sector \<times> 's) \<Rightarrow> (u32 \<Rightarrow> sector \<Rightarrow> 's \<Rightarrow> 's) \<Rightarrow> ('s \<Rightarrow> 's) \<Rightarrow> store_op list \<Rightarrow> 's \<Rightarrow> sector list \<times> 's" where
  "store_run rd wr sy [] s = ([], s)"
| "store_run rd wr sy (SRead l # ops) s =
     (let (d, s1) = rd l s; (ds, s') = store_run rd wr sy ops s1 in (d # ds, s'))"
| "store_run rd wr sy (SWrite l d # ops) s = store_run rd wr sy ops (wr l d s)"
| "store_run rd wr sy (SSync # ops) s = store_run rd wr sy ops (sy s)"

fun array_run :: "store_op list \<Rightarrow> (u32 \<Rightarrow> sector) \<Rightarrow> sector list \<times> (u32 \<Rightarrow> sector)" where
  "array_run [] a = ([], a)"
| "array_run (SRead l # ops) a = (let (ds, a') = array_run ops a in (a l # ds, a'))"
| "array_run (SWrite l d # ops) a = array_run ops (a(l := d))"
| "array_run (SSync # ops) a = array_run ops a"

definition lbas_ok :: "store_op list \<Rightarrow> bool" where
  "lbas_ok ops \<longleftrightarrow> (\<forall>op \<in> set ops. case op of SRead l \<Rightarrow> unat l < 2 ^ 28 | SWrite l d \<Rightarrow> unat l < 2 ^ 28 | SSync \<Rightarrow> True)"

locale sector_store =
  fixes rd :: "u32 \<Rightarrow> 's \<Rightarrow> sector \<times> 's"
    and wr :: "u32 \<Rightarrow> sector \<Rightarrow> 's \<Rightarrow> 's"
    and sy :: "'s \<Rightarrow> 's"
    and view :: "'s \<Rightarrow> u32 \<Rightarrow> sector"
    and disk :: "'s \<Rightarrow> u32 \<Rightarrow> sector"
    and inv :: "'s \<Rightarrow> bool"
  assumes read_law: "inv s \<Longrightarrow> unat l < 2 ^ 28 \<Longrightarrow> \<exists>s'. rd l s = (view s l, s') \<and> inv s' \<and> view s' = view s"
    and write_law: "inv s \<Longrightarrow> unat l < 2 ^ 28 \<Longrightarrow> inv (wr l d s) \<and> view (wr l d s) = (view s)(l := d)"
    and sync_law: "inv s \<Longrightarrow> inv (sy s) \<and> view (sy s) = view s \<and> disk (sy s) = view s"
begin

lemma run_is_array:
  assumes "inv s" and "lbas_ok ops"
  shows "\<exists>s'. store_run rd wr sy ops s = (fst (array_run ops (view s)), s') \<and> inv s' \<and>
     view s' = snd (array_run ops (view s))"
  using assms
proof (induction ops arbitrary: s)
  case (Cons op ops)
  have ok: "lbas_ok ops"
    using Cons.prems(2) by (simp add: lbas_ok_def)
  show ?case
  proof (cases op)
    case (SRead l)
    then obtain s1 where "rd l s = (view s l, s1)" "inv s1" "view s1 = view s"
      using read_law [OF Cons.prems(1)] Cons.prems(2) by (auto simp: lbas_ok_def)
    then show ?thesis
      using Cons.IH [OF _ ok, of s1] SRead by (auto simp: Let_def split: prod.splits)
  next
    case (SWrite l d)
    then have w: "inv (wr l d s)" "view (wr l d s) = (view s)(l := d)"
      using write_law [OF Cons.prems(1), of l d] Cons.prems(2) by (auto simp: lbas_ok_def)
    show ?thesis
      using Cons.IH [OF w(1) ok] unfolding w(2) SWrite store_run.simps array_run.simps .
  next
    case SSync
    then show ?thesis
      using Cons.IH [OF _ ok, of "sy s"] sync_law [OF Cons.prems(1)] by simp
  qed
qed simp

lemma run_then_sync:
  assumes "inv s" and "lbas_ok ops"
  shows "disk (sy (snd (store_run rd wr sy ops s))) = snd (array_run ops (view s))"
  using run_is_array [OF assms] sync_law by force

end

definition bcache_get :: "u32 \<Rightarrow> bcache \<Rightarrow> sector \<times> bcache" where
  "bcache_get lba st =
     (case bcache_read lba st of (Some i, st') \<Rightarrow> (b_data (cache st' ! i), st') | (None, st') \<Rightarrow> ([], st'))"

interpretation bc: sector_store bcache_get bcache_write "\<lambda>st. snd (bcache_sync st)" bview
  "\<lambda>st. sectors (drive st)" bcache_inv
proof unfold_locales
  fix st l assume "bcache_inv st" "unat (l :: u32) < 2 ^ 28"
  then show "\<exists>st'. bcache_get l st = (bview st l, st') \<and> bcache_inv st' \<and> bview st' = bview st"
    using bcache_read_ok [of st l] by (auto simp: bcache_get_def)
next
  fix st l d assume "bcache_inv st" "unat (l :: u32) < 2 ^ 28"
  then show "bcache_inv (bcache_write l d st) \<and> bview (bcache_write l d st) = (bview st)(l := d)"
    by (rule bcache_write_ok)
next
  fix st assume "bcache_inv st"
  then show "bcache_inv (snd (bcache_sync st)) \<and> bview (snd (bcache_sync st)) = bview st \<and>
      sectors (drive (snd (bcache_sync st))) = bview st"
    using bcache_sync_ok [of st] by auto
qed

section \<open>Properties\<close>

text \<open>
  C18. The buffer cache is transparent: on a working drive and for
  sector addresses below \<open>2 ^ 28\<close>, whatever sequence of reads, writes
  and syncs is issued, with all the evictions and write-backs it causes, every read returns
  what a plain array of sectors would, and a final sync leaves exactly that array on the disk.
\<close>
theorem bcache_transparent:
  assumes "bcache_inv st" and "lbas_ok ops"
  shows "\<exists>st'. store_run bcache_get bcache_write (\<lambda>s. snd (bcache_sync s)) ops st =
       (fst (array_run ops (bview st)), st') \<and>
     sectors (drive (snd (bcache_sync st'))) = snd (array_run ops (bview st))"
  using bc.run_is_array [OF assms] bc.run_then_sync [OF assms] by force

definition sample_drive :: ata where
  "sample_drive = \<lparr>disk_present = True, sectors = (\<lambda>l. replicate SECTOR_SIZE (ucast l)), bad_sector = (\<lambda>_. False)\<rparr>"

definition sample_cache :: bcache where
  "sample_cache = bcache_init \<lparr>cache = [], tick_counter = 0, hits = 0, misses = 0, drive = sample_drive\<rparr>"

lemma bcache_init_inv: "drive_ok (drive st) \<Longrightarrow> bcache_inv (bcache_init st) \<and> bview (bcache_init st) = sectors (drive st)"
proof
  assume d: "drive_ok (drive st)"
  have v: "\<not> b_valid (cache (bcache_init st) ! i)" if "i < BCACHE_SIZE" for i
    using that by (simp add: bcache_init_def bcache_entry_zero_def)
  show inv: "bcache_inv (bcache_init st)"
    by (rule bcache_invI) (use d in \<open>simp_all add: bcache_init_def bcache_entry_zero_def\<close>)
  show "bview (bcache_init st) = sectors (drive st)"
    using bview_uncached [OF inv] v by (auto simp: bcache_init_def)
qed

lemma sample_cache_inv: "bcache_inv sample_cache" "bview sample_cache = sectors sample_drive"
  using bcache_init_inv by (simp_all add: sample_cache_def drive_ok_def sample_drive_def)

theorem bcache_transparent_witness:
  "\<exists>st'. store_run bcache_get bcache_write (\<lambda>s. snd (bcache_sync s)) [SWrite 3 [1], SRead 3, SRead 4] sample_cache =
     ([[1], sectors sample_drive 4], st')"
proof -
  have "lbas_ok [SWrite 3 [1], SRead 3, SRead 4]"
    by (simp add: lbas_ok_def)
  from bcache_transparent [OF sample_cache_inv(1) this] show ?thesis
    unfolding sample_cache_inv(2) by auto
qed

text \<open>
  C19. An eviction can lose data silently: when the cache is full, the least recently used entry
  is dirty and the drive reports an error for its sector, \<open>bcache_evict\<close> discards the entry as if
  it had been written; the client's view of that sector falls back to the old disk contents.
\<close>
theorem bcache_evict_loses:
  assumes "\<forall>e \<in> set (cache st). b_valid e" and "length (cache st) = BCACHE_SIZE"
    and "e = cache st ! bcache_lru (cache st)" and "b_dirty e" and "bad_sector (drive st) (lba28 (b_lba e))"
    and "\<forall>i < BCACHE_SIZE. i \<noteq> bcache_lru (cache st) \<longrightarrow> b_lba (cache st ! i) \<noteq> b_lba e"
  shows "bview (snd (bcache_evict st)) (b_lba e) = sectors (drive st) (b_lba e)"
proof -
  let ?i = "bcache_lru (cache st)"
  have i: "?i < BCACHE_SIZE"
    by (rule lru_less)
  have none: "first_idx (\<lambda>e. \<not> b_valid e) (cache st) = None"
    using assms(1) by simp
  have w: "snd (ata_write_sectors (b_lba e) [b_data e] (drive st)) = drive st"
    using assms(5) by (simp add: ata_write_sectors_def)
  have st1: "snd (bcache_evict st) = st\<lparr>cache := (cache st)[?i := e\<lparr>b_dirty := False, b_valid := False\<rparr>], drive := drive st\<rparr>"
    using none w assms(3,4) unfolding bcache_evict_def by (simp add: Let_def del: first_idx_None_iff)
  have "\<not> (b_valid x \<and> b_lba x = b_lba e)"
    if x: "x \<in> set ((cache st)[?i := e\<lparr>b_dirty := False, b_valid := False\<rparr>])" for x
  proof -
    obtain j where j: "j < BCACHE_SIZE" "x = (cache st)[?i := e\<lparr>b_dirty := False, b_valid := False\<rparr>] ! j"
      using x assms(2) by (auto simp: in_set_conv_nth)
    then show ?thesis
      using assms(2,6) i by (cases "j = ?i") simp_all
  qed
  then have "bcache_find (snd (bcache_evict st)) (b_lba e) = None"
    unfolding st1 bcache_find_def by simp
  then show ?thesis
    unfolding bview_def by (simp add: st1)
qed

definition full_cache :: bcache where
  "full_cache = sample_cache
     \<lparr>cache := map (\<lambda>i. \<lparr>b_lba = of_nat i, b_data = [1], b_valid = True, b_dirty = True, access_tick = of_nat i\<rparr>)
        [0..<BCACHE_SIZE],
      drive := sample_drive\<lparr>bad_sector := \<lambda>_. True\<rparr>\<rparr>"

theorem bcache_evict_loses_witness:
  "\<exists>e \<in> set (cache full_cache). b_data e = [1] \<and>
     bview (snd (bcache_evict full_cache)) (b_lba e) = sectors sample_drive (b_lba e)"
proof -
  let ?c = "cache full_cache" and ?i = "bcache_lru (cache full_cache)"
  have i: "?i < BCACHE_SIZE"
    by (rule lru_less)
  have at: "?c ! j = \<lparr>b_lba = of_nat j, b_data = [1], b_valid = True, b_dirty = True, access_tick = of_nat j\<rparr>"
    if "j < BCACHE_SIZE" for j
    using that by (simp add: full_cache_def)
  have len: "length ?c = BCACHE_SIZE"
    by (simp add: full_cache_def)
  have "\<forall>j < BCACHE_SIZE. j \<noteq> ?i \<longrightarrow> b_lba (?c ! j) \<noteq> b_lba (?c ! ?i)"
  proof (intro allI impI)
    fix j assume "j < BCACHE_SIZE" "j \<noteq> ?i"
    moreover have "unat (of_nat k :: u32) = k" if "k < BCACHE_SIZE" for k
      using that by (simp add: BCACHE_SIZE_def unat_of_nat)
    ultimately show "b_lba (?c ! j) \<noteq> b_lba (?c ! ?i)"
      using i at by (metis bcache_entry.select_convs(1))
  qed
  then have "bview (snd (bcache_evict full_cache)) (b_lba (?c ! ?i)) = sectors (drive full_cache) (b_lba (?c ! ?i))"
    using i at len by (intro bcache_evict_loses) (auto simp: in_set_conv_nth full_cache_def)
  moreover have "?c ! ?i \<in> set ?c" "b_data (?c ! ?i) = [1]" "sectors (drive full_cache) = sectors sample_drive"
    using i len at [OF i] by (simp_all add: full_cache_def)
  ultimately show ?thesis
    by auto
qed

end
