(* ===== verification/RingBuffer.thy ===== *)
theory RingBuffer
  imports PlantPrelude
begin

text \<open>
  Byte ring buffers. The receive buffers of UDP sockets and TCP connections and the console's
  ready buffer are an array with a write index, a read index and a byte count, filled and
  drained by the same two loops; they differ in the array size and the index width. A ring
  refines a bounded byte queue, the interface \<open>byte_fifo\<close>, whose client side says that bytes
  come out in the order in which they went in.
\<close>

section \<open>Contents of a ring\<close>

definition ring_list :: "u8 list \<Rightarrow> nat \<Rightarrow> nat \<Rightarrow> u8 list" where
  "ring_list b tail n = map (\<lambda>i. b ! ((tail + i) mod length b)) [0..<n]"

lemma length_ring_list [simp]: "length (ring_list b t n) = n"
  by (simp add: ring_list_def)

lemma ring_list_push:
  assumes "n < length b"
  shows "ring_list (b[(t + n) mod length b := x]) t (Suc n) = ring_list b t n @ [x]"
proof -
  let ?N = "length b"
  have ne: "(t + n) mod ?N \<noteq> (t + i) mod ?N" if "i < n" for i
  proof
    assume "(t + n) mod ?N = (t + i) mod ?N"
    then have "?N dvd (t + n) - (t + i)"
      using that by (metis add_le_cancel_left less_imp_le_nat mod_eq_dvd_iff_nat)
    then show False
      using that assms by (auto dest: dvd_imp_le)
  qed
  have "map (\<lambda>i. b[(t + n) mod ?N := x] ! ((t + i) mod ?N)) [0..<n] = map (\<lambda>i. b ! ((t + i) mod ?N)) [0..<n]"
    by (rule map_cong) (use ne in auto)
  moreover have "(t + n) mod ?N < ?N"
    using assms by (intro mod_less_divisor) auto
  ultimately show ?thesis
    unfolding ring_list_def by simp
qed

lemma ring_list_pop:
  assumes "t < length b"
  shows "ring_list b t (Suc n) = b ! t # ring_list b (Suc t mod length b) n"
proof -
  have "[0..<Suc n] = 0 # map Suc [0..<n]"
    by (simp only: map_Suc_upt upt_conv_Cons zero_less_Suc)
  moreover have "(t + Suc i) mod length b = (Suc t mod length b + i) mod length b" for i
    by (simp add: mod_add_left_eq)
  ultimately show ?thesis
    using assms unfolding ring_list_def by simp
qed

section \<open>Rings\<close>

record 'i ring =
  rg_buf :: "u8 list"
  rg_head :: 'i
  rg_tail :: 'i
  rg_count :: 'i

definition ring_empty :: "nat \<Rightarrow> 'w::len word ring" where
  "ring_empty N = \<lparr>rg_buf = replicate N 0, rg_head = 0, rg_tail = 0, rg_count = 0\<rparr>"

definition ring_put :: "nat \<Rightarrow> u8 \<Rightarrow> 'w::len word ring \<Rightarrow> 'w word ring" where
  "ring_put N x r =
     r\<lparr>rg_buf := (rg_buf r)[unat (rg_head r) := x], rg_head := (rg_head r + 1) mod of_nat N,
       rg_count := rg_count r + 1\<rparr>"

fun ring_write :: "nat \<Rightarrow> u8 list \<Rightarrow> 'w::len word ring \<Rightarrow> 'w word ring" where
  "ring_write N [] r = r"
| "ring_write N (x # xs) r =
     (if rg_count r < of_nat N then ring_write N xs (ring_put N x r) else r)"

fun ring_read :: "nat \<Rightarrow> nat \<Rightarrow> 'w::len word ring \<Rightarrow> u8 list \<times> 'w word ring" where
  "ring_read N 0 r = ([], r)"
| "ring_read N (Suc n) r =
     (if rg_count r > 0
      then (let c = rg_buf r ! unat (rg_tail r);
                (cs, r') = ring_read N n (r\<lparr>rg_tail := (rg_tail r + 1) mod of_nat N,
                                            rg_count := rg_count r - 1\<rparr>)
            in (c # cs, r'))
      else ([], r))"

definition ring_contents :: "'w::len word ring \<Rightarrow> u8 list" where
  "ring_contents r = ring_list (rg_buf r) (unat (rg_tail r)) (unat (rg_count r))"

definition ring_ok :: "nat \<Rightarrow> 'w::len word ring \<Rightarrow> bool" where
  "ring_ok N r \<longleftrightarrow> 0 < N \<and> N < 2 ^ LENGTH('w) \<and> length (rg_buf r) = N \<and>
     unat (rg_tail r) < N \<and> unat (rg_count r) \<le> N \<and>
     unat (rg_head r) = (unat (rg_tail r) + unat (rg_count r)) mod N"

lemma unat_ring_step:
  fixes w :: "'w::len word"
  assumes "unat w < N" and "N < 2 ^ LENGTH('w)"
  shows "unat ((w + 1) mod of_nat N) = Suc (unat w) mod N"
proof -
  have "unat (w + 1) = Suc (unat w)"
    using assms by (simp add: unat_word_ariths)
  moreover have "unat (of_nat N :: 'w word) = N"
    using assms(2) by (simp add: unat_of_nat)
  ultimately show ?thesis
    by (simp add: unat_mod)
qed

lemma ring_empty_ok:
  assumes "0 < N" and "N < 2 ^ LENGTH('w)"
  shows "ring_ok N (ring_empty N :: 'w::len word ring)" and "ring_contents (ring_empty N :: 'w word ring) = []"
  using assms by (simp_all add: ring_ok_def ring_empty_def ring_contents_def ring_list_def)

lemma ring_put_ok:
  fixes r :: "'w::len word ring"
  assumes "ring_ok N r" and "unat (rg_count r) < N"
  shows "ring_ok N (ring_put N x r)" and "ring_contents (ring_put N x r) = ring_contents r @ [x]"
proof -
  have h: "unat (rg_head r) < N"
    using assms by (simp add: ring_ok_def)
  have c: "unat (rg_count r + 1) = Suc (unat (rg_count r))"
    using assms by (simp add: ring_ok_def unat_word_ariths)
  have N: "N < 2 ^ LENGTH('w)"
    using assms(1) by (simp add: ring_ok_def)
  show "ring_ok N (ring_put N x r)"
    using assms h c unat_ring_step [OF h N]
    by (auto simp: ring_ok_def ring_put_def mod_Suc_eq)
  show "ring_contents (ring_put N x r) = ring_contents r @ [x]"
    using assms c ring_list_push [of "unat (rg_count r)" "rg_buf r" "unat (rg_tail r)" x]
    by (simp add: ring_ok_def ring_put_def ring_contents_def)
qed

lemma count_less_iff:
  fixes r :: "'w::len word ring"
  assumes "ring_ok N r"
  shows "rg_count r < of_nat N \<longleftrightarrow> unat (rg_count r) < N"
  using assms by (simp add: ring_ok_def word_less_nat_alt unat_of_nat)

lemma ring_write_ok:
  fixes r :: "'w::len word ring"
  assumes "ring_ok N r"
  shows "ring_ok N (ring_write N xs r) \<and>
     ring_contents (ring_write N xs r) = ring_contents r @ take (N - length (ring_contents r)) xs"
  using assms
proof (induction N xs r rule: ring_write.induct)
  case (2 N x xs r)
  have len: "length (ring_contents r) = unat (rg_count r)"
    by (simp add: ring_contents_def)
  show ?case
  proof (cases "unat (rg_count r) < N")
    case True
    then obtain k where k: "N - unat (rg_count r) = Suc k"
      by (metis Suc_diff_Suc)
    have "N - length (ring_contents (ring_put N x r)) = k"
      using ring_put_ok(2) [OF "2.prems" True, of x] len k by simp
    then show ?thesis
      using 2 True ring_put_ok [OF "2.prems" True, of x] len k by (simp add: count_less_iff)
  next
    case False
    then show ?thesis
      using 2 len by (simp add: count_less_iff)
  qed
qed simp

lemma ring_read_ok:
  fixes r :: "'w::len word ring"
  assumes "ring_ok N r"
  shows "\<exists>r'. ring_read N n r = (take n (ring_contents r), r') \<and> ring_ok N r' \<and>
     ring_contents r' = drop n (ring_contents r)"
  using assms
proof (induction n arbitrary: r)
  case (Suc n)
  show ?case
  proof (cases "rg_count r = 0")
    case True
    then show ?thesis
      using Suc.prems by (simp add: ring_contents_def ring_list_def)
  next
    case False
    define r1 where "r1 = r\<lparr>rg_tail := (rg_tail r + 1) mod of_nat N, rg_count := rg_count r - 1\<rparr>"
    have t: "unat (rg_tail r) < N" and N: "N < 2 ^ LENGTH('w)" "length (rg_buf r) = N"
      using Suc.prems by (simp_all add: ring_ok_def)
    have u: "unat (rg_count r) = Suc (unat (rg_count r - 1))"
      using False by (simp add: unat_sub_le word_le_nat_alt unat_gt_0 Suc_leI)
    note ts = unat_ring_step [OF t N(1)]
    have "(Suc (unat (rg_tail r)) mod N + unat (rg_count r - 1)) mod N =
        (unat (rg_tail r) + unat (rg_count r)) mod N"
      using u by (simp add: mod_add_left_eq)
    then have ok: "ring_ok N r1"
      using Suc.prems u ts by (auto simp: ring_ok_def r1_def)
    have c: "ring_contents r = rg_buf r ! unat (rg_tail r) # ring_contents r1"
      using ring_list_pop [of "unat (rg_tail r)" "rg_buf r" "unat (rg_count r - 1)"] t N(2) u ts
      by (simp add: ring_contents_def r1_def)
    obtain r' where "ring_read N n r1 = (take n (ring_contents r1), r')" "ring_ok N r'"
        "ring_contents r' = drop n (ring_contents r1)"
      using Suc.IH [OF ok] by blast
    then show ?thesis
      using False c by (auto simp: r1_def word_gt_0)
  qed
qed simp

section \<open>The queue interface\<close>

datatype fifo_op = Put "u8 list" | Get nat

fun fifo_run ::
  "(u8 list \<Rightarrow> 's \<Rightarrow> 's) \<Rightarrow> (nat \<Rightarrow> 's \<Rightarrow> u8 list \<times> 's) \<Rightarrow> ('s \<Rightarrow> nat) \<Rightarrow> fifo_op list \<Rightarrow> 's \<Rightarrow>
   u8 list \<times> u8 list \<times> 's" where
  "fifo_run wr rd room [] s = ([], [], s)"
| "fifo_run wr rd room (Put xs # ops) s =
     (let (i, out, s') = fifo_run wr rd room ops (wr xs s) in (take (room s) xs @ i, out, s'))"
| "fifo_run wr rd room (Get n # ops) s =
     (let (bs, s1) = rd n s; (i, out, s') = fifo_run wr rd room ops s1 in (i, bs @ out, s'))"

locale byte_fifo =
  fixes wr :: "u8 list \<Rightarrow> 's \<Rightarrow> 's"
    and rd :: "nat \<Rightarrow> 's \<Rightarrow> u8 list \<times> 's"
    and contents :: "'s \<Rightarrow> u8 list"
    and inv :: "'s \<Rightarrow> bool"
    and cap :: nat
  assumes write_law: "inv s \<Longrightarrow>
      inv (wr xs s) \<and> contents (wr xs s) = contents s @ take (cap - length (contents s)) xs"
    and read_law: "inv s \<Longrightarrow>
      \<exists>s'. rd n s = (take n (contents s), s') \<and> inv s' \<and> contents s' = drop n (contents s)"
begin

text \<open>
  Over any sequence of writes and reads, what has been read followed by what is still queued
  is what was queued at first followed by what the writes could put in.
\<close>

lemma fifo_order:
  assumes "inv s" and "fifo_run wr rd (\<lambda>s. cap - length (contents s)) ops s = (i, out, s')"
  shows "inv s' \<and> out @ contents s' = contents s @ i"
  using assms
proof (induction ops arbitrary: s i out s')
  case (Cons op ops)
  show ?case
  proof (cases op)
    case (Put xs)
    obtain i1 where r: "fifo_run wr rd (\<lambda>s. cap - length (contents s)) ops (wr xs s) = (i1, out, s')"
        "i = take (cap - length (contents s)) xs @ i1"
      using Cons.prems(2) Put by (auto simp: Let_def split: prod.splits)
    then show ?thesis
      using Cons.IH [OF _ r(1)] write_law [OF Cons.prems(1), of xs] by simp
  next
    case (Get n)
    obtain s1 where s1: "rd n s = (take n (contents s), s1)" "inv s1" "contents s1 = drop n (contents s)"
      using read_law [OF Cons.prems(1)] by blast
    obtain out1 where r: "fifo_run wr rd (\<lambda>s. cap - length (contents s)) ops s1 = (i, out1, s')"
        "out = take n (contents s) @ out1"
      using Cons.prems(2) Get s1(1) by (auto simp: Let_def split: prod.splits)
    then show ?thesis
      using Cons.IH [OF s1(2) r(1)] s1(3) by (metis append.assoc append_take_drop_id)
  qed
qed auto

end

interpretation ring: byte_fifo "ring_write N" "ring_read N" ring_contents "ring_ok N" N
  for N
  by unfold_locales (rule ring_write_ok, assumption, rule ring_read_ok, assumption)

end
