(* ===== verification/Pipe.thy ===== *)
theory Pipe
  imports RingBuffer
begin

text \<open>
  The data path of pipes, \<^verbatim>\<open>fs/pipe.c\<close>: a 4096-byte ring with counts of open ends, read and
  write calls that block. Here a call runs without being preempted up to the point where it
  returns or blocks, as system calls do that enter with interrupts off and have not blocked
  yet, so a call is a result: data, end of file, an error, or \<open>blocked\<close> with the point at
  which it resumes. \<open>pipe_step\<close> is the system of any number of processes on one pipe
  whose calls run this way. Calls that the timer preempts are in \<open>PipePreempt\<close>, and the
  descriptors that name pipe ends are in \<open>Vfs\<close>.
\<close>

section \<open>Operations\<close>

definition PIPE_BUF_SIZE :: nat where
  "PIPE_BUF_SIZE = 4096"

record pipe =
  p_buf :: "u8 list"
  read_pos :: u32
  write_pos :: u32
  p_count :: u32
  readers :: u32
  writers :: u32
  p_used :: bool

definition pipe_zero :: pipe where
  "pipe_zero = \<lparr>p_buf = replicate PIPE_BUF_SIZE 0, read_pos = 0, write_pos = 0, p_count = 0,
     readers = 0, writers = 0, p_used = False\<rparr>"

fun pipe_copy :: "nat \<Rightarrow> pipe \<Rightarrow> u8 list \<times> pipe" where
  "pipe_copy 0 p = ([], p)"
| "pipe_copy (Suc n) p =
     (let c = p_buf p ! unat (read_pos p);
          (cs, p') = pipe_copy n (p\<lparr>read_pos := (read_pos p + 1) mod of_nat PIPE_BUF_SIZE\<rparr>)
      in (c # cs, p'))"

definition pipe_take :: "nat \<Rightarrow> pipe \<Rightarrow> u8 list \<times> pipe" where
  "pipe_take n p =
     (let cnt = min n (unat (p_count p)); (bs, p') = pipe_copy cnt p
      in (bs, p'\<lparr>p_count := p_count p' - of_nat cnt\<rparr>))"

datatype pipe_rres = PData "u8 list" | PEof | PBlocked

definition pipe_read :: "u64 \<Rightarrow> pipe \<Rightarrow> pipe_rres \<times> pipe" where
  "pipe_read count p =
     (if p_count p = 0
      then (if writers p = 0 then (PEof, p) else (PBlocked, p))
      else (let (bs, p') = pipe_take (unat count) p in (PData bs, p')))"

definition pipe_put :: "u8 \<Rightarrow> pipe \<Rightarrow> pipe" where
  "pipe_put x p =
     p\<lparr>p_buf := (p_buf p)[unat (write_pos p) := x],
       write_pos := (write_pos p + 1) mod of_nat PIPE_BUF_SIZE, p_count := p_count p + 1\<rparr>"

datatype pipe_wres = WDone nat | WBroken int | WBlocked nat

fun pipe_write_loop :: "u8 list \<Rightarrow> nat \<Rightarrow> pipe \<Rightarrow> pipe_wres \<times> pipe" where
  "pipe_write_loop [] k p = (WDone k, p)"
| "pipe_write_loop (x # xs) k p =
     (if p_count p = of_nat PIPE_BUF_SIZE
      then (if readers p = 0 then (WBroken (if 0 < k then int k else - 1), p) else (WBlocked k, p))
      else pipe_write_loop xs (k + 1) (pipe_put x p))"

definition pipe_write :: "u8 list \<Rightarrow> pipe \<Rightarrow> pipe_wres \<times> pipe" where
  "pipe_write data p =
     (if readers p = 0 then (WBroken (- 1), p) else pipe_write_loop data 0 p)"

text \<open>A writer woken after blocking with \<open>k\<close> bytes written goes on with the rest.\<close>

definition pipe_write_resume :: "u8 list \<Rightarrow> nat \<Rightarrow> pipe \<Rightarrow> pipe_wres \<times> pipe" where
  "pipe_write_resume data k p = pipe_write_loop (drop k data) k p"

section \<open>A pipe is a bounded byte queue\<close>

definition pipe_contents :: "pipe \<Rightarrow> u8 list" where
  "pipe_contents p = ring_list (p_buf p) (unat (read_pos p)) (unat (p_count p))"

definition pipe_ok :: "pipe \<Rightarrow> bool" where
  "pipe_ok p \<longleftrightarrow> length (p_buf p) = 4096 \<and> unat (read_pos p) < 4096 \<and> unat (p_count p) \<le> 4096 \<and>
     unat (write_pos p) = (unat (read_pos p) + unat (p_count p)) mod 4096"

lemma length_pipe_contents [simp]: "length (pipe_contents p) = unat (p_count p)"
  by (simp add: pipe_contents_def)

lemma unat_pipe_step:
  "unat w < 4096 \<Longrightarrow> unat ((w + 1) mod of_nat PIPE_BUF_SIZE :: u32) = Suc (unat w) mod 4096"
  using unat_ring_step [of w 4096] by (simp add: PIPE_BUF_SIZE_def)

lemma pipe_put_ok:
  assumes "pipe_ok p" and "unat (p_count p) < 4096"
  shows "pipe_ok (pipe_put x p)" and "pipe_contents (pipe_put x p) = pipe_contents p @ [x]"
    and "unat (p_count (pipe_put x p)) = Suc (unat (p_count p))"
proof -
  have w: "unat (write_pos p) < 4096"
    using assms by (simp add: pipe_ok_def)
  show c: "unat (p_count (pipe_put x p)) = Suc (unat (p_count p))"
    using assms by (simp add: pipe_put_def unat_word_ariths)
  show "pipe_ok (pipe_put x p)"
    using assms c unat_pipe_step [OF w] by (auto simp: pipe_ok_def pipe_put_def mod_Suc_eq)
  show "pipe_contents (pipe_put x p) = pipe_contents p @ [x]"
    using assms c ring_list_push [of "unat (p_count p)" "p_buf p" "unat (read_pos p)" x]
    by (simp add: pipe_ok_def pipe_put_def pipe_contents_def)
qed

lemma pipe_full_iff: "p_count p = of_nat PIPE_BUF_SIZE \<longleftrightarrow> unat (p_count p) = 4096"
  by (simp add: PIPE_BUF_SIZE_def word_unat_eq_iff)

lemma pipe_write_loop_ok:
  assumes "pipe_ok p"
  shows "\<exists>p'. pipe_write_loop xs k p =
      (let room = 4096 - unat (p_count p) in
       if length xs \<le> room then WDone (k + length xs)
       else if readers p = 0 then WBroken (if 0 < k + room then int (k + room) else - 1)
       else WBlocked (k + room), p') \<and>
    pipe_ok p' \<and> pipe_contents p' = pipe_contents p @ take (4096 - unat (p_count p)) xs \<and>
    readers p' = readers p \<and> writers p' = writers p"
  using assms
proof (induction xs k p rule: pipe_write_loop.induct)
  case (2 x xs k p)
  show ?case
  proof (cases "unat (p_count p) = 4096")
    case True
    then show ?thesis
      using "2.prems" by (simp add: pipe_full_iff)
  next
    case False
    then have lt: "unat (p_count p) < 4096"
      using "2.prems" by (simp add: pipe_ok_def)
    note put = pipe_put_ok [OF "2.prems" lt, of x]
    obtain j where j: "4096 - unat (p_count p) = Suc j" "4096 - unat (p_count (pipe_put x p)) = j"
      using lt put(3) by (metis Suc_diff_Suc)
    have ends: "readers (pipe_put x p) = readers p" "writers (pipe_put x p) = writers p"
      by (simp_all add: pipe_put_def)
    have nf: "p_count p \<noteq> of_nat PIPE_BUF_SIZE"
      using False by (simp add: pipe_full_iff)
    then have eq: "pipe_write_loop (x # xs) k p = pipe_write_loop xs (k + 1) (pipe_put x p)"
      by simp
    obtain p' where "pipe_write_loop xs (k + 1) (pipe_put x p) =
        (if length xs \<le> j then WDone (k + 1 + length xs)
         else if readers p = 0 then WBroken (if 0 < k + 1 + j then int (k + 1 + j) else - 1)
         else WBlocked (k + 1 + j), p')"
       "pipe_ok p'" "pipe_contents p' = pipe_contents (pipe_put x p) @ take j xs"
       "readers p' = readers p" "writers p' = writers p"
      using "2.IH" [OF nf put(1)] unfolding j(2) ends Let_def by blast
    then show ?thesis
      unfolding eq j(1) put(2) by (intro exI [of _ p']) (simp add: Let_def)
  qed
qed simp

lemma pipe_copy_ok:
  assumes "length (p_buf p) = 4096" and "unat (read_pos p) < 4096"
  shows "\<exists>p'. pipe_copy n p = (ring_list (p_buf p) (unat (read_pos p)) n, p') \<and>
     p' = p\<lparr>read_pos := read_pos p'\<rparr> \<and> unat (read_pos p') = (unat (read_pos p) + n) mod 4096"
  using assms
proof (induction n arbitrary: p)
  case 0
  then show ?case
    by (simp add: ring_list_def)
next
  case (Suc n)
  let ?p = "p\<lparr>read_pos := (read_pos p + 1) mod of_nat PIPE_BUF_SIZE\<rparr>"
  note st = unat_pipe_step [OF Suc.prems(2)]
  obtain p' where "pipe_copy n ?p = (ring_list (p_buf p) (Suc (unat (read_pos p)) mod 4096) n, p')"
      "p' = ?p\<lparr>read_pos := read_pos p'\<rparr>" "unat (read_pos p') = (Suc (unat (read_pos p)) mod 4096 + n) mod 4096"
    using Suc.IH [of ?p] Suc.prems st by auto
  moreover have "ring_list (p_buf p) (unat (read_pos p)) (Suc n) =
      p_buf p ! unat (read_pos p) # ring_list (p_buf p) (Suc (unat (read_pos p)) mod 4096) n"
    using ring_list_pop [of "unat (read_pos p)" "p_buf p" n] Suc.prems by simp
  ultimately show ?case
    by (simp add: mod_add_left_eq)
qed

lemma ring_list_take: "n \<le> m \<Longrightarrow> take n (ring_list b t m) = ring_list b t n"
  by (simp add: ring_list_def take_map)

lemma ring_list_drop:
  assumes "n \<le> m"
  shows "drop n (ring_list b t m) = ring_list b ((t + n) mod length b) (m - n)"
  using assms by (intro nth_equalityI) (auto simp: ring_list_def mod_add_left_eq mod_add_right_eq ac_simps)

lemma pipe_take_ok:
  assumes "pipe_ok p"
  shows "\<exists>p'. pipe_take n p = (take n (pipe_contents p), p') \<and> pipe_ok p' \<and>
     pipe_contents p' = drop n (pipe_contents p) \<and> readers p' = readers p \<and> writers p' = writers p"
proof -
  let ?n = "min n (unat (p_count p))"
  obtain p' where cp: "pipe_copy ?n p = (ring_list (p_buf p) (unat (read_pos p)) ?n, p')"
    and p': "p' = p\<lparr>read_pos := read_pos p'\<rparr>"
    and rp: "unat (read_pos p') = (unat (read_pos p) + ?n) mod 4096"
    using pipe_copy_ok [of p ?n] assms by (auto simp: pipe_ok_def)
  have f: "p_buf p' = p_buf p" "p_count p' = p_count p" "readers p' = readers p" "writers p' = writers p"
      "write_pos p' = write_pos p"
    by (subst p', simp)+
  let ?q = "p'\<lparr>p_count := p_count p' - of_nat ?n\<rparr>"
  have un: "unat (of_nat ?n :: u32) = ?n"
    using assms by (simp add: unat_of_nat pipe_ok_def min.coboundedI2 le_less_trans [of _ 4096])
  have uc: "unat (p_count p' - of_nat ?n) = unat (p_count p) - ?n"
    using un f(2) by (simp add: unat_sub_le word_le_nat_alt)
  have "(unat (read_pos p') + (unat (p_count p) - ?n)) mod 4096 = (unat (read_pos p) + unat (p_count p)) mod 4096"
  proof -
    have "(unat (read_pos p') + (unat (p_count p) - ?n)) mod 4096 =
        (unat (read_pos p) + ?n + (unat (p_count p) - ?n)) mod 4096"
      unfolding rp by (rule mod_add_left_eq)
    then show ?thesis
      by simp
  qed
  then have "pipe_ok ?q"
    using assms f uc rp le_trans [OF diff_le_self, of "unat (p_count p)" 4096] by (auto simp: pipe_ok_def)
  moreover have "take n (pipe_contents p) = ring_list (p_buf p) (unat (read_pos p)) ?n"
    using ring_list_take [of ?n "unat (p_count p)" "p_buf p" "unat (read_pos p)"]
    by (cases "n \<le> unat (p_count p)") (auto simp: pipe_contents_def min_def)
  moreover have "pipe_contents ?q = drop n (pipe_contents p)"
  proof -
    have "drop n (pipe_contents p) = drop ?n (pipe_contents p)"
      by (auto simp: min_def)
    also have "\<dots> = ring_list (p_buf p) ((unat (read_pos p) + ?n) mod 4096) (unat (p_count p) - ?n)"
      using ring_list_drop [of ?n "unat (p_count p)"] assms by (simp add: pipe_contents_def pipe_ok_def)
    finally show ?thesis
      using f uc rp by (simp add: pipe_contents_def)
  qed
  ultimately show ?thesis
    using cp f by (simp add: pipe_take_def Let_def)
qed

interpretation pipe: byte_fifo "\<lambda>xs p. snd (pipe_write_loop xs 0 p)" pipe_take pipe_contents pipe_ok 4096
proof unfold_locales
  fix p xs assume "pipe_ok p"
  then show "pipe_ok (snd (pipe_write_loop xs 0 p)) \<and>
      pipe_contents (snd (pipe_write_loop xs 0 p)) = pipe_contents p @ take (4096 - length (pipe_contents p)) xs"
    using pipe_write_loop_ok [of p xs 0] by auto
next
  fix p n assume "pipe_ok p"
  then show "\<exists>p'. pipe_take n p = (take n (pipe_contents p), p') \<and> pipe_ok p' \<and>
      pipe_contents p' = drop n (pipe_contents p)"
    using pipe_take_ok [of p n] by blast
qed

section \<open>Processes on one pipe\<close>

text \<open>
  A process is idle, in a read or write call that can run, or blocked inside one. \<open>sent\<close> and
  \<open>got\<close> record the bytes put into and taken out of the pipe. \<^verbatim>\<open>task_wake_one\<close> wakes some
  process blocked on the pipe, reader or writer, if there is one.
\<close>

datatype pproc =
    Idle
  | Reading u64 | RWait u64
  | Writing "u8 list" | WLoop "u8 list" nat | WWait "u8 list" nat

record psys =
  ps_pipe :: pipe
  ps_procs :: "pproc list"
  sent :: "u8 list"
  got :: "u8 list"

fun blocked :: "pproc \<Rightarrow> bool" where
  "blocked (RWait n) = True"
| "blocked (WWait xs k) = True"
| "blocked _ = False"

fun unblock :: "pproc \<Rightarrow> pproc" where
  "unblock (RWait n) = Reading n"
| "unblock (WWait xs k) = WLoop xs k"
| "unblock q = q"

inductive wake_one :: "pproc list \<Rightarrow> pproc list \<Rightarrow> bool" where
  wake_some: "i < length qs \<Longrightarrow> blocked (qs ! i) \<Longrightarrow> wake_one qs (qs[i := unblock (qs ! i)])"
| wake_none: "\<forall>q \<in> set qs. \<not> blocked q \<Longrightarrow> wake_one qs qs"

text \<open>What happens after the write loop of process \<open>i\<close> has stopped with a result.\<close>

inductive write_end :: "nat \<Rightarrow> u8 list \<Rightarrow> pipe_wres \<Rightarrow> pproc list \<Rightarrow> pproc list \<Rightarrow> bool" where
  end_done: "wake_one (qs[i := Idle]) qs' \<Longrightarrow> write_end i data (WDone k) qs qs'"
| end_broken: "write_end i data (WBroken r) qs (qs[i := Idle])"
| end_blocked: "write_end i data (WBlocked k) qs (qs[i := WWait data k])"

text \<open>Bytes of the data that are in the pipe once the loop has stopped.\<close>

fun written :: "nat \<Rightarrow> u8 list \<Rightarrow> pipe_wres \<Rightarrow> nat" where
  "written k data (WDone n) = n"
| "written k data (WBlocked n) = n"
| "written k data (WBroken r) = (if r < 0 then k else nat r)"

inductive pipe_step :: "psys \<Rightarrow> psys \<Rightarrow> bool" where
  read_blocks: "i < length (ps_procs s) \<Longrightarrow> ps_procs s ! i = Reading n \<Longrightarrow>
    pipe_read n (ps_pipe s) = (PBlocked, p') \<Longrightarrow>
    pipe_step s (s\<lparr>ps_pipe := p', ps_procs := (ps_procs s)[i := RWait n]\<rparr>)"
| read_eof: "i < length (ps_procs s) \<Longrightarrow> ps_procs s ! i = Reading n \<Longrightarrow>
    pipe_read n (ps_pipe s) = (PEof, p') \<Longrightarrow>
    pipe_step s (s\<lparr>ps_pipe := p', ps_procs := (ps_procs s)[i := Idle]\<rparr>)"
| read_data: "i < length (ps_procs s) \<Longrightarrow> ps_procs s ! i = Reading n \<Longrightarrow>
    pipe_read n (ps_pipe s) = (PData bs, p') \<Longrightarrow> wake_one ((ps_procs s)[i := Idle]) qs \<Longrightarrow>
    pipe_step s (s\<lparr>ps_pipe := p', ps_procs := qs, got := got s @ bs\<rparr>)"
| write_first: "i < length (ps_procs s) \<Longrightarrow> ps_procs s ! i = Writing data \<Longrightarrow>
    pipe_write data (ps_pipe s) = (r, p') \<Longrightarrow> write_end i data r (ps_procs s) qs \<Longrightarrow>
    pipe_step s (s\<lparr>ps_pipe := p', ps_procs := qs, sent := sent s @ take (written 0 data r) data\<rparr>)"
| write_again: "i < length (ps_procs s) \<Longrightarrow> ps_procs s ! i = WLoop data k \<Longrightarrow>
    pipe_write_resume data k (ps_pipe s) = (r, p') \<Longrightarrow> write_end i data r (ps_procs s) qs \<Longrightarrow>
    pipe_step s (s\<lparr>ps_pipe := p', ps_procs := qs,
      sent := sent s @ take (written k data r - k) (drop k data)\<rparr>)"

text \<open>
  The rest of the system: an idle process starts a call, ends are opened or closed (closing the
  last one wakes everybody), or a signal ends a blocked read.
\<close>

inductive pipe_env :: "psys \<Rightarrow> psys \<Rightarrow> bool" where
  start_read: "i < length (ps_procs s) \<Longrightarrow> ps_procs s ! i = Idle \<Longrightarrow>
    pipe_env s (s\<lparr>ps_procs := (ps_procs s)[i := Reading n]\<rparr>)"
| start_write: "i < length (ps_procs s) \<Longrightarrow> ps_procs s ! i = Idle \<Longrightarrow>
    pipe_env s (s\<lparr>ps_procs := (ps_procs s)[i := Writing data]\<rparr>)"
| set_ends: "pipe_env s (s\<lparr>ps_pipe := (ps_pipe s)\<lparr>readers := r, writers := w\<rparr>,
      ps_procs := map unblock (ps_procs s)\<rparr>)"
| signal: "i < length (ps_procs s) \<Longrightarrow> ps_procs s ! i = RWait n \<Longrightarrow>
    pipe_env s (s\<lparr>ps_procs := (ps_procs s)[i := Idle]\<rparr>)"

inductive pipe_reach :: "psys \<Rightarrow> psys \<Rightarrow> bool" where
  reach_refl: "pipe_reach s s"
| reach_step: "pipe_reach s t \<Longrightarrow> pipe_step t u \<Longrightarrow> pipe_reach s u"
| reach_env: "pipe_reach s t \<Longrightarrow> pipe_env t u \<Longrightarrow> pipe_reach s u"

inductive_cases pipe_stepE: "pipe_step s t"
inductive_cases pipe_envE: "pipe_env s t"

section \<open>Order of bytes and progress\<close>

lemma take_written:
  "take (written k data (if length xs \<le> R then WDone (k + length xs)
      else if c then WBroken (if 0 < k + R then int (k + R) else - 1) else WBlocked (k + R)) - k) xs =
   take R xs"
  by (auto simp: nat_int_add)

lemma write_loop_sent:
  assumes "pipe_ok p" and "pipe_write_loop xs k p = (r, p')"
  shows "pipe_ok p' \<and> pipe_contents p' = pipe_contents p @ take (written k data r - k) xs"
proof -
  let ?room = "4096 - unat (p_count p)"
  have r: "r = (if length xs \<le> ?room then WDone (k + length xs)
       else if readers p = 0 then WBroken (if 0 < k + ?room then int (k + ?room) else - 1)
       else WBlocked (k + ?room))"
    and p': "pipe_ok p'" "pipe_contents p' = pipe_contents p @ take ?room xs"
    using pipe_write_loop_ok [OF assms(1), of xs k] assms(2) by (auto simp: Let_def)
  have "take (written k data r - k) xs = take ?room xs"
    unfolding r by (rule take_written)
  then show ?thesis
    using p' by simp
qed

definition psys_ok :: "psys \<Rightarrow> bool" where
  "psys_ok s \<longleftrightarrow> pipe_ok (ps_pipe s) \<and> got s @ pipe_contents (ps_pipe s) = sent s"

lemma pipe_read_ok:
  assumes "pipe_ok p" and "pipe_read n p = (r, p')"
  shows "pipe_ok p' \<and> (case r of PData bs \<Rightarrow> bs @ pipe_contents p' = pipe_contents p | _ \<Rightarrow> p' = p)"
  using assms pipe_take_ok [OF assms(1), of "unat n"]
  by (auto simp: pipe_read_def split: if_splits prod.splits)

lemma pipe_step_ok: "pipe_step s t \<Longrightarrow> psys_ok s \<Longrightarrow> psys_ok t"
proof (induction rule: pipe_step.induct)
  case (read_blocks i s n p')
  then show ?case
    using pipe_read_ok [of "ps_pipe s" n] by (fastforce simp: psys_ok_def)
next
  case (read_eof i s n p')
  then show ?case
    using pipe_read_ok [of "ps_pipe s" n] by (fastforce simp: psys_ok_def)
next
  case (read_data i s n bs p' qs)
  then show ?case
    using pipe_read_ok [of "ps_pipe s" n "PData bs" p'] by (simp add: psys_ok_def)
next
  case (write_first i s data r p' qs)
  show ?case
  proof (cases "readers (ps_pipe s) = 0")
    case True
    then show ?thesis
      using write_first by (auto simp: pipe_write_def psys_ok_def)
  next
    case False
    then show ?thesis
      using write_first write_loop_sent [of "ps_pipe s" data 0 r p' data]
      by (simp add: pipe_write_def psys_ok_def flip: append_assoc)
  qed
next
  case (write_again i s data k r p' qs)
  then show ?case
    using write_loop_sent [of "ps_pipe s" "drop k data" k r p' data]
    by (simp add: pipe_write_resume_def psys_ok_def flip: append_assoc)
qed

lemma pipe_env_ok: "pipe_env s t \<Longrightarrow> psys_ok s \<Longrightarrow> psys_ok t"
  by (induction rule: pipe_env.induct) (auto simp: psys_ok_def pipe_ok_def pipe_contents_def)

lemma pipe_reach_ok: "pipe_reach s t \<Longrightarrow> psys_ok s \<Longrightarrow> psys_ok t"
  by (induction rule: pipe_reach.induct) (auto intro: pipe_step_ok pipe_env_ok)

definition pipe_start :: "pproc list \<Rightarrow> psys" where
  "pipe_start qs = \<lparr>ps_pipe = pipe_zero\<lparr>readers := 1, writers := 1, p_used := True\<rparr>, ps_procs = qs,
     sent = [], got = []\<rparr>"

lemma pipe_zero_ok: "pipe_ok (pipe_zero\<lparr>readers := r, writers := w, p_used := u\<rparr>)"
    "pipe_contents (pipe_zero\<lparr>readers := r, writers := w, p_used := u\<rparr>) = []"
  by (simp_all add: pipe_ok_def pipe_zero_def pipe_contents_def ring_list_def PIPE_BUF_SIZE_def)

lemma pipe_start_ok: "psys_ok (pipe_start qs)"
  using pipe_zero_ok by (simp add: psys_ok_def pipe_start_def)

section \<open>Properties\<close>

text \<open>
  Calls that are not preempted deliver the bytes in order and lose none, for any number of processes.
\<close>

lemma pipe_calls_fifo:
  assumes "pipe_reach (pipe_start qs) s"
  shows "got s @ pipe_contents (ps_pipe s) = sent s \<and> length (pipe_contents (ps_pipe s)) \<le> PIPE_BUF_SIZE"
  using pipe_reach_ok [OF assms pipe_start_ok]
  by (simp add: psys_ok_def pipe_ok_def PIPE_BUF_SIZE_def)

text \<open>
  C21. A write of more than 4096 bytes can deadlock a pipe. When a reader already waits on the
  empty pipe, the writer fills the buffer and blocks without having woken it: both processes
  are blocked with 4096 bytes ready to be read, and no process of the system can make a step.
\<close>
theorem pipe_write_deadlock:
  assumes "4096 < length data" and "0 < n"
  shows "\<exists>s. pipe_reach (pipe_start [Reading n, Writing data]) s \<and>
     ps_procs s = [RWait n, WWait data 4096] \<and> length (pipe_contents (ps_pipe s)) = 4096 \<and>
     (\<forall>t. \<not> pipe_step s t)"
proof -
  let ?s0 = "pipe_start [Reading n, Writing data]"
  let ?p0 = "ps_pipe ?s0"
  have ok: "pipe_ok ?p0" "p_count ?p0 = 0" "readers ?p0 = 1" "writers ?p0 = 1"
    using pipe_zero_ok by (simp_all add: pipe_start_def) (simp add: pipe_zero_def)
  define s1 where "s1 = ?s0\<lparr>ps_pipe := ?p0, ps_procs := (ps_procs ?s0)[0 := RWait n]\<rparr>"
  have st1: "pipe_step ?s0 s1"
    unfolding s1_def by (rule read_blocks) (simp_all add: ok pipe_read_def, simp_all add: pipe_start_def)
  obtain p' where w: "pipe_write data ?p0 = (WBlocked 4096, p')" and p': "pipe_ok p'"
      "pipe_contents p' = pipe_contents ?p0 @ take 4096 data"
    using pipe_write_loop_ok [OF ok(1), of data 0] ok assms by (auto simp: pipe_write_def)
  define s2 where "s2 = s1\<lparr>ps_pipe := p', ps_procs := (ps_procs s1)[1 := WWait data 4096],
      sent := sent s1 @ take (written 0 data (WBlocked 4096)) data\<rparr>"
  have st2: "pipe_step s1 s2"
    unfolding s2_def
    by (rule write_first [OF _ _ _ end_blocked]) (use w in \<open>simp_all add: s1_def pipe_start_def\<close>)
  have procs: "ps_procs s2 = [RWait n, WWait data 4096]"
    by (simp add: s2_def s1_def pipe_start_def)
  have "\<not> pipe_step s2 t" for t
    by (auto elim!: pipe_stepE simp: procs nth_Cons split: nat.splits)
  moreover have "length (pipe_contents (ps_pipe s2)) = 4096"
    using p'(2) assms ok(2) by (simp add: s2_def pipe_contents_def)
  ultimately show ?thesis
    using procs reach_step [OF reach_step [OF reach_refl st1] st2] by blast
qed

theorem pipe_write_deadlock_witness:
  "\<exists>s. pipe_reach (pipe_start [Reading 1, Writing (replicate 5000 7)]) s \<and> (\<forall>t. \<not> pipe_step s t)"
  using pipe_write_deadlock [of "replicate 5000 7" 1] by auto

end
