(* ===== verification/PipePreempt.thy ===== *)
theory PipePreempt
  imports Pipe "HOL-Library.Sublist"
begin

text \<open>
  Pipes under preemption. A blocked \<open>pipe_read\<close> or \<open>pipe_write\<close> turns interrupts on
  (\<^verbatim>\<open>fs/pipe.c\<close>, lines 65 and 114) and never turns them off again, and kernel tasks run with interrupts on, so the
  timer can switch tasks between any two accesses to the pipe. Here each of the two calls is
  a machine with one step per access: the test of the count, the copy of a byte, the update
  of a position, the update of the count, each wake-up. One reading and one writing process
  run these machines in any interleaving. An update of the count is a single instruction of
  the one processor, so it is one step; a process is not terminated inside a call.
\<close>

section \<open>The calls, one access at a time\<close>

datatype rstate =
    RdIdle
  | RdTest u64 | RdWriters u64 | RdBlock u64 | RdHalt u64 | RdSignal u64
  | RdAvail u64 | RdCopy nat "u8 list" | RdNext nat "u8 list" | RdSub "u8 list" | RdWake "u8 list"

fun rstep :: "rstate \<Rightarrow> pipe \<Rightarrow> rstate \<times> pipe" where
  "rstep (RdTest n) p = (if p_count p = 0 then RdWriters n else RdAvail n, p)"
| "rstep (RdWriters n) p = (if writers p = 0 then RdIdle else RdBlock n, p)"
| "rstep (RdBlock n) p = (RdHalt n, p)"
| "rstep (RdAvail n) p = (RdCopy (min (unat n) (unat (p_count p))) [], p)"
| "rstep (RdCopy cnt bs) p =
     (if length bs < cnt then RdNext cnt (bs @ [p_buf p ! unat (read_pos p)]) else RdSub bs, p)"
| "rstep (RdNext cnt bs) p = (RdCopy cnt bs, p\<lparr>read_pos := (read_pos p + 1) mod of_nat PIPE_BUF_SIZE\<rparr>)"
| "rstep (RdSub bs) p = (RdWake bs, p\<lparr>p_count := p_count p - of_nat (length bs)\<rparr>)"
| "rstep r p = (r, p)"

datatype wstate =
    WrIdle
  | WrEnter "u8 list" | WrTest "u8 list" nat | WrReaders "u8 list" nat | WrBlock "u8 list" nat
  | WrHalt "u8 list" nat | WrStore "u8 list" nat | WrNext "u8 list" nat | WrInc "u8 list" nat
  | WrWake "u8 list" nat | WrBroken "u8 list" nat

fun wstep :: "wstate \<Rightarrow> pipe \<Rightarrow> wstate \<times> pipe" where
  "wstep (WrEnter data) p = (if readers p = 0 then WrBroken data 0 else WrTest data 0, p)"
| "wstep (WrTest data k) p =
     (if length data \<le> k then WrWake data k
      else if p_count p = of_nat PIPE_BUF_SIZE then WrReaders data k
      else WrStore data k, p)"
| "wstep (WrReaders data k) p = (if readers p = 0 then WrBroken data k else WrBlock data k, p)"
| "wstep (WrBlock data k) p = (WrHalt data k, p)"
| "wstep (WrStore data k) p = (WrNext data k, p\<lparr>p_buf := (p_buf p)[unat (write_pos p) := data ! k]\<rparr>)"
| "wstep (WrNext data k) p = (WrInc data k, p\<lparr>write_pos := (write_pos p + 1) mod of_nat PIPE_BUF_SIZE\<rparr>)"
| "wstep (WrInc data k) p = (WrTest data (k + 1), p\<lparr>p_count := p_count p + 1\<rparr>)"
| "wstep w p = (w, p)"

fun rd_wake :: "rstate \<Rightarrow> rstate" where
  "rd_wake (RdHalt n) = RdSignal n"
| "rd_wake r = r"

fun wr_wake :: "wstate \<Rightarrow> wstate" where
  "wr_wake (WrHalt data k) = WrTest data k"
| "wr_wake w = w"




section \<open>What a call in progress has done\<close>

fun rd_bytes :: "rstate \<Rightarrow> u8 list" where
  "rd_bytes (RdCopy cnt bs) = bs"
| "rd_bytes (RdNext cnt bs) = bs"
| "rd_bytes (RdSub bs) = bs"
| "rd_bytes (RdWake bs) = bs"
| "rd_bytes r = []"

fun wr_bytes :: "wstate \<Rightarrow> u8 list" where
  "wr_bytes (WrTest data k) = take k data"
| "wr_bytes (WrReaders data k) = take k data"
| "wr_bytes (WrBlock data k) = take k data"
| "wr_bytes (WrHalt data k) = take k data"
| "wr_bytes (WrStore data k) = take k data"
| "wr_bytes (WrNext data k) = take k data"
| "wr_bytes (WrInc data k) = take k data"
| "wr_bytes (WrWake data k) = take k data"
| "wr_bytes (WrBroken data k) = take k data"
| "wr_bytes w = []"

text \<open>
  \<open>rd_adv\<close>: positions the reader has passed that the count still includes; \<open>rd_ahead\<close>: bytes it
  has copied without passing them; \<open>wr_adv\<close>: positions the writer has passed that the count does not include yet.
\<close>

fun rd_adv :: "rstate \<Rightarrow> nat" where
  "rd_adv (RdCopy cnt bs) = length bs"
| "rd_adv (RdNext cnt bs) = length bs - 1"
| "rd_adv (RdSub bs) = length bs"
| "rd_adv r = 0"

fun rd_ahead :: "rstate \<Rightarrow> nat" where
  "rd_ahead (RdNext cnt bs) = 1"
| "rd_ahead r = 0"

fun wr_adv :: "wstate \<Rightarrow> nat" where
  "wr_adv (WrInc data k) = 1"
| "wr_adv w = 0"

definition unread :: "rstate \<Rightarrow> pipe \<Rightarrow> nat" where
  "unread r p = unat (p_count p) - rd_adv r"

definition rd_ok :: "rstate \<Rightarrow> pipe \<Rightarrow> bool" where
  "rd_ok r p \<longleftrightarrow> (case r of
       RdCopy cnt bs \<Rightarrow> length bs \<le> cnt \<and> cnt \<le> unat (p_count p)
     | RdNext cnt bs \<Rightarrow> bs \<noteq> [] \<and> length bs \<le> cnt \<and> cnt \<le> unat (p_count p) \<and> last bs = p_buf p ! unat (read_pos p)
     | RdSub bs \<Rightarrow> length bs \<le> unat (p_count p)
     | _ \<Rightarrow> True)"

definition wr_ok :: "wstate \<Rightarrow> rstate \<Rightarrow> pipe \<Rightarrow> bool" where
  "wr_ok w r p \<longleftrightarrow> (case w of
       WrStore data k \<Rightarrow> k < length data \<and> unat (p_count p) < 4096
     | WrNext data k \<Rightarrow> k < length data \<and> unat (p_count p) < 4096 \<and>
         p_buf p ! ((unat (read_pos p) + unread r p) mod 4096) = data ! k
     | WrInc data k \<Rightarrow> k < length data \<and> unat (p_count p) < 4096 \<and>
         p_buf p ! ((unat (read_pos p) + unread r p) mod 4096) = data ! k
     | _ \<Rightarrow> True)"


lemma rd_wake_same [simp]:
  "rd_bytes (rd_wake r) = rd_bytes r" "rd_adv (rd_wake r) = rd_adv r" "rd_ahead (rd_wake r) = rd_ahead r"
  "rd_ok (rd_wake r) p = rd_ok r p" "unread (rd_wake r) p = unread r p" "wr_ok w (rd_wake r) p = wr_ok w r p"
  by (cases r; simp add: rd_ok_def unread_def wr_ok_def split: wstate.splits)+

lemma wr_wake_same [simp]:
  "wr_bytes (wr_wake w) = wr_bytes w" "wr_adv (wr_wake w) = wr_adv w" "wr_ok (wr_wake w) r p = wr_ok w r p"
  by (cases w; simp add: wr_ok_def)+

section \<open>Every access keeps the invariant\<close>




















section \<open>Calls that are not interrupted\<close>

text \<open>Run alone, the machines compute the calls of \<open>Pipe\<close>.\<close>

definition rd_alone :: "nat \<Rightarrow> rstate \<times> pipe \<Rightarrow> rstate \<times> pipe" where
  "rd_alone m = (\<lambda>(r, p). rstep r p) ^^ m"

definition wr_alone :: "nat \<Rightarrow> wstate \<times> pipe \<Rightarrow> wstate \<times> pipe" where
  "wr_alone m = (\<lambda>(w, p). wstep w p) ^^ m"

lemma rd_alone_simps [simp]:
  "rd_alone 0 x = x" "rd_alone (Suc m) (r, p) = rd_alone m (rstep r p)" "rd_alone (i + j) x = rd_alone j (rd_alone i x)"
  by (simp_all add: rd_alone_def funpow_swap1 add.commute [of i j] funpow_add)

lemma wr_alone_simps [simp]:
  "wr_alone 0 x = x" "wr_alone (Suc m) (w, p) = wr_alone m (wstep w p)" "wr_alone (i + j) y = wr_alone j (wr_alone i y)"
  by (simp_all add: wr_alone_def funpow_swap1 add.commute [of i j] funpow_add)







section \<open>Properties\<close>



end
