(* ===== verification/RamFs.thy ===== *)
theory RamFs
  imports KString
begin

text \<open>
  The in-memory file system \<^verbatim>\<open>fs/ramfs.c\<close>: a table of 64 inodes, directories as arrays of
  64-byte entries, path resolution, creation and removal. The data of an inode is the file's
  buffer (\<open>i_bytes\<close>, as long as its capacity) or the directory's entries (\<open>i_ents\<close>). The heap is a
  parameter of each call that allocates: \<open>km n\<close> is the buffer \<^verbatim>\<open>kmalloc(n)\<close> returns, with
  whatever it contains, or nothing. The caller's user and group come from the current task.
  A call that would write past a local buffer has the result \<open>None\<close>.
\<close>

section \<open>Inodes\<close>

definition VFS_MAX_INODES :: nat where
  "VFS_MAX_INODES = 64"

definition VFS_NAME_MAX :: nat where
  "VFS_NAME_MAX = 60"

definition VFS_PATH_MAX :: nat where
  "VFS_PATH_MAX = 256"

abbreviation VFS_FILE :: u32 where
  "VFS_FILE \<equiv> 1"

abbreviation VFS_DIR :: u32 where
  "VFS_DIR \<equiv> 2"

abbreviation slash :: u8 where
  "slash \<equiv> 47"

text \<open>The size of a directory entry in bytes.\<close>

abbreviation DIRENT :: u32 where
  "DIRENT \<equiv> 64"

record vfs_inode =
  i_type :: u32
  i_size :: u32
  i_bytes :: "u8 list"
  i_ents :: "(cstring \<times> u32) list"
  i_cap :: u32
  i_used :: bool
  i_uid :: u16
  i_gid :: u16
  i_mode :: u16

type_synonym ramfs = "vfs_inode list"

definition inode_zero :: vfs_inode where
  "inode_zero = \<lparr>i_type = 0, i_size = 0, i_bytes = [], i_ents = [], i_cap = 0, i_used = False,
     i_uid = 0, i_gid = 0, i_mode = 0\<rparr>"

definition ramfs_get_inode :: "u32 \<Rightarrow> ramfs \<Rightarrow> vfs_inode option" where
  "ramfs_get_inode idx fs =
     (if of_nat VFS_MAX_INODES \<le> idx \<or> \<not> i_used (fs ! unat idx) then None else Some (fs ! unat idx))"

definition alloc_inode :: "ramfs \<Rightarrow> (nat \<times> ramfs) option" where
  "alloc_inode fs =
     (case first_idx (\<lambda>n. \<not> i_used n) fs of
        None \<Rightarrow> None
      | Some i \<Rightarrow> Some (i, fs[i := inode_zero\<lparr>i_used := True\<rparr>]))"

definition dir_add_entry ::
  "(u32 \<Rightarrow> u8 list option) \<Rightarrow> u32 \<Rightarrow> cstring \<Rightarrow> u32 \<Rightarrow> ramfs \<Rightarrow> ramfs option" where
  "dir_add_entry km dir_ino name child_ino fs =
     (let dir = fs ! unat dir_ino in
      if i_type dir \<noteq> VFS_DIR then None
      else
        let entry_count = i_size dir div DIRENT;
            needed = (entry_count + 1) * DIRENT;
            new_cap = (if needed * 2 < 512 then 512 else needed * 2);
            entry = (field_copy VFS_NAME_MAX name, child_ino)
        in if i_cap dir < needed
           then (case km new_cap of
                   None \<Rightarrow> None
                 | Some buf \<Rightarrow> Some (fs[unat dir_ino := dir\<lparr>i_ents := i_ents dir @ [entry], i_cap := new_cap,
                                                          i_size := needed\<rparr>]))
           else Some (fs[unat dir_ino := dir\<lparr>i_ents := i_ents dir @ [entry], i_size := needed\<rparr>]))"

definition ramfs_dir_entry_count :: "u32 \<Rightarrow> ramfs \<Rightarrow> u32" where
  "ramfs_dir_entry_count ino fs =
     (case ramfs_get_inode ino fs of
        None \<Rightarrow> 0
      | Some n \<Rightarrow> if i_type n \<noteq> VFS_DIR then 0 else i_size n div DIRENT)"

definition ramfs_dir_get_entry :: "u32 \<Rightarrow> u32 \<Rightarrow> ramfs \<Rightarrow> (cstring \<times> u32) option" where
  "ramfs_dir_get_entry ino idx fs =
     (case ramfs_get_inode ino fs of
        None \<Rightarrow> None
      | Some n \<Rightarrow>
          if i_type n \<noteq> VFS_DIR then None
          else if i_size n div DIRENT \<le> idx then None
          else Some (i_ents n ! unat idx))"

section \<open>Paths\<close>

definition dir_lookup :: "vfs_inode \<Rightarrow> cstring \<Rightarrow> u32 option" where
  "dir_lookup dir name = map_option (\<lambda>i. snd (i_ents dir ! i)) (first_idx (\<lambda>e. fst e = name) (i_ents dir))"

text \<open>One component: at most 59 bytes up to the next slash.\<close>

definition component :: "cstring \<Rightarrow> cstring" where
  "component p = take (VFS_NAME_MAX - 1) (takeWhile (\<lambda>c. c \<noteq> slash) p)"

function resolve_loop :: "ramfs \<Rightarrow> u32 \<Rightarrow> cstring \<Rightarrow> u32 option" where
  "resolve_loop fs cur p =
     (let p1 = dropWhile (\<lambda>c. c = slash) p in
      if p1 = [] then Some cur
      else
        let comp = component p1
        in case ramfs_get_inode cur fs of
             None \<Rightarrow> None
           | Some dir \<Rightarrow>
               if i_type dir \<noteq> VFS_DIR then None
               else (case dir_lookup dir comp of
                       None \<Rightarrow> None
                     | Some ino \<Rightarrow> resolve_loop fs ino (drop (length comp) p1)))"
  by pat_completeness auto
termination
proof (relation "measure (\<lambda>(fs, cur, p). length p)", goal_cases)
  case (2 fs cur p p1 comp dir ino)
  then obtain c r where p1: "p1 = c # r" "c \<noteq> slash"
    using hd_dropWhile [of "\<lambda>c. c = slash" p] by (metis list.exhaust list.sel(1))
  then have "component p1 \<noteq> []"
    by (simp add: component_def VFS_NAME_MAX_def)
  then have "length (drop (length comp) p1) < length p1"
    using 2 p1 by (cases "component p1") auto
  then show ?case
    using 2 length_dropWhile_le [of "\<lambda>c. c = slash" p] by simp
qed simp

declare resolve_loop.simps [simp del]

definition ramfs_resolve_path :: "cstring \<Rightarrow> ramfs \<Rightarrow> int" where
  "ramfs_resolve_path path fs =
     (if path = [] \<or> hd path \<noteq> slash then - 1
      else if tl path = [] then 0
      else (case resolve_loop fs 0 (tl path) of Some i \<Rightarrow> uint i | None \<Rightarrow> - 1))"

datatype split = SplitErr | SplitOverflow | SplitOk cstring cstring

text \<open>The position of the last slash, 0 when there is none after the first byte.\<close>

definition last_slash :: "cstring \<Rightarrow> nat" where
  "last_slash path =
     (case find (\<lambda>i. path ! i = slash) (rev [1..<length path]) of Some i \<Rightarrow> i | None \<Rightarrow> 0)"

definition split_path :: "cstring \<Rightarrow> split" where
  "split_path path =
     (if length path < 2 \<or> hd path \<noteq> slash then SplitErr
      else
        let ls = last_slash path;
            parent = (if ls = 0 then [slash] else take ls path);
            name = drop (ls + 1) path
        in if VFS_PATH_MAX < length parent + 1 \<or> VFS_NAME_MAX < length name + 1 then SplitOverflow
           else SplitOk parent name)"

section \<open>Creation and removal\<close>

definition set_owner :: "(u16 \<times> u16) option \<Rightarrow> vfs_inode \<Rightarrow> vfs_inode" where
  "set_owner cur n = (case cur of None \<Rightarrow> n | Some (uid, gid) \<Rightarrow> n\<lparr>i_uid := uid, i_gid := gid\<rparr>)"

text \<open>The common tail of creating a file or a directory.\<close>

definition create_node ::
  "(u32 \<Rightarrow> u8 list option) \<Rightarrow> (u16 \<times> u16) option \<Rightarrow> u32 \<Rightarrow> u16 \<Rightarrow> u32 \<Rightarrow> cstring \<Rightarrow> ramfs \<Rightarrow> int \<times> ramfs" where
  "create_node km cur type mode parent_ino name fs =
     (case alloc_inode fs of
        None \<Rightarrow> (- 1, fs)
      | Some (ino, fs1) \<Rightarrow>
          (let fs2 = fs1[ino := set_owner cur ((fs1 ! ino)\<lparr>i_type := type, i_size := 0, i_bytes := [],
                                                  i_cap := 0, i_mode := mode\<rparr>)]
           in case dir_add_entry km parent_ino name (of_nat ino) fs2 of
                None \<Rightarrow> (- 1, fs2[ino := (fs2 ! ino)\<lparr>i_used := False\<rparr>])
              | Some fs3 \<Rightarrow> (int ino, fs3)))"

definition ramfs_create_file ::
  "(u32 \<Rightarrow> u8 list option) \<Rightarrow> (u16 \<times> u16) option \<Rightarrow> cstring \<Rightarrow> ramfs \<Rightarrow> (int \<times> ramfs) option" where
  "ramfs_create_file km cur path fs =
     (case split_path path of
        SplitErr \<Rightarrow> Some (- 1, fs)
      | SplitOverflow \<Rightarrow> None
      | SplitOk parent name \<Rightarrow>
          (let parent_ino = ramfs_resolve_path parent fs in
           if parent_ino < 0 then Some (- 1, fs)
           else
             let existing = ramfs_resolve_path path fs in
             if 0 \<le> existing then Some (existing, fs)
             else Some (create_node km cur VFS_FILE 0x1A4 (word_of_int parent_ino) name fs)))"

definition ramfs_create_dir ::
  "(u32 \<Rightarrow> u8 list option) \<Rightarrow> (u16 \<times> u16) option \<Rightarrow> cstring \<Rightarrow> ramfs \<Rightarrow> (int \<times> ramfs) option" where
  "ramfs_create_dir km cur path fs =
     (case split_path path of
        SplitErr \<Rightarrow> Some (- 1, fs)
      | SplitOverflow \<Rightarrow> None
      | SplitOk parent name \<Rightarrow>
          (let parent_ino = ramfs_resolve_path parent fs in
           if parent_ino < 0 then Some (- 1, fs)
           else if 0 \<le> ramfs_resolve_path path fs then Some (- 1, fs)
           else Some (create_node km cur VFS_DIR 0x1ED (word_of_int parent_ino) name fs)))"

definition remove_entry :: "cstring \<Rightarrow> vfs_inode \<Rightarrow> vfs_inode" where
  "remove_entry name parent =
     (case first_idx (\<lambda>e. fst e = name) (i_ents parent) of
        None \<Rightarrow> parent
      | Some i \<Rightarrow> parent\<lparr>i_ents := take i (i_ents parent) @ drop (i + 1) (i_ents parent),
                         i_size := i_size parent - DIRENT\<rparr>)"

definition ramfs_unlink :: "cstring \<Rightarrow> ramfs \<Rightarrow> (int \<times> ramfs) option" where
  "ramfs_unlink path fs =
     (case split_path path of
        SplitErr \<Rightarrow> Some (- 1, fs)
      | SplitOverflow \<Rightarrow> None
      | SplitOk parent_path name \<Rightarrow>
          (let parent_ino = ramfs_resolve_path parent_path fs;
               target_ino = ramfs_resolve_path path fs in
           if parent_ino < 0 \<or> target_ino < 0 then Some (- 1, fs)
           else
             case (ramfs_get_inode (word_of_int target_ino) fs, ramfs_get_inode (word_of_int parent_ino) fs) of
               (Some target, Some parent) \<Rightarrow>
                 if i_type target \<noteq> VFS_FILE \<or> i_type parent \<noteq> VFS_DIR then Some (- 1, fs)
                 else
                   let fs1 = fs[nat parent_ino := remove_entry name parent]
                   in Some (0, fs1[nat target_ino := (fs1 ! nat target_ino)
                                     \<lparr>i_bytes := [], i_used := False, i_size := 0, i_cap := 0\<rparr>])
             | _ \<Rightarrow> Some (- 1, fs)))"

definition ramfs_init :: ramfs where
  "ramfs_init = (replicate VFS_MAX_INODES inode_zero)
     [0 := inode_zero\<lparr>i_used := True, i_type := VFS_DIR, i_mode := 0x1ED\<rparr>]"

end
