(* ===== verification/Bytes.thy ===== *)
theory Bytes
  imports PlantPrelude
begin

text \<open>
  Multi-byte fields of byte buffers, in the two byte orders the code uses: little endian for the
  on-disk structures and big endian for packets. Reading and writing a field are functions on
  byte lists; the laws say that a field reads back what was written and that writing a field
  leaves the rest of the buffer alone.
\<close>

unbundle bit_operations_syntax

section \<open>Fields\<close>

definition le16 :: "u8 list \<Rightarrow> nat \<Rightarrow> u16" where
  "le16 bs i = word_cat (bs ! (i + 1)) (bs ! i)"

definition le32 :: "u8 list \<Rightarrow> nat \<Rightarrow> u32" where
  "le32 bs i = word_cat (le16 bs (i + 2)) (le16 bs i)"

definition put_le16 :: "u16 \<Rightarrow> u8 list" where
  "put_le16 w = [ucast w, ucast (drop_bit 8 w)]"

definition put_le32 :: "u32 \<Rightarrow> u8 list" where
  "put_le32 w = put_le16 (ucast w) @ put_le16 (ucast (drop_bit 16 w))"

definition be16 :: "u8 list \<Rightarrow> nat \<Rightarrow> u16" where
  "be16 bs i = word_cat (bs ! i) (bs ! (i + 1))"

definition be32 :: "u8 list \<Rightarrow> nat \<Rightarrow> u32" where
  "be32 bs i = word_cat (be16 bs i) (be16 bs (i + 2))"

definition put_be16 :: "u16 \<Rightarrow> u8 list" where
  "put_be16 w = [ucast (drop_bit 8 w), ucast w]"

definition put_be32 :: "u32 \<Rightarrow> u8 list" where
  "put_be32 w = put_be16 (ucast (drop_bit 16 w)) @ put_be16 (ucast w)"

text \<open>Overwriting part of a buffer.\<close>

definition overwrite :: "nat \<Rightarrow> 'a list \<Rightarrow> 'a list \<Rightarrow> 'a list" where
  "overwrite i ys xs = take i xs @ ys @ drop (i + length ys) xs"

section \<open>Laws\<close>

lemma length_put [simp]:
  "length (put_le16 w) = 2" "length (put_le32 v) = 4" "length (put_be16 w) = 2" "length (put_be32 v) = 4"
  by (simp_all add: put_le16_def put_le32_def put_be16_def put_be32_def)

lemma word_cat_split_16: "word_cat (ucast (drop_bit 8 (w :: u16)) :: u8) (ucast w :: u8) = w"
  by (rule bit_word_eqI) (auto simp: bit_word_cat_iff bit_ucast_iff bit_drop_bit_eq)

lemma word_cat_split_32: "word_cat (ucast (drop_bit 16 (w :: u32)) :: u16) (ucast w :: u16) = w"
  by (rule bit_word_eqI) (auto simp: bit_word_cat_iff bit_ucast_iff bit_drop_bit_eq)

lemma ucast_word_cat_8: "ucast (word_cat (a :: u8) (b :: u8) :: u16) = b" "ucast (drop_bit 8 (word_cat (a :: u8) (b :: u8) :: u16)) = a"
  by (rule bit_word_eqI; auto simp: bit_word_cat_iff bit_ucast_iff bit_drop_bit_eq)+

lemma ucast_word_cat_16: "ucast (word_cat (a :: u16) (b :: u16) :: u32) = b" "ucast (drop_bit 16 (word_cat (a :: u16) (b :: u16) :: u32)) = a"
  by (rule bit_word_eqI; auto simp: bit_word_cat_iff bit_ucast_iff bit_drop_bit_eq)+

lemma get_put_16 [simp]: "le16 (put_le16 w @ xs) 0 = w" "be16 (put_be16 w @ xs) 0 = w"
  by (simp_all add: le16_def be16_def put_le16_def put_be16_def word_cat_split_16)

lemma get_put_32 [simp]: "le32 (put_le32 w @ xs) 0 = w" "be32 (put_be32 w @ xs) 0 = w"
proof -
  show "le32 (put_le32 w @ xs) 0 = w"
    by (simp add: le32_def put_le32_def le16_def put_le16_def word_cat_split_16 word_cat_split_32)
  show "be32 (put_be32 w @ xs) 0 = w"
    by (simp add: be32_def put_be32_def be16_def put_be16_def word_cat_split_16 word_cat_split_32)
qed

lemma field_append [simp]:
  "length xs \<le> i \<Longrightarrow> le16 (xs @ ys) i = le16 ys (i - length xs)"
  "length xs \<le> i \<Longrightarrow> le32 (xs @ ys) i = le32 ys (i - length xs)"
  "length xs \<le> i \<Longrightarrow> be16 (xs @ ys) i = be16 ys (i - length xs)"
  "length xs \<le> i \<Longrightarrow> be32 (xs @ ys) i = be32 ys (i - length xs)"
  by (simp_all add: le16_def le32_def be16_def be32_def nth_append Suc_diff_le)

lemma field_Cons [simp]:
  "0 < i \<Longrightarrow> le16 (x # xs) i = le16 xs (i - 1)" "0 < i \<Longrightarrow> le32 (x # xs) i = le32 xs (i - 1)"
  "0 < i \<Longrightarrow> be16 (x # xs) i = be16 xs (i - 1)" "0 < i \<Longrightarrow> be32 (x # xs) i = be32 xs (i - 1)"
  using field_append [of "[x]" i xs] by simp_all

lemma get_put_end [simp]:
  "le16 (put_le16 w) 0 = w" "be16 (put_be16 w) 0 = w" "le32 (put_le32 v) 0 = v" "be32 (put_be32 v) 0 = v"
  using get_put_16 [of w "[]"] get_put_32 [of v "[]"] by simp_all

lemma field_drop:
  "i + n + 1 < length xs \<Longrightarrow> le16 (drop n xs) i = le16 xs (n + i)"
  "i + n + 3 < length xs \<Longrightarrow> le32 (drop n xs) i = le32 xs (n + i)"
  "i + n + 1 < length xs \<Longrightarrow> be16 (drop n xs) i = be16 xs (n + i)"
  "i + n + 3 < length xs \<Longrightarrow> be32 (drop n xs) i = be32 xs (n + i)"
  by (simp_all add: le16_def le32_def be16_def be32_def add.commute add.left_commute)

lemma field_take:
  "i + 1 < n \<Longrightarrow> le16 (take n xs) i = le16 xs i" "i + 3 < n \<Longrightarrow> le32 (take n xs) i = le32 xs i"
  "i + 1 < n \<Longrightarrow> be16 (take n xs) i = be16 xs i" "i + 3 < n \<Longrightarrow> be32 (take n xs) i = be32 xs i"
  by (simp_all add: le16_def le32_def be16_def be32_def)

lemma put_get_16:
  "i + 1 < length bs \<Longrightarrow> put_le16 (le16 bs i) = take 2 (drop i bs)"
  "i + 1 < length bs \<Longrightarrow> put_be16 (be16 bs i) = take 2 (drop i bs)"
  by (simp_all add: le16_def be16_def put_le16_def put_be16_def ucast_word_cat_8 take_Suc_conv_app_nth numeral_2_eq_2)

lemma take_4: "take 4 xs = take 2 xs @ take 2 (drop 2 xs)"
  using take_add [of 2 2 xs] by simp

lemma put_get_32:
  "i + 3 < length bs \<Longrightarrow> put_le32 (le32 bs i) = take 4 (drop i bs)"
  "i + 3 < length bs \<Longrightarrow> put_be32 (be32 bs i) = take 4 (drop i bs)"
  by (simp_all add: le32_def be32_def put_le32_def put_be32_def ucast_word_cat_16 put_get_16 take_4 add.commute)

lemma length_overwrite [simp]: "i + length ys \<le> length xs \<Longrightarrow> length (overwrite i ys xs) = length xs"
  by (simp add: overwrite_def)

lemma nth_overwrite:
  "i + length ys \<le> length xs \<Longrightarrow> j < length xs \<Longrightarrow>
     overwrite i ys xs ! j = (if i \<le> j \<and> j < i + length ys then ys ! (j - i) else xs ! j)"
  by (auto simp: overwrite_def nth_append)

lemma le32_overwrite_same: "i + 4 \<le> length xs \<Longrightarrow> le32 (overwrite i (put_le32 w) xs) i = w"
  by (simp add: overwrite_def)

lemma le32_overwrite_other:
  "i + 4 \<le> length xs \<Longrightarrow> j + 4 \<le> length xs \<Longrightarrow> i + 4 \<le> j \<or> j + 4 \<le> i \<Longrightarrow>
     le32 (overwrite i (put_le32 w) xs) j = le32 xs j"
  by (auto simp: le32_def le16_def nth_overwrite)

end
