(* ===== verification/Fat.thy ===== *)
theory Fat
  imports BCache RamFs Bytes
begin

text \<open>
  The FAT32 driver \<^verbatim>\<open>fs/fat.c\<close> on top of the buffer cache. Sectors, clusters and directory data
  are byte lists, decoded with the layouts of \<^verbatim>\<open>fs/fat.h\<close>. The heap is a parameter: \<open>km h n\<close> says
  whether \<^verbatim>\<open>kmalloc(n)\<close> succeeds while the operation already holds \<open>h\<close> blocks; the driver frees
  every block it takes, and uses only bytes it has written to it. An operation has the result
  \<open>None\<close> when it does not return (a cyclic cluster chain), reads uninitialised memory or writes
  past a buffer.
\<close>

unbundle bit_operations_syntax

section \<open>Structures\<close>

record fat_mount =
  partition_lba :: u32
  fat_start_lba :: u32
  data_start_lba :: u32
  root_cluster :: u32
  sectors_per_cluster :: u32
  fat_size_sectors :: u32
  bytes_per_sector :: u32
  total_clusters :: u32
  mounted :: bool

record fat_file =
  f_used :: bool
  start_cluster :: u32
  current_cluster :: u32
  file_size :: u32
  f_offset :: u32
  dir_cluster :: u32
  dir_entry_index :: u32
  is_dir :: bool
  f_dirty :: bool

record fat_state =
  f_mount :: fat_mount
  file_table :: "fat_file list"
  f_cache :: bcache

text \<open>A directory entry; the fields between \<open>attr\<close> and \<open>cluster_hi\<close> are kept as bytes.\<close>

record fat_dirent =
  de_name :: "u8 list"
  de_ext :: "u8 list"
  de_attr :: u8
  de_times :: "u8 list"
  cluster_hi :: u16
  de_modify :: "u8 list"
  cluster_lo :: u16
  de_size :: u32

definition FAT_MAX_FILES :: nat where
  "FAT_MAX_FILES = 16"

definition FAT32_EOC :: u32 where
  "FAT32_EOC = 0x0FFFFFF8"

definition FAT32_FREE :: u32 where
  "FAT32_FREE = 0"

definition FAT_ATTR_VOLUME_ID :: u8 where
  "FAT_ATTR_VOLUME_ID = 0x08"

definition FAT_ATTR_DIRECTORY :: u8 where
  "FAT_ATTR_DIRECTORY = 0x10"

definition FAT_ATTR_ARCHIVE :: u8 where
  "FAT_ATTR_ARCHIVE = 0x20"

definition FAT_ATTR_LFN :: u8 where
  "FAT_ATTR_LFN = 0x0F"

definition dirent_of :: "u8 list \<Rightarrow> fat_dirent" where
  "dirent_of bs = \<lparr>de_name = take 8 bs, de_ext = take 3 (drop 8 bs), de_attr = bs ! 11,
     de_times = take 8 (drop 12 bs), cluster_hi = le16 bs 20, de_modify = take 4 (drop 22 bs),
     cluster_lo = le16 bs 26, de_size = le32 bs 28\<rparr>"

definition dirent_bytes :: "fat_dirent \<Rightarrow> u8 list" where
  "dirent_bytes de = de_name de @ de_ext de @ [de_attr de] @ de_times de @ put_le16 (cluster_hi de) @
     de_modify de @ put_le16 (cluster_lo de) @ put_le32 (de_size de)"

definition dirent_zero :: fat_dirent where
  "dirent_zero = \<lparr>de_name = replicate 8 0, de_ext = replicate 3 0, de_attr = 0, de_times = replicate 8 0,
     cluster_hi = 0, de_modify = replicate 4 0, cluster_lo = 0, de_size = 0\<rparr>"

definition is_directory :: "fat_dirent \<Rightarrow> bool" where
  "is_directory de \<longleftrightarrow> de_attr de AND FAT_ATTR_DIRECTORY \<noteq> 0"

definition de_cluster :: "fat_dirent \<Rightarrow> u32" where
  "de_cluster de = push_bit 16 (ucast (cluster_hi de)) OR ucast (cluster_lo de)"

definition set_cluster :: "u32 \<Rightarrow> fat_dirent \<Rightarrow> fat_dirent" where
  "set_cluster c de = de\<lparr>cluster_lo := ucast (c AND 0xFFFF), cluster_hi := ucast (drop_bit 16 c AND 0xFFFF)\<rparr>"

text \<open>A cluster number that belongs to a chain.\<close>

definition in_chain :: "u32 \<Rightarrow> bool" where
  "in_chain c \<longleftrightarrow> 2 \<le> c \<and> c < FAT32_EOC"

definition kalloc :: "(nat \<Rightarrow> u32 \<Rightarrow> bool) \<Rightarrow> nat \<Rightarrow> u32 \<Rightarrow> bool" where
  "kalloc km h n \<longleftrightarrow> n \<noteq> 0 \<and> km h n"

section \<open>Sectors and clusters\<close>

definition read_sector :: "u32 \<Rightarrow> bcache \<Rightarrow> sector option \<times> bcache" where
  "read_sector lba b =
     (case bcache_read lba b of
        (None, b') \<Rightarrow> (None, b')
      | (Some i, b') \<Rightarrow> (Some (b_data (cache b' ! i)), b'))"

definition write_sector :: "u32 \<Rightarrow> sector \<Rightarrow> bcache \<Rightarrow> bcache" where
  "write_sector lba buf b = bcache_write lba buf b"

definition cluster_to_lba :: "fat_mount \<Rightarrow> u32 \<Rightarrow> u32" where
  "cluster_to_lba m cluster = data_start_lba m + (cluster - 2) * sectors_per_cluster m"

fun read_cluster_loop :: "nat \<Rightarrow> u32 \<Rightarrow> bcache \<Rightarrow> u8 list option \<times> bcache" where
  "read_cluster_loop 0 lba b = (Some [], b)"
| "read_cluster_loop (Suc n) lba b =
     (case read_sector lba b of
        (None, b1) \<Rightarrow> (None, b1)
      | (Some s, b1) \<Rightarrow>
          (case read_cluster_loop n (lba + 1) b1 of
             (None, b2) \<Rightarrow> (None, b2)
           | (Some ss, b2) \<Rightarrow> (Some (s @ ss), b2)))"

definition read_cluster :: "fat_mount \<Rightarrow> u32 \<Rightarrow> bcache \<Rightarrow> u8 list option \<times> bcache" where
  "read_cluster m cluster b = read_cluster_loop (unat (sectors_per_cluster m)) (cluster_to_lba m cluster) b"

fun write_cluster_loop :: "nat \<Rightarrow> u32 \<Rightarrow> u8 list \<Rightarrow> bcache \<Rightarrow> bcache" where
  "write_cluster_loop 0 lba src b = b"
| "write_cluster_loop (Suc n) lba src b =
     write_cluster_loop n (lba + 1) (drop 512 src) (bcache_write lba (take 512 src) b)"

definition write_cluster :: "fat_mount \<Rightarrow> u32 \<Rightarrow> u8 list \<Rightarrow> bcache \<Rightarrow> bcache" where
  "write_cluster m cluster src b =
     write_cluster_loop (unat (sectors_per_cluster m)) (cluster_to_lba m cluster) src b"

definition cluster_bytes :: "fat_mount \<Rightarrow> u32" where
  "cluster_bytes m = sectors_per_cluster m * 512"

definition entries_per_cluster :: "fat_mount \<Rightarrow> u32" where
  "entries_per_cluster m = cluster_bytes m div 32"

section \<open>The file allocation table\<close>

definition fat_read_entry :: "fat_mount \<Rightarrow> u32 \<Rightarrow> bcache \<Rightarrow> u32 \<times> bcache" where
  "fat_read_entry m cluster b =
     (let fat_offset = cluster * 4;
          fat_sector = fat_start_lba m + fat_offset div 512;
          entry_offset = fat_offset mod 512
      in case read_sector fat_sector b of
           (None, b1) \<Rightarrow> (FAT32_EOC, b1)
         | (Some s, b1) \<Rightarrow> (le32 s (unat entry_offset) AND 0x0FFFFFFF, b1))"

definition fat_write_entry :: "fat_mount \<Rightarrow> u32 \<Rightarrow> u32 \<Rightarrow> bcache \<Rightarrow> int \<times> bcache" where
  "fat_write_entry m cluster value b =
     (let fat_offset = cluster * 4;
          fat_sector = fat_start_lba m + fat_offset div 512;
          entry_offset = fat_offset mod 512
      in case read_sector fat_sector b of
           (None, b1) \<Rightarrow> (- 1, b1)
         | (Some s, b1) \<Rightarrow>
             (let existing = le32 s (unat entry_offset);
                  v = (existing AND 0xF0000000) OR (value AND 0x0FFFFFFF)
              in (0, write_sector fat_sector (overwrite (unat entry_offset) (put_le32 v) s) b1)))"

definition zero_cluster :: "(nat \<Rightarrow> u32 \<Rightarrow> bool) \<Rightarrow> nat \<Rightarrow> fat_mount \<Rightarrow> u32 \<Rightarrow> bcache \<Rightarrow> bcache" where
  "zero_cluster km h m c b =
     (if kalloc km h (cluster_bytes m) then write_cluster m c (replicate (unat (cluster_bytes m)) 0) b else b)"

function fat_alloc_loop :: "(nat \<Rightarrow> u32 \<Rightarrow> bool) \<Rightarrow> nat \<Rightarrow> fat_mount \<Rightarrow> u32 \<Rightarrow> bcache \<Rightarrow> u32 \<times> bcache" where
  "fat_alloc_loop km h m c b =
     (if c < total_clusters m + 2
      then (case fat_read_entry m c b of
              (v, b1) \<Rightarrow>
                if v = FAT32_FREE
                then (c, zero_cluster km h m c (snd (fat_write_entry m c FAT32_EOC b1)))
                else fat_alloc_loop km h m (c + 1) b1)
      else (0, b))"
  by pat_completeness auto
termination
proof (relation "measure (\<lambda>(km, h, m, c, b). unat (total_clusters m + 2) - unat c)", goal_cases)
  case (2 km h m c b v b1)
  then have "unat (c + 1) = unat c + 1" "unat c < unat (total_clusters m + 2)"
    using unat_Suc_less [of c "total_clusters m + 2"] by (simp_all add: word_less_nat_alt)
  then show ?case
    by simp
qed simp

declare fat_alloc_loop.simps [simp del]

definition fat_alloc_cluster :: "(nat \<Rightarrow> u32 \<Rightarrow> bool) \<Rightarrow> nat \<Rightarrow> fat_mount \<Rightarrow> bcache \<Rightarrow> u32 \<times> bcache" where
  "fat_alloc_cluster km h m b = fat_alloc_loop km h m 2 b"

definition fat_extend_chain :: "(nat \<Rightarrow> u32 \<Rightarrow> bool) \<Rightarrow> nat \<Rightarrow> fat_mount \<Rightarrow> u32 \<Rightarrow> bcache \<Rightarrow> u32 \<times> bcache" where
  "fat_extend_chain km h m tail_c b =
     (case fat_alloc_cluster km h m b of
        (c, b1) \<Rightarrow> if c = 0 then (0, b1) else (c, snd (fat_write_entry m tail_c c b1)))"

section \<open>Short names\<close>

definition upcase :: "u8 \<Rightarrow> u8" where
  "upcase c = (if 97 \<le> c \<and> c \<le> 122 then c - 32 else c)"

definition downcase :: "u8 \<Rightarrow> u8" where
  "downcase c = (if 65 \<le> c \<and> c \<le> 90 then c + 32 else c)"

abbreviation dot :: u8 where
  "dot \<equiv> 46"

abbreviation space :: u8 where
  "space \<equiv> 32"

definition last_dot :: "cstring \<Rightarrow> nat option" where
  "last_dot name = find (\<lambda>i. name ! i = dot) (rev [0..<length name])"

definition pad :: "nat \<Rightarrow> u8 list \<Rightarrow> u8 list" where
  "pad n xs = xs @ replicate (n - length xs) space"

definition fat_name_to_83 :: "cstring \<Rightarrow> u8 list" where
  "fat_name_to_83 name =
     (let limit = (case last_dot name of Some d \<Rightarrow> d | None \<Rightarrow> length name)
      in pad 8 (map upcase (take (min limit 8) name)) @
         pad 3 (case last_dot name of Some d \<Rightarrow> map upcase (take 3 (drop (d + 1) name)) | None \<Rightarrow> []))"

definition fat_83_to_name :: "fat_dirent \<Rightarrow> cstring" where
  "fat_83_to_name de =
     map downcase (takeWhile (\<lambda>c. c \<noteq> space) (de_name de)) @
     (if de_ext de ! 0 \<noteq> space then dot # map downcase (takeWhile (\<lambda>c. c \<noteq> space) (de_ext de)) else [])"

section \<open>Directories\<close>

definition get_dirent :: "u8 list \<Rightarrow> nat \<Rightarrow> fat_dirent" where
  "get_dirent buf i = dirent_of (take 32 (drop (32 * i) buf))"

definition put_dirent :: "nat \<Rightarrow> fat_dirent \<Rightarrow> u8 list \<Rightarrow> u8 list" where
  "put_dirent i de buf = overwrite (32 * i) (dirent_bytes de) buf"

function chain_count :: "fat_mount \<Rightarrow> nat \<Rightarrow> u32 \<Rightarrow> bcache \<Rightarrow> nat \<times> bcache" where
  "chain_count m n c b =
     (if in_chain c
      then (case fat_read_entry m c b of
              (c1, b1) \<Rightarrow> if 10000 < n + 1 then (n + 1, b1) else chain_count m (n + 1) c1 b1)
      else (n, b))"
  by pat_completeness auto
termination
  by (relation "measure (\<lambda>(m, n, c, b). 10001 - n)") auto

declare chain_count.simps [simp del]

text \<open>
  The second walk fills a buffer of \<open>n\<close> clusters. It fails with \<open>Some None\<close> on a read error; a
  chain longer than the buffer, or shorter so that part of it stays uninitialised, is \<open>None\<close>.
\<close>

fun dir_read_loop :: "fat_mount \<Rightarrow> nat \<Rightarrow> u32 \<Rightarrow> bcache \<Rightarrow> (u8 list option \<times> bcache) option" where
  "dir_read_loop m 0 c b = (if in_chain c then None else Some (Some [], b))"
| "dir_read_loop m (Suc n) c b =
     (if \<not> in_chain c then None
      else case read_cluster m c b of
             (None, b1) \<Rightarrow> Some (None, b1)
           | (Some bs, b1) \<Rightarrow>
               (case fat_read_entry m c b1 of
                  (c1, b2) \<Rightarrow>
                    (case dir_read_loop m n c1 b2 of
                       None \<Rightarrow> None
                     | Some (None, b3) \<Rightarrow> Some (None, b3)
                     | Some (Some rest, b3) \<Rightarrow> Some (Some (bs @ rest), b3))))"

definition fat_read_dir ::
  "(nat \<Rightarrow> u32 \<Rightarrow> bool) \<Rightarrow> fat_mount \<Rightarrow> u32 \<Rightarrow> bcache \<Rightarrow> (fat_dirent list option \<times> bcache) option" where
  "fat_read_dir km m cluster b =
     (case chain_count m 0 cluster b of
        (chain_len, b1) \<Rightarrow>
          (let total_entries = of_nat chain_len * entries_per_cluster m in
           if \<not> kalloc km 0 (total_entries * 32) then Some (None, b1)
           else case dir_read_loop m chain_len cluster b1 of
                  None \<Rightarrow> None
                | Some (None, b2) \<Rightarrow> Some (None, b2)
                | Some (Some buf, b2) \<Rightarrow> Some (Some (map (get_dirent buf) [0..<unat total_entries]), b2)))"

fun find_entry :: "u8 list \<Rightarrow> nat \<Rightarrow> fat_dirent list \<Rightarrow> (nat \<times> fat_dirent) option" where
  "find_entry name83 i [] = None"
| "find_entry name83 i (de # des) =
     (if hd (de_name de) = 0 then None
      else if hd (de_name de) = 0xE5 then find_entry name83 (i + 1) des
      else if de_attr de = FAT_ATTR_LFN then find_entry name83 (i + 1) des
      else if de_name de = take 8 name83 \<and> de_ext de = drop 8 name83 then Some (i, de)
      else find_entry name83 (i + 1) des)"

definition fat_find_in_dir ::
  "(nat \<Rightarrow> u32 \<Rightarrow> bool) \<Rightarrow> fat_mount \<Rightarrow> u32 \<Rightarrow> u8 list \<Rightarrow> bcache \<Rightarrow> ((nat \<times> fat_dirent) option \<times> bcache) option" where
  "fat_find_in_dir km m dir_c name83 b =
     (case fat_read_dir km m dir_c b of
        None \<Rightarrow> None
      | Some (None, b1) \<Rightarrow> Some (None, b1)
      | Some (Some des, b1) \<Rightarrow> Some (find_entry name83 0 des, b1))"

text \<open>The outcome of resolving a path; \<open>RUninit\<close>: success is reported but no entry was stored.\<close>

datatype fat_res = RNotFound | RUninit | RFound fat_dirent u32

definition fat_component :: "cstring \<Rightarrow> cstring" where
  "fat_component p = take 255 (takeWhile (\<lambda>c. c \<noteq> slash) p)"

function fat_resolve_loop ::
  "(nat \<Rightarrow> u32 \<Rightarrow> bool) \<Rightarrow> fat_mount \<Rightarrow> cstring \<Rightarrow> u32 \<Rightarrow> fat_res \<Rightarrow> bcache \<Rightarrow> (fat_res \<times> bcache) option" where
  "fat_resolve_loop km m p cur acc b =
     (let p1 = dropWhile (\<lambda>c. c = slash) p in
      if p1 = [] then Some (acc, b)
      else
        let comp = fat_component p1; rest = drop (length comp) p1
        in case fat_find_in_dir km m cur (fat_name_to_83 comp) b of
             None \<Rightarrow> None
           | Some (None, b1) \<Rightarrow> Some (RNotFound, b1)
           | Some (Some (i, found), b1) \<Rightarrow>
               if rest = [] then Some (RFound found cur, b1)
               else if is_directory found
                    then fat_resolve_loop km m rest (de_cluster found) (RFound found cur) b1
                    else Some (RNotFound, b1))"
  by pat_completeness auto
termination
proof (relation "measure (\<lambda>(km, m, p, cur, acc, b). length p)", goal_cases)
  case (2 km m p cur acc b p1 comp rest)
  then obtain c r where p1: "p1 = c # r" "c \<noteq> slash"
    using hd_dropWhile [of "\<lambda>c. c = slash" p] by (metis list.exhaust list.sel(1))
  then have "length rest < length p1"
    using 2 by (simp add: fat_component_def)
  then show ?case
    using 2 length_dropWhile_le [of "\<lambda>c. c = slash" p] by simp
qed simp

declare fat_resolve_loop.simps [simp del]

definition root_dirent :: "fat_mount \<Rightarrow> fat_dirent" where
  "root_dirent m = set_cluster (root_cluster m) (dirent_zero\<lparr>de_attr := FAT_ATTR_DIRECTORY\<rparr>)"

definition fat_resolve_path ::
  "(nat \<Rightarrow> u32 \<Rightarrow> bool) \<Rightarrow> fat_mount \<Rightarrow> cstring \<Rightarrow> bcache \<Rightarrow> (fat_res \<times> bcache) option" where
  "fat_resolve_path km m path b =
     (if path = [] \<or> hd path \<noteq> slash then Some (RNotFound, b)
      else if tl path = [] then Some (RFound (root_dirent m) 0, b)
      else fat_resolve_loop km m (tl path) (root_cluster m) RUninit b)"

definition fat_split_path :: "cstring \<Rightarrow> split" where
  "fat_split_path path =
     (if length path < 2 \<or> hd path \<noteq> slash then SplitErr
      else
        let ls = last_slash path;
            parent = (if ls = 0 then [slash] else take ls path);
            name = drop (ls + 1) path
        in if 256 < length parent + 1 \<or> 256 < length name + 1 then SplitOverflow
           else SplitOk parent name)"

text \<open>The first slot of a cluster a new entry can go to.\<close>

definition free_slot :: "u8 list \<Rightarrow> nat \<Rightarrow> nat option" where
  "free_slot cbuf n = find (\<lambda>i. cbuf ! (32 * i) = 0 \<or> cbuf ! (32 * i) = 0xE5) [0..<n]"

partial_function (option) add_entry_loop ::
  "(nat \<Rightarrow> u32 \<Rightarrow> bool) \<Rightarrow> fat_mount \<Rightarrow> u32 \<Rightarrow> fat_dirent \<Rightarrow> bcache \<Rightarrow> (int \<times> bcache) option" where
  "add_entry_loop km m c entry b =
     (if \<not> in_chain c then Some (- 1, b)
      else case read_cluster m c b of
             (None, b1) \<Rightarrow> Some (- 1, b1)
           | (Some cbuf, b1) \<Rightarrow>
               (case free_slot cbuf (unat (entries_per_cluster m)) of
                  Some i \<Rightarrow> Some (0, write_cluster m c (put_dirent i entry cbuf) b1)
                | None \<Rightarrow>
                    (case fat_read_entry m c b1 of
                       (nxt, b2) \<Rightarrow>
                         if FAT32_EOC \<le> nxt
                         then (case fat_extend_chain km 1 m c b2 of
                                 (new_c, b3) \<Rightarrow>
                                   if new_c = 0 then Some (- 1, b3)
                                   else Some (0, write_cluster m new_c
                                          (put_dirent 0 entry (replicate (unat (cluster_bytes m)) 0)) b3))
                         else add_entry_loop km m nxt entry b2)))"

definition fat_add_dir_entry ::
  "(nat \<Rightarrow> u32 \<Rightarrow> bool) \<Rightarrow> fat_mount \<Rightarrow> u32 \<Rightarrow> fat_dirent \<Rightarrow> bcache \<Rightarrow> (int \<times> bcache) option" where
  "fat_add_dir_entry km m dir_c entry b =
     (if kalloc km 0 (cluster_bytes m) then add_entry_loop km m dir_c entry b else Some (- 1, b))"

text \<open>
  Walking to entry \<open>k\<close> of a directory and changing it: the loop that \<^verbatim>\<open>fat_update_dir_entry\<close>,
  \<^verbatim>\<open>fat_close\<close>, \<^verbatim>\<open>fat_write\<close>, \<^verbatim>\<open>fat_truncate\<close> and \<^verbatim>\<open>fat_unlink\<close> share, and whether it stored the entry.
\<close>

partial_function (option) modify_entry_loop ::
  "fat_mount \<Rightarrow> u32 \<Rightarrow> u32 \<Rightarrow> (fat_dirent \<Rightarrow> fat_dirent) \<Rightarrow> bcache \<Rightarrow> (bool \<times> bcache) option" where
  "modify_entry_loop m c remaining g b =
     (if \<not> in_chain c then Some (False, b)
      else if remaining < entries_per_cluster m
      then (case read_cluster m c b of
              (None, b1) \<Rightarrow> Some (False, b1)
            | (Some cbuf, b1) \<Rightarrow>
                Some (True, write_cluster m c
                   (put_dirent (unat remaining) (g (get_dirent cbuf (unat remaining))) cbuf) b1))
      else (case fat_read_entry m c b of
              (c1, b1) \<Rightarrow> modify_entry_loop m c1 (remaining - entries_per_cluster m) g b1))"

definition modify_entry ::
  "(nat \<Rightarrow> u32 \<Rightarrow> bool) \<Rightarrow> fat_mount \<Rightarrow> u32 \<Rightarrow> u32 \<Rightarrow> (fat_dirent \<Rightarrow> fat_dirent) \<Rightarrow> bcache \<Rightarrow> (bool \<times> bcache) option" where
  "modify_entry km m dir_c idx g b =
     (if kalloc km 0 (cluster_bytes m) then modify_entry_loop m dir_c idx g b else Some (False, b))"

definition fat_update_dir_entry ::
  "(nat \<Rightarrow> u32 \<Rightarrow> bool) \<Rightarrow> fat_mount \<Rightarrow> u32 \<Rightarrow> u32 \<Rightarrow> fat_dirent \<Rightarrow> bcache \<Rightarrow> (int \<times> bcache) option" where
  "fat_update_dir_entry km m dir_c idx entry b =
     map_option (\<lambda>(ok, b1). (if ok then 0 else - 1, b1)) (modify_entry km m dir_c idx (\<lambda>_. entry) b)"

section \<open>Chains and open files\<close>

definition file_zero :: fat_file where
  "file_zero = \<lparr>f_used = False, start_cluster = 0, current_cluster = 0, file_size = 0, f_offset = 0,
     dir_cluster = 0, dir_entry_index = 0, is_dir = False, f_dirty = False\<rparr>"

definition mount_zero :: fat_mount where
  "mount_zero = \<lparr>partition_lba = 0, fat_start_lba = 0, data_start_lba = 0, root_cluster = 0, sectors_per_cluster = 0,
     fat_size_sectors = 0, bytes_per_sector = 0, total_clusters = 0, mounted = False\<rparr>"

definition fat_alloc_fd :: "fat_state \<Rightarrow> (nat \<times> fat_state) option" where
  "fat_alloc_fd s =
     (case first_idx (\<lambda>f. \<not> f_used f) (file_table s) of
        None \<Rightarrow> None
      | Some i \<Rightarrow> Some (i, s\<lparr>file_table := (file_table s)[i := file_zero\<lparr>f_used := True\<rparr>]\<rparr>))"

fun fat_follow_chain :: "nat \<Rightarrow> fat_mount \<Rightarrow> u32 \<Rightarrow> bcache \<Rightarrow> u32 \<times> bcache" where
  "fat_follow_chain 0 m c b = (c, b)"
| "fat_follow_chain (Suc n) m c b =
     (if in_chain c then case fat_read_entry m c b of (c1, b1) \<Rightarrow> fat_follow_chain n m c1 b1 else (c, b))"

definition fat_init :: "fat_state \<Rightarrow> fat_state" where
  "fat_init s = s\<lparr>f_mount := mount_zero, file_table := replicate FAT_MAX_FILES file_zero\<rparr>"

text \<open>The fields of the boot sector that mounting reads, at their offsets in \<^verbatim>\<open>struct fat32_bpb\<close>.\<close>

definition fat_mount_op :: "u32 \<Rightarrow> fat_state \<Rightarrow> int \<times> fat_state" where
  "fat_mount_op lba s =
     (if mounted (f_mount s) then (- 1, s)
      else case read_sector lba (f_cache s) of
             (None, b) \<Rightarrow> (- 1, s\<lparr>f_cache := b\<rparr>)
           | (Some bpb, b) \<Rightarrow>
               (let s1 = s\<lparr>f_cache := b\<rparr>;
                    bps = le16 bpb 11; spc = bpb ! 13; reserved = le16 bpb 14; num_fats = bpb ! 16;
                    total16 = le16 bpb 19; fsize16 = le16 bpb 22; total32 = le32 bpb 32; fsize32 = le32 bpb 36;
                    root = le32 bpb 44;
                    fat_size = (if fsize16 \<noteq> 0 then ucast fsize16 else fsize32);
                    total_sectors = (if total32 \<noteq> 0 then total32 else ucast total16);
                    fats = ucast num_fats * fat_size;
                    data_sectors = total_sectors - (ucast reserved + fats)
                in if bps \<noteq> 512 \<or> num_fats = 0 \<or> spc = 0 \<or> fat_size = 0 then (- 1, s1)
                   else (0, s1\<lparr>f_mount := \<lparr>partition_lba = lba, fat_start_lba = lba + ucast reserved,
                                 data_start_lba = lba + ucast reserved + fats, root_cluster = root,
                                 sectors_per_cluster = ucast spc, fat_size_sectors = fat_size,
                                 bytes_per_sector = ucast bps,
                                 total_clusters = data_sectors div ucast spc, mounted = True\<rparr>\<rparr>)))"

definition fat_is_mounted :: "fat_state \<Rightarrow> bool" where
  "fat_is_mounted s = mounted (f_mount s)"

definition fat_valid_fd :: "int \<Rightarrow> fat_state \<Rightarrow> bool" where
  "fat_valid_fd fd s \<longleftrightarrow> 0 \<le> fd \<and> fd < int FAT_MAX_FILES \<and> f_used (file_table s ! nat fd)"

definition set_file :: "nat \<Rightarrow> fat_file \<Rightarrow> fat_state \<Rightarrow> fat_state" where
  "set_file i f s = s\<lparr>file_table := (file_table s)[i := f]\<rparr>"

partial_function (option) fat_free_chain :: "fat_mount \<Rightarrow> u32 \<Rightarrow> bcache \<Rightarrow> bcache option" where
  "fat_free_chain m c b =
     (if in_chain c
      then (case fat_read_entry m c b of
              (nxt, b1) \<Rightarrow> fat_free_chain m nxt (snd (fat_write_entry m c FAT32_FREE b1)))
      else Some b)"

definition fat_truncate :: "(nat \<Rightarrow> u32 \<Rightarrow> bool) \<Rightarrow> int \<Rightarrow> fat_state \<Rightarrow> (int \<times> fat_state) option" where
  "fat_truncate km fd s =
     (if \<not> fat_valid_fd fd s \<or> is_dir (file_table s ! nat fd) then Some (- 1, s)
      else
        let f = file_table s ! nat fd;
            f1 = f\<lparr>start_cluster := 0, current_cluster := 0, file_size := 0, f_offset := 0, f_dirty := True\<rparr>
        in case (if 2 \<le> start_cluster f then fat_free_chain (f_mount s) (start_cluster f) (f_cache s) else Some (f_cache s)) of
             None \<Rightarrow> None
           | Some b1 \<Rightarrow>
               (case modify_entry km (f_mount s) (dir_cluster f) (dir_entry_index f)
                       (\<lambda>de. de\<lparr>de_size := 0, cluster_lo := 0, cluster_hi := 0\<rparr>) b1 of
                  None \<Rightarrow> None
                | Some (ok, b2) \<Rightarrow> Some (0, (set_file (nat fd) f1 s)\<lparr>f_cache := b2\<rparr>)))"

definition fat_close :: "(nat \<Rightarrow> u32 \<Rightarrow> bool) \<Rightarrow> int \<Rightarrow> fat_state \<Rightarrow> (int \<times> fat_state) option" where
  "fat_close km fd s =
     (if \<not> fat_valid_fd fd s then Some (- 1, s)
      else
        let f = file_table s ! nat fd;
            s1 = set_file (nat fd) (f\<lparr>f_used := False\<rparr>) s
        in if f_dirty f \<and> \<not> is_dir f
           then (case modify_entry km (f_mount s) (dir_cluster f) (dir_entry_index f)
                        (\<lambda>de. de\<lparr>de_size := file_size f\<rparr>) (f_cache s) of
                   None \<Rightarrow> None
                 | Some (ok, b1) \<Rightarrow> Some (0, s1\<lparr>f_cache := b1\<rparr>))
           else Some (0, s1))"

fun fat_close_all :: "(nat \<Rightarrow> u32 \<Rightarrow> bool) \<Rightarrow> nat list \<Rightarrow> fat_state \<Rightarrow> fat_state option" where
  "fat_close_all km [] s = Some s"
| "fat_close_all km (i # is) s =
     (if f_used (file_table s ! i)
      then (case fat_close km (int i) s of None \<Rightarrow> None | Some (r, s1) \<Rightarrow> fat_close_all km is s1)
      else fat_close_all km is s)"

definition fat_unmount :: "(nat \<Rightarrow> u32 \<Rightarrow> bool) \<Rightarrow> fat_state \<Rightarrow> fat_state option" where
  "fat_unmount km s =
     (case fat_close_all km [0..<FAT_MAX_FILES] s of
        None \<Rightarrow> None
      | Some s1 \<Rightarrow> Some (s1\<lparr>f_cache := snd (bcache_sync (f_cache s1)), f_mount := (f_mount s1)\<lparr>mounted := False\<rparr>\<rparr>))"

section \<open>Opening, creating and removing\<close>

text \<open>The part of \<^verbatim>\<open>fat_open\<close> for a path that was found.\<close>

definition fat_open_found ::
  "(nat \<Rightarrow> u32 \<Rightarrow> bool) \<Rightarrow> cstring \<Rightarrow> int \<Rightarrow> fat_dirent \<Rightarrow> u32 \<Rightarrow> fat_state \<Rightarrow> (int \<times> fat_state) option" where
  "fat_open_found km path flags de parent_c s =
     (case fat_alloc_fd s of
        None \<Rightarrow> Some (- 1, s)
      | Some (fd, s1) \<Rightarrow>
          (let f = (file_table s1 ! fd)\<lparr>start_cluster := de_cluster de, current_cluster := de_cluster de,
                      file_size := de_size de, f_offset := 0, is_dir := is_directory de,
                      dir_cluster := parent_c, f_dirty := False\<rparr>
           in case (if tl path \<noteq> []
                    then (case fat_split_path path of
                            SplitOk parent basename \<Rightarrow>
                              (case fat_find_in_dir km (f_mount s1) parent_c (fat_name_to_83 basename) (f_cache s1) of
                                 None \<Rightarrow> None
                               | Some (None, b) \<Rightarrow> Some (f, b)
                               | Some (Some (i, e), b) \<Rightarrow> Some (f\<lparr>dir_entry_index := of_nat i\<rparr>, b))
                          | _ \<Rightarrow> None)
                    else Some (f, f_cache s1)) of
                None \<Rightarrow> None
              | Some (f1, b1) \<Rightarrow>
                  (let s2 = (set_file fd f1 s1)\<lparr>f_cache := b1\<rparr>
                   in if odd (flags div 2) \<and> \<not> is_dir f1
                      then map_option (\<lambda>(r, s3). (int fd, s3)) (fat_truncate km (int fd) s2)
                      else Some (int fd, s2))))"

text \<open>\<^verbatim>\<open>fat_open(path, 0)\<close>, which creates and truncates nothing.\<close>

definition fat_open_plain :: "(nat \<Rightarrow> u32 \<Rightarrow> bool) \<Rightarrow> cstring \<Rightarrow> fat_state \<Rightarrow> (int \<times> fat_state) option" where
  "fat_open_plain km path s =
     (if \<not> mounted (f_mount s) then Some (- 1, s)
      else case fat_resolve_path km (f_mount s) path (f_cache s) of
             None \<Rightarrow> None
           | Some (RNotFound, b) \<Rightarrow> Some (- 1, s\<lparr>f_cache := b\<rparr>)
           | Some (RUninit, b) \<Rightarrow> None
           | Some (RFound de parent_c, b) \<Rightarrow> fat_open_found km path 0 de parent_c (s\<lparr>f_cache := b\<rparr>))"

definition name_entry :: "cstring \<Rightarrow> u8 \<Rightarrow> fat_dirent" where
  "name_entry basename attr =
     dirent_zero\<lparr>de_name := take 8 (fat_name_to_83 basename), de_ext := drop 8 (fat_name_to_83 basename), de_attr := attr\<rparr>"

definition fat_create :: "(nat \<Rightarrow> u32 \<Rightarrow> bool) \<Rightarrow> cstring \<Rightarrow> fat_state \<Rightarrow> (int \<times> fat_state) option" where
  "fat_create km path s =
     (if \<not> mounted (f_mount s) then Some (- 1, s)
      else case fat_split_path path of
        SplitErr \<Rightarrow> Some (- 1, s)
      | SplitOverflow \<Rightarrow> None
      | SplitOk parent basename \<Rightarrow>
          (case fat_resolve_path km (f_mount s) parent (f_cache s) of
             None \<Rightarrow> None
           | Some (RNotFound, b) \<Rightarrow> Some (- 1, s\<lparr>f_cache := b\<rparr>)
           | Some (RUninit, b) \<Rightarrow> None
           | Some (RFound parent_de pc, b) \<Rightarrow>
               if \<not> is_directory parent_de then Some (- 1, s\<lparr>f_cache := b\<rparr>)
               else (case fat_resolve_path km (f_mount s) path b of
                       None \<Rightarrow> None
                     | Some (RNotFound, b1) \<Rightarrow>
                         (case fat_add_dir_entry km (f_mount s) (de_cluster parent_de) (name_entry basename FAT_ATTR_ARCHIVE) b1 of
                            None \<Rightarrow> None
                          | Some (r, b2) \<Rightarrow>
                              if r < 0 then Some (- 1, s\<lparr>f_cache := b2\<rparr>)
                              else fat_open_plain km path (s\<lparr>f_cache := b2\<rparr>))
                     | Some (_, b1) \<Rightarrow> fat_open_plain km path (s\<lparr>f_cache := b1\<rparr>))))"

definition fat_open :: "(nat \<Rightarrow> u32 \<Rightarrow> bool) \<Rightarrow> cstring \<Rightarrow> int \<Rightarrow> fat_state \<Rightarrow> (int \<times> fat_state) option" where
  "fat_open km path flags s =
     (if \<not> mounted (f_mount s) then Some (- 1, s)
      else case fat_resolve_path km (f_mount s) path (f_cache s) of
             None \<Rightarrow> None
           | Some (RNotFound, b) \<Rightarrow>
               if odd flags then fat_create km path (s\<lparr>f_cache := b\<rparr>) else Some (- 1, s\<lparr>f_cache := b\<rparr>)
           | Some (RUninit, b) \<Rightarrow> None
           | Some (RFound de parent_c, b) \<Rightarrow> fat_open_found km path flags de parent_c (s\<lparr>f_cache := b\<rparr>))"

section \<open>Reading and writing files\<close>

text \<open>The value of a count returned as a C \<^verbatim>\<open>int\<close>.\<close>

definition to_int :: "nat \<Rightarrow> int" where
  "to_int n = sint (of_nat n :: u32)"

text \<open>The loop of \<^verbatim>\<open>fat_read\<close>: \<open>acc\<close> holds the bytes copied so far.\<close>

partial_function (option) fat_read_loop ::
  "fat_mount \<Rightarrow> nat \<Rightarrow> u8 list \<Rightarrow> fat_file \<Rightarrow> bcache \<Rightarrow> (u8 list \<times> fat_file \<times> bcache) option" where
  "fat_read_loop m count acc f b =
     (if count \<le> length acc \<or> \<not> in_chain (current_cluster f) then Some (acc, f, b)
      else case read_cluster m (current_cluster f) b of
             (None, b1) \<Rightarrow> Some (acc, f, b1)
           | (Some cbuf, b1) \<Rightarrow>
               (if cluster_bytes m = 0 then None
                else
                  let oic = f_offset f mod cluster_bytes m;
                      to_copy = min (of_nat (count - length acc)) (cluster_bytes m - oic);
                      f1 = f\<lparr>f_offset := f_offset f + to_copy\<rparr>;
                      acc1 = acc @ take (unat to_copy) (drop (unat oic) cbuf)
                  in if f_offset f1 mod cluster_bytes m = 0
                     then (case fat_read_entry m (current_cluster f) b1 of
                             (c1, b2) \<Rightarrow> fat_read_loop m count acc1 (f1\<lparr>current_cluster := c1\<rparr>) b2)
                     else fat_read_loop m count acc1 f1 b1))"

definition fat_read ::
  "(nat \<Rightarrow> u32 \<Rightarrow> bool) \<Rightarrow> int \<Rightarrow> u64 \<Rightarrow> fat_state \<Rightarrow> (int \<times> u8 list \<times> fat_state) option" where
  "fat_read km fd count s =
     (if \<not> fat_valid_fd fd s \<or> is_dir (file_table s ! nat fd) then Some (- 1, [], s)
      else
        let f = file_table s ! nat fd;
            n = min (unat count) (unat (file_size f - f_offset f))
        in if n = 0 then Some (0, [], s)
           else if \<not> kalloc km 0 (cluster_bytes (f_mount s)) then Some (- 1, [], s)
           else (case fat_read_loop (f_mount s) n [] f (f_cache s) of
                   None \<Rightarrow> None
                 | Some (bs, f1, b1) \<Rightarrow> Some (to_int (length bs), bs, (set_file (nat fd) f1 s)\<lparr>f_cache := b1\<rparr>)))"

text \<open>The last cluster of a chain.\<close>

partial_function (option) fat_last_cluster :: "fat_mount \<Rightarrow> u32 \<Rightarrow> bcache \<Rightarrow> (u32 \<times> bcache) option" where
  "fat_last_cluster m c b =
     (case fat_read_entry m c b of
        (nxt, b1) \<Rightarrow> if in_chain nxt then fat_last_cluster m nxt b1 else Some (c, b1))"

text \<open>The cluster the next bytes go to, a new one at the end of the chain when there is none.\<close>

definition fat_write_cluster ::
  "(nat \<Rightarrow> u32 \<Rightarrow> bool) \<Rightarrow> fat_mount \<Rightarrow> fat_file \<Rightarrow> bcache \<Rightarrow> (fat_file option \<times> bcache) option" where
  "fat_write_cluster km m f b =
     (if in_chain (current_cluster f) then Some (Some f, b)
      else case fat_last_cluster m (start_cluster f) b of
             None \<Rightarrow> None
           | Some (tail_c, b1) \<Rightarrow>
               (case fat_extend_chain km 1 m tail_c b1 of
                  (nc, b2) \<Rightarrow> if nc = 0 then Some (None, b2) else Some (Some (f\<lparr>current_cluster := nc\<rparr>), b2)))"

partial_function (option) fat_write_loop ::
  "(nat \<Rightarrow> u32 \<Rightarrow> bool) \<Rightarrow> fat_mount \<Rightarrow> u8 list \<Rightarrow> nat \<Rightarrow> fat_file \<Rightarrow> bcache \<Rightarrow> (nat \<times> fat_file \<times> bcache) option" where
  "fat_write_loop km m src n f b =
     (if length src \<le> n then Some (n, f, b)
      else case fat_write_cluster km m f b of
        None \<Rightarrow> None
      | Some (None, b1) \<Rightarrow> Some (n, f, b1)
      | Some (Some f1, b1) \<Rightarrow>
          (case read_cluster m (current_cluster f1) b1 of
             (None, b2) \<Rightarrow> Some (n, f1, b2)
           | (Some cbuf, b2) \<Rightarrow>
               (if cluster_bytes m = 0 then None
                else
                  let oic = f_offset f1 mod cluster_bytes m;
                      to_copy = min (of_nat (length src - n)) (cluster_bytes m - oic);
                      b3 = write_cluster m (current_cluster f1)
                             (overwrite (unat oic) (take (unat to_copy) (drop n src)) cbuf) b2;
                      off = f_offset f1 + to_copy;
                      f2 = f1\<lparr>f_offset := off, file_size := max off (file_size f1)\<rparr>
                  in if off mod cluster_bytes m = 0
                     then (case fat_read_entry m (current_cluster f2) b3 of
                             (c1, b4) \<Rightarrow> fat_write_loop km m src (n + unat to_copy) (f2\<lparr>current_cluster := c1\<rparr>) b4)
                     else fat_write_loop km m src (n + unat to_copy) f2 b3)))"

text \<open>The first cluster of a file that has none, recorded in its directory entry.\<close>

definition fat_first_cluster ::
  "(nat \<Rightarrow> u32 \<Rightarrow> bool) \<Rightarrow> fat_mount \<Rightarrow> fat_file \<Rightarrow> bcache \<Rightarrow> (fat_file option \<times> bcache) option" where
  "fat_first_cluster km m f b =
     (if 2 \<le> start_cluster f then Some (Some f, b)
      else case fat_alloc_cluster km 0 m b of
             (c, b1) \<Rightarrow>
               if c = 0 then Some (None, b1)
               else (case modify_entry km m (dir_cluster f) (dir_entry_index f) (set_cluster c) b1 of
                       None \<Rightarrow> None
                     | Some (ok, b2) \<Rightarrow> Some (Some (f\<lparr>start_cluster := c, current_cluster := c\<rparr>), b2)))"

definition fat_write ::
  "(nat \<Rightarrow> u32 \<Rightarrow> bool) \<Rightarrow> int \<Rightarrow> u8 list \<Rightarrow> fat_state \<Rightarrow> (int \<times> fat_state) option" where
  "fat_write km fd src s =
     (if \<not> fat_valid_fd fd s \<or> is_dir (file_table s ! nat fd) then Some (- 1, s)
      else if src = [] then Some (0, s)
      else case fat_first_cluster km (f_mount s) (file_table s ! nat fd) (f_cache s) of
        None \<Rightarrow> None
      | Some (None, b) \<Rightarrow> Some (- 1, s\<lparr>f_cache := b\<rparr>)
      | Some (Some f, b) \<Rightarrow>
          (if \<not> kalloc km 0 (cluster_bytes (f_mount s)) then Some (- 1, (set_file (nat fd) f s)\<lparr>f_cache := b\<rparr>)
           else case fat_write_loop km (f_mount s) src 0 f b of
                  None \<Rightarrow> None
                | Some (n, f1, b1) \<Rightarrow>
                    Some (to_int n, (set_file (nat fd) (f1\<lparr>f_dirty := True\<rparr>) s)\<lparr>f_cache := b1\<rparr>)))"

section \<open>The remaining operations\<close>

definition fat_stat ::
  "(nat \<Rightarrow> u32 \<Rightarrow> bool) \<Rightarrow> cstring \<Rightarrow> fat_state \<Rightarrow> ((u32 \<times> bool) option \<times> fat_state) option" where
  "fat_stat km path s =
     (if \<not> mounted (f_mount s) then Some (None, s)
      else case fat_resolve_path km (f_mount s) path (f_cache s) of
             None \<Rightarrow> None
           | Some (RNotFound, b) \<Rightarrow> Some (None, s\<lparr>f_cache := b\<rparr>)
           | Some (RUninit, b) \<Rightarrow> None
           | Some (RFound de pc, b) \<Rightarrow> Some (Some (de_size de, is_directory de), s\<lparr>f_cache := b\<rparr>))"

text \<open>The entry a directory scan stops at, with the next position.\<close>

function readdir_scan :: "fat_dirent list \<Rightarrow> nat \<Rightarrow> fat_dirent option \<times> nat" where
  "readdir_scan des i =
     (if i < length des
      then (let de = des ! i; c0 = de_name de ! 0; c1 = de_name de ! 1 in
            if c0 = 0 then (None, i + 1)
            else if c0 = 0xE5 \<or> de_attr de = FAT_ATTR_LFN \<or> de_attr de AND FAT_ATTR_VOLUME_ID \<noteq> 0 \<or>
                    c0 = dot \<and> (c1 = space \<or> c1 = dot)
                 then readdir_scan des (i + 1)
                 else (Some de, i + 1))
      else (None, i))"
  by pat_completeness auto
termination
  by (relation "measure (\<lambda>(des, i). length des - i)") auto

declare readdir_scan.simps [simp del]

definition fat_readdir ::
  "(nat \<Rightarrow> u32 \<Rightarrow> bool) \<Rightarrow> int \<Rightarrow> fat_state \<Rightarrow> ((cstring \<times> u32 \<times> bool) option \<times> fat_state) option" where
  "fat_readdir km fd s =
     (if \<not> fat_valid_fd fd s \<or> \<not> is_dir (file_table s ! nat fd) then Some (None, s)
      else
        let f = file_table s ! nat fd in
        case fat_read_dir km (f_mount s) (start_cluster f) (f_cache s) of
          None \<Rightarrow> None
        | Some (None, b) \<Rightarrow> Some (None, s\<lparr>f_cache := b\<rparr>)
        | Some (Some des, b) \<Rightarrow>
            (case readdir_scan des (unat (f_offset f)) of
               (e, i) \<Rightarrow>
                 Some (map_option (\<lambda>de. (fat_83_to_name de, de_size de, is_directory de)) e,
                       (set_file (nat fd) (f\<lparr>f_offset := of_nat i\<rparr>) s)\<lparr>f_cache := b\<rparr>)))"

definition dot_entries :: "fat_mount \<Rightarrow> u32 \<Rightarrow> u32 \<Rightarrow> u8 list" where
  "dot_entries m self parent =
     put_dirent 1 (set_cluster parent (dirent_zero\<lparr>de_name := pad 8 [dot, dot], de_ext := pad 3 [], de_attr := FAT_ATTR_DIRECTORY\<rparr>))
       (put_dirent 0 (set_cluster self (dirent_zero\<lparr>de_name := pad 8 [dot], de_ext := pad 3 [], de_attr := FAT_ATTR_DIRECTORY\<rparr>))
          (replicate (unat (cluster_bytes m)) 0))"

definition fat_mkdir :: "(nat \<Rightarrow> u32 \<Rightarrow> bool) \<Rightarrow> cstring \<Rightarrow> fat_state \<Rightarrow> (int \<times> fat_state) option" where
  "fat_mkdir km path s =
     (if \<not> mounted (f_mount s) then Some (- 1, s)
      else case fat_split_path path of
        SplitErr \<Rightarrow> Some (- 1, s)
      | SplitOverflow \<Rightarrow> None
      | SplitOk parent basename \<Rightarrow>
          (case fat_resolve_path km (f_mount s) parent (f_cache s) of
             None \<Rightarrow> None
           | Some (RNotFound, b) \<Rightarrow> Some (- 1, s\<lparr>f_cache := b\<rparr>)
           | Some (RUninit, b) \<Rightarrow> None
           | Some (RFound parent_de pc, b) \<Rightarrow>
               if \<not> is_directory parent_de then Some (- 1, s\<lparr>f_cache := b\<rparr>)
               else (case fat_resolve_path km (f_mount s) path b of
                       None \<Rightarrow> None
                     | Some (RNotFound, b1) \<Rightarrow>
                         (case fat_alloc_cluster km 0 (f_mount s) b1 of
                            (c, b2) \<Rightarrow>
                              if c = 0 \<or> \<not> kalloc km 0 (cluster_bytes (f_mount s)) then Some (- 1, s\<lparr>f_cache := b2\<rparr>)
                              else
                                let b3 = write_cluster (f_mount s) c (dot_entries (f_mount s) c (de_cluster parent_de)) b2
                                in map_option (\<lambda>(r, b4). (r, s\<lparr>f_cache := b4\<rparr>))
                                     (fat_add_dir_entry km (f_mount s) (de_cluster parent_de)
                                        (set_cluster c (name_entry basename FAT_ATTR_DIRECTORY)) b3))
                     | Some (_, b1) \<Rightarrow> Some (- 1, s\<lparr>f_cache := b1\<rparr>))))"

definition fat_unlink :: "(nat \<Rightarrow> u32 \<Rightarrow> bool) \<Rightarrow> cstring \<Rightarrow> fat_state \<Rightarrow> (int \<times> fat_state) option" where
  "fat_unlink km path s =
     (if \<not> mounted (f_mount s) then Some (- 1, s)
      else case fat_resolve_path km (f_mount s) path (f_cache s) of
        None \<Rightarrow> None
      | Some (RNotFound, b) \<Rightarrow> Some (- 1, s\<lparr>f_cache := b\<rparr>)
      | Some (RUninit, b) \<Rightarrow> None
      | Some (RFound de pc, b) \<Rightarrow>
          if is_directory de then Some (- 1, s\<lparr>f_cache := b\<rparr>)
          else (case fat_split_path path of
             SplitErr \<Rightarrow> Some (- 1, s\<lparr>f_cache := b\<rparr>)
           | SplitOverflow \<Rightarrow> None
           | SplitOk parent basename \<Rightarrow>
               (case fat_find_in_dir km (f_mount s) pc (fat_name_to_83 basename) b of
                  None \<Rightarrow> None
                | Some (None, b1) \<Rightarrow> Some (- 1, s\<lparr>f_cache := b1\<rparr>)
                | Some (Some (i, e), b1) \<Rightarrow>
                    (case (if 2 \<le> de_cluster de then fat_free_chain (f_mount s) (de_cluster de) b1 else Some b1) of
                       None \<Rightarrow> None
                     | Some b2 \<Rightarrow>
                         if \<not> kalloc km 0 (cluster_bytes (f_mount s)) then Some (- 1, s\<lparr>f_cache := b2\<rparr>)
                         else map_option (\<lambda>(ok, b3). (0, s\<lparr>f_cache := b3\<rparr>))
                                (modify_entry_loop (f_mount s) pc (of_nat i)
                                   (\<lambda>d. d\<lparr>de_name := 0xE5 # tl (de_name d)\<rparr>) b2)))))"

definition mbr_type :: "u8 list \<Rightarrow> nat \<Rightarrow> u8" where
  "mbr_type mbr i = mbr ! (446 + 16 * i + 4)"

definition mbr_lba :: "u8 list \<Rightarrow> nat \<Rightarrow> u32" where
  "mbr_lba mbr i = le32 mbr (446 + 16 * i + 8)"

definition fat_mount_first_partition :: "fat_state \<Rightarrow> int \<times> fat_state" where
  "fat_mount_first_partition s =
     (case read_sector 0 (f_cache s) of
        (None, b) \<Rightarrow> (- 1, s\<lparr>f_cache := b\<rparr>)
      | (Some mbr, b) \<Rightarrow>
          (let s1 = s\<lparr>f_cache := b\<rparr> in
           if mbr ! 510 \<noteq> 0x55 \<or> mbr ! 511 \<noteq> 0xAA then fat_mount_op 0 s1
           else case find (\<lambda>i. mbr_type mbr i \<in> {0x0B, 0x0C, 0x0E, 0x06}) [0, 1, 2, 3] of
                  Some i \<Rightarrow> fat_mount_op (mbr_lba mbr i) s1
                | None \<Rightarrow> fat_mount_op 0 s1))"

end
