(* ===== verification/FatTable.thy ===== *)
theory FatTable
  imports Fat
begin

text \<open>
  The FAT driver's disk as a table of cluster links and a store of clusters: on a well-formed
  volume and a working drive, reading and writing an entry or a cluster act on these two and on
  nothing else. On this level the cluster allocator takes the lowest free cluster and freeing a
  chain frees exactly its clusters.
\<close>

unbundle bit_operations_syntax

section \<open>Sectors\<close>

definition disk_ok :: "(u32 \<Rightarrow> sector) \<Rightarrow> bool" where
  "disk_ok D \<longleftrightarrow> (\<forall>l. length (D l) = 512)"

lemma read_sector_view:
  assumes "bcache_inv b" and "unat lba < 2 ^ 28"
  obtains b' where "read_sector lba b = (Some (bview b lba), b')" and "bcache_inv b'" and "bview b' = bview b"
  using bcache_read_ok [OF assms] by (auto simp: read_sector_def)

lemma write_sector_view:
  assumes "bcache_inv b" and "unat lba < 2 ^ 28"
  shows "bcache_inv (write_sector lba s b)" and "bview (write_sector lba s b) = (bview b)(lba := s)"
  using bcache_write_ok [OF assms] by (auto simp: write_sector_def)

section \<open>Geometry\<close>

text \<open>
  A well-formed volume: clusters of 1 to 255 sectors, the table in front of the data region, and
  all of it within the sectors the driver can address. \<open>cluster_ok\<close>: a cluster of the volume.
\<close>

definition fat_geom :: "fat_mount \<Rightarrow> bool" where
  "fat_geom m \<longleftrightarrow> 1 \<le> unat (sectors_per_cluster m) \<and> unat (sectors_per_cluster m) \<le> 255 \<and>
     unat (fat_start_lba m) + (unat (total_clusters m) + 2) * 4 div 512 < unat (data_start_lba m) \<and>
     unat (data_start_lba m) + unat (total_clusters m) * unat (sectors_per_cluster m) \<le> 2 ^ 28"

definition cluster_ok :: "fat_mount \<Rightarrow> u32 \<Rightarrow> bool" where
  "cluster_ok m c \<longleftrightarrow> 2 \<le> unat c \<and> unat c < unat (total_clusters m) + 2"

definition fat_ent :: "fat_mount \<Rightarrow> (u32 \<Rightarrow> sector) \<Rightarrow> u32 \<Rightarrow> u32" where
  "fat_ent m D c = le32 (D (fat_start_lba m + c * 4 div 512)) (unat (c * 4 mod 512)) AND 0x0FFFFFFF"

definition clus :: "fat_mount \<Rightarrow> (u32 \<Rightarrow> sector) \<Rightarrow> u32 \<Rightarrow> u8 list" where
  "clus m D c = concat (map (\<lambda>i. D (cluster_to_lba m c + of_nat i)) [0..<unat (sectors_per_cluster m)])"

lemma fat_geomD:
  assumes "fat_geom m"
  shows "1 \<le> unat (sectors_per_cluster m)" and "unat (sectors_per_cluster m) \<le> 255"
    and "unat (total_clusters m) \<le> 2 ^ 28"
    and "unat (fat_start_lba m) + (unat (total_clusters m) + 2) * 4 div 512 < unat (data_start_lba m)"
    and "unat (data_start_lba m) + unat (total_clusters m) * unat (sectors_per_cluster m) \<le> 2 ^ 28"
    and "unat (data_start_lba m) \<le> 2 ^ 28"
proof -
  show "1 \<le> unat (sectors_per_cluster m)" "unat (sectors_per_cluster m) \<le> 255"
    "unat (fat_start_lba m) + (unat (total_clusters m) + 2) * 4 div 512 < unat (data_start_lba m)"
    and t: "unat (data_start_lba m) + unat (total_clusters m) * unat (sectors_per_cluster m) \<le> 2 ^ 28"
    using assms unfolding fat_geom_def by blast+
  then show "unat (data_start_lba m) \<le> 2 ^ 28"
    by linarith
  have "unat (total_clusters m) * 1 \<le> unat (total_clusters m) * unat (sectors_per_cluster m)"
    using \<open>1 \<le> unat (sectors_per_cluster m)\<close> by (intro mult_le_mono2)
  then show "unat (total_clusters m) \<le> 2 ^ 28"
    using t by linarith
qed

lemma unat_times4:
  assumes "fat_geom m" and "cluster_ok m c"
  shows "unat (c * 4) = unat c * 4"
proof -
  have "unat c < 2 ^ 28 + 2"
    using assms fat_geomD(3) [OF assms(1)] by (simp add: cluster_ok_def)
  then show ?thesis
    by (simp add: unat_word_ariths)
qed

text \<open>Where the entry of a cluster lies.\<close>

lemma entry_place:
  assumes g: "fat_geom m" and c: "cluster_ok m c"
  shows "unat (fat_start_lba m + c * 4 div 512) = unat (fat_start_lba m) + unat c * 4 div 512"
    and "unat (c * 4 mod 512) = unat c * 4 mod 512"
    and "unat (fat_start_lba m) + unat c * 4 div 512 < unat (data_start_lba m)"
    and "unat c * 4 mod 512 + 4 \<le> 512"
proof -
  have "unat c * 4 div 512 \<le> (unat (total_clusters m) + 2) * 4 div 512"
    using c by (intro div_le_mono) (simp add: cluster_ok_def)
  then show b: "unat (fat_start_lba m) + unat c * 4 div 512 < unat (data_start_lba m)"
    using fat_geomD(4) [OF g] by linarith
  have d: "unat (c * 4 div 512) = unat c * 4 div 512"
    by (simp add: unat_div unat_times4 [OF g c])
  show "unat (c * 4 mod 512) = unat c * 4 mod 512"
    by (simp add: unat_mod unat_times4 [OF g c])
  have "unat (fat_start_lba m) + unat (c * 4 div 512) < 2 ^ LENGTH(32)"
    unfolding d using b fat_geomD(6) [OF g] by simp
  then show "unat (fat_start_lba m + c * 4 div 512) = unat (fat_start_lba m) + unat c * 4 div 512"
    using d unat_add_no_overflow [of "fat_start_lba m" "c * 4 div 512"] by simp
  have "unat c * 4 mod 512 = unat c mod 128 * 4"
    using mod_mult_mult2 [of "unat c" 4 128] by simp
  moreover have "unat c mod 128 < 128"
    by simp
  ultimately show "unat c * 4 mod 512 + 4 \<le> 512"
    by linarith
qed

text \<open>Where the sectors of a cluster lie.\<close>

lemma cluster_place:
  assumes g: "fat_geom m" and c: "cluster_ok m c" and i: "i < unat (sectors_per_cluster m)"
  shows "unat (cluster_to_lba m c + of_nat i) =
      unat (data_start_lba m) + (unat c - 2) * unat (sectors_per_cluster m) + i"
    and "unat (data_start_lba m) + (unat c - 2) * unat (sectors_per_cluster m) + i < 2 ^ 28"
proof -
  let ?s = "unat (sectors_per_cluster m)"
  have "(unat c - 2) * ?s + i < (unat c - 2) * ?s + ?s"
    using i by simp
  also have "\<dots> = (unat c - 2 + 1) * ?s"
    by simp
  also have "\<dots> \<le> unat (total_clusters m) * ?s"
    using c by (intro mult_le_mono1) (auto simp: cluster_ok_def)
  finally show b: "unat (data_start_lba m) + (unat c - 2) * ?s + i < 2 ^ 28"
    using fat_geomD(5) [OF g] by linarith
  have c2: "unat (c - 2) = unat c - 2"
    using c by (intro unat_sub_le [of 2 c, simplified]) (simp add: cluster_ok_def word_le_nat_alt)
  have "unat ((c - 2) * sectors_per_cluster m) = (unat c - 2) * ?s"
    using b by (simp add: unat_word_ariths c2)
  moreover have "unat (of_nat i :: u32) = i"
    using i fat_geomD(2) [OF g] by (simp add: unat_of_nat)
  ultimately show "unat (cluster_to_lba m c + of_nat i) = unat (data_start_lba m) + (unat c - 2) * ?s + i"
    using b by (simp add: cluster_to_lba_def unat_word_ariths)
qed

section \<open>Reading and writing entries and clusters\<close>

text \<open>A mounted volume on a working drive.\<close>

definition fat_ok :: "fat_mount \<Rightarrow> bcache \<Rightarrow> bool" where
  "fat_ok m b \<longleftrightarrow> fat_geom m \<and> bcache_inv b \<and> disk_ok (bview b)"

lemma fat_okD: "fat_ok m b \<Longrightarrow> fat_geom m" "fat_ok m b \<Longrightarrow> bcache_inv b" "fat_ok m b \<Longrightarrow> length (bview b l) = 512"
  by (auto simp: fat_ok_def disk_ok_def)

lemma read_entry_view:
  assumes ok: "fat_ok m b" and c: "cluster_ok m c"
  obtains b' where "fat_read_entry m c b = (fat_ent m (bview b) c, b')" and "fat_ok m b'" and "bview b' = bview b"
proof -
  have "unat (fat_start_lba m + c * 4 div 512) < 2 ^ 28"
    using entry_place(1,3) [OF fat_okD(1) [OF ok] c] fat_geomD(6) [OF fat_okD(1) [OF ok]] by linarith
  from read_sector_view [OF fat_okD(2) [OF ok] this] obtain b'
    where "read_sector (fat_start_lba m + c * 4 div 512) b = (Some (bview b (fat_start_lba m + c * 4 div 512)), b')"
      "bcache_inv b'" "bview b' = bview b" .
  then show ?thesis
    using that ok by (auto simp: fat_read_entry_def fat_ent_def Let_def fat_ok_def)
qed

lemma entry_bits: "((a :: u32) AND 0xF0000000 OR v AND 0x0FFFFFFF) AND 0x0FFFFFFF = v AND 0x0FFFFFFF"
proof -
  have "(a AND 0xF0000000) AND 0x0FFFFFFF = 0"
    by (simp add: and.assoc)
  then show ?thesis
    by (simp add: bit.conj_disj_distrib2 and.assoc)
qed

lemma same_entry:
  assumes "fat_geom m" and "cluster_ok m c" and "cluster_ok m x"
    and "unat c * 4 div 512 = unat x * 4 div 512" and "unat c * 4 mod 512 = unat x * 4 mod 512"
  shows "x = c"
proof -
  have "unat c * 4 = unat x * 4"
    using assms(4,5) by (metis div_mult_mod_eq)
  then show ?thesis
    by (simp add: word_unat_eq_iff)
qed

lemma entries_apart:
  assumes "(a :: nat) * 4 mod 512 \<noteq> b * 4 mod 512"
  shows "a * 4 mod 512 + 4 \<le> b * 4 mod 512 \<or> b * 4 mod 512 + 4 \<le> a * 4 mod 512"
proof -
  have eqs: "a * 4 mod 512 = a mod 128 * 4" "b * 4 mod 512 = b mod 128 * 4"
    using mod_mult_mult2 [of a 4 128] mod_mult_mult2 [of b 4 128] by simp_all
  then have "a mod 128 < b mod 128 \<or> b mod 128 < a mod 128"
    using assms by auto
  then show ?thesis
    unfolding eqs by linarith
qed

lemma clus_cong:
  assumes "\<And>i. i < unat (sectors_per_cluster m) \<Longrightarrow> D (cluster_to_lba m x + of_nat i) = D' (cluster_to_lba m x + of_nat i)"
  shows "clus m D x = clus m D' x"
  unfolding clus_def by (intro arg_cong [where f = concat] map_cong refl) (use assms in auto)

lemma write_entry_view:
  assumes ok: "fat_ok m b" and c: "cluster_ok m c"
  obtains b' where "fat_write_entry m c v b = (0, b')" and "fat_ok m b'"
    and "\<And>x. cluster_ok m x \<Longrightarrow> fat_ent m (bview b') x = (if x = c then v AND 0x0FFFFFFF else fat_ent m (bview b) x)"
    and "\<And>x. cluster_ok m x \<Longrightarrow> clus m (bview b') x = clus m (bview b) x"
proof -
  let ?l = "fat_start_lba m + c * 4 div 512" and ?o = "unat (c * 4 mod 512)"
  note g = fat_okD(1) [OF ok]
  note place = entry_place [OF g c]
  have l: "unat ?l < 2 ^ 28"
    using place(1,3) fat_geomD(6) [OF g] by linarith
  from read_sector_view [OF fat_okD(2) [OF ok] l] obtain b1
    where b1: "read_sector ?l b = (Some (bview b ?l), b1)" "bcache_inv b1" "bview b1 = bview b" .
  define w where "w = (le32 (bview b ?l) ?o AND 0xF0000000) OR (v AND 0x0FFFFFFF)"
  define b' where "b' = write_sector ?l (overwrite ?o (put_le32 w) (bview b ?l)) b1"
  note wr = write_sector_view [OF b1(2) l, of "overwrite ?o (put_le32 w) (bview b ?l)"]
  have V: "bview b' = (bview b)(?l := overwrite ?o (put_le32 w) (bview b ?l))"
    using wr(2) b1(3) by (simp add: b'_def)
  have fit: "?o + 4 \<le> length (bview b ?l)"
    using place(2,4) fat_okD(3) [OF ok] by simp
  have res: "fat_write_entry m c v b = (0, b')"
    using b1(1) by (simp add: fat_write_entry_def Let_def b'_def w_def)
  have ok': "fat_ok m b'"
    using ok wr(1) fit unfolding fat_ok_def by (auto simp: b'_def V [unfolded b'_def] disk_ok_def)
  have ent: "fat_ent m (bview b') x = (if x = c then v AND 0x0FFFFFFF else fat_ent m (bview b) x)" if x: "cluster_ok m x" for x
  proof (cases "x = c")
    case True
    then show ?thesis
      using fit by (simp add: fat_ent_def V le32_overwrite_same w_def entry_bits)
  next
    case False
    note px = entry_place [OF g x]
    show ?thesis
    proof (cases "fat_start_lba m + x * 4 div 512 = ?l")
      case same: True
      then have "unat c * 4 mod 512 \<noteq> unat x * 4 mod 512"
        using same_entry [OF g c x] False px(1) place(1) by auto
      from entries_apart [OF this] have "le32 (overwrite ?o (put_le32 w) (bview b ?l)) (unat (x * 4 mod 512)) = le32 (bview b ?l) (unat (x * 4 mod 512))"
        using fit px(2,4) place(2) fat_okD(3) [OF ok] by (intro le32_overwrite_other) auto
      then show ?thesis
        using False same by (simp add: fat_ent_def V)
    qed (use False in \<open>simp add: fat_ent_def V\<close>)
  qed
  have cl: "clus m (bview b') x = clus m (bview b) x" if x: "cluster_ok m x" for x
  proof (rule clus_cong)
    fix i assume "i < unat (sectors_per_cluster m)"
    then have "unat (data_start_lba m) \<le> unat (cluster_to_lba m x + of_nat i)"
      using cluster_place(1) [OF g x] by simp
    then have "cluster_to_lba m x + of_nat i \<noteq> ?l"
      using place(1,3) by auto
    then show "bview b' (cluster_to_lba m x + of_nat i) = bview b (cluster_to_lba m x + of_nat i)"
      by (simp add: V)
  qed
  show ?thesis
    by (rule that [OF res ok' ent cl])
qed

lemma read_loop_view:
  assumes "bcache_inv b" and "unat lba + n \<le> 2 ^ 28"
  shows "\<exists>b'. read_cluster_loop n lba b = (Some (concat (map (\<lambda>i. bview b (lba + of_nat i)) [0..<n])), b') \<and>
     bcache_inv b' \<and> bview b' = bview b"
  using assms
proof (induction n arbitrary: lba b)
  case (Suc n)
  have "unat lba < 2 ^ 28"
    using Suc.prems(2) by simp
  from read_sector_view [OF Suc.prems(1) this] obtain b1
    where b1: "read_sector lba b = (Some (bview b lba), b1)" "bcache_inv b1" "bview b1 = bview b" .
  have "unat (lba + 1) + n \<le> 2 ^ 28"
    using Suc.prems(2) unat_add_no_overflow [of lba 1] by simp
  from Suc.IH [OF b1(2) this] obtain b2
    where b2: "read_cluster_loop n (lba + 1) b1 = (Some (concat (map (\<lambda>i. bview b1 (lba + 1 + of_nat i)) [0..<n])), b2)"
      "bcache_inv b2" "bview b2 = bview b1"
    by blast
  have "map (\<lambda>i. bview b (lba + of_nat i)) [0..<Suc n] = bview b lba # map (\<lambda>i. bview b (lba + 1 + of_nat i)) [0..<n]"
    by (simp add: upt_conv_Cons map_Suc_upt [symmetric] add.assoc del: upt_Suc)
  then show ?case
    using b1 b2 by simp
qed simp

lemma write_loop_view:
  assumes "bcache_inv b" and "unat lba + n \<le> 2 ^ 28"
  shows "bcache_inv (write_cluster_loop n lba src b) \<and> bview (write_cluster_loop n lba src b) =
     (\<lambda>l. if unat lba \<le> unat l \<and> unat l < unat lba + n then take 512 (drop (512 * (unat l - unat lba)) src) else bview b l)"
  using assms
proof (induction n arbitrary: lba src b)
  case (Suc n)
  have lt: "unat lba < 2 ^ 28"
    using Suc.prems(2) by simp
  note w = bcache_write_ok [OF Suc.prems(1) lt, of "take 512 src"]
  have l1: "unat (lba + 1) = unat lba + 1"
    using lt unat_add_no_overflow [of lba 1] by simp
  have "unat (lba + 1) + n \<le> 2 ^ 28"
    using Suc.prems(2) l1 by simp
  note IH = Suc.IH [OF conjunct1 [OF w] this, of "drop 512 src"]
  have chunk: "512 * (l - Suc k) + 512 = 512 * (l - k)" if "Suc k \<le> l" for l k :: nat
    using that by (simp add: algebra_simps)
  show ?case
    using IH w by (auto simp: fun_eq_iff l1 chunk word_unat_eq_iff)
qed (auto simp: fun_eq_iff)

lemma clus_length: "disk_ok D \<Longrightarrow> length (clus m D c) = 512 * unat (sectors_per_cluster m)"
  by (simp add: clus_def length_concat o_def disk_ok_def sum_list_triv)

lemma read_cluster_view:
  assumes ok: "fat_ok m b" and c: "cluster_ok m c"
  obtains b' where "read_cluster m c b = (Some (clus m (bview b) c), b')" and "fat_ok m b'" and "bview b' = bview b"
proof -
  note g = fat_okD(1) [OF ok]
  have "unat (cluster_to_lba m c) + unat (sectors_per_cluster m) \<le> 2 ^ 28"
    using cluster_place [OF g c, of 0] cluster_place(2) [OF g c, of "unat (sectors_per_cluster m) - 1"] fat_geomD(1) [OF g]
    by simp
  from read_loop_view [OF fat_okD(2) [OF ok] this] show ?thesis
    using that ok by (auto simp: read_cluster_def clus_def fat_ok_def)
qed

lemma concat_chunks: "length src = 512 * n \<Longrightarrow> concat (map (\<lambda>i. take 512 (drop (512 * i) src)) [0..<n]) = src"
proof (induction n arbitrary: src)
  case (Suc n)
  have "map (\<lambda>i. take 512 (drop (512 * i) src)) [0..<Suc n] =
      take 512 src # map (\<lambda>i. take 512 (drop (512 * i) (drop 512 src))) [0..<n]"
    by (simp add: upt_conv_Cons map_Suc_upt [symmetric] add.commute del: upt_Suc)
  then show ?case
    using Suc.IH [of "drop 512 src"] Suc.prems by simp
qed simp

lemma write_cluster_view:
  assumes ok: "fat_ok m b" and c: "cluster_ok m c" and len: "length src = 512 * unat (sectors_per_cluster m)"
  shows "fat_ok m (write_cluster m c src b)"
    and "cluster_ok m x \<Longrightarrow> fat_ent m (bview (write_cluster m c src b)) x = fat_ent m (bview b) x"
    and "cluster_ok m x \<Longrightarrow> clus m (bview (write_cluster m c src b)) x = (if x = c then src else clus m (bview b) x)"
proof -
  let ?s = "unat (sectors_per_cluster m)" and ?L = "unat (cluster_to_lba m c)"
  note g = fat_okD(1) [OF ok]
  have place: "unat (cluster_to_lba m x + of_nat i) = unat (data_start_lba m) + (unat x - 2) * ?s + i"
    if "cluster_ok m x" "i < ?s" for x i
    by (rule cluster_place(1) [OF g that])
  have L: "?L = unat (data_start_lba m) + (unat c - 2) * ?s"
    using place [OF c, of 0] fat_geomD(1) [OF g] by simp
  have "?L + ?s \<le> 2 ^ 28"
    using L cluster_place(2) [OF g c, of "?s - 1"] fat_geomD(1) [OF g] by simp
  note w = write_loop_view [OF fat_okD(2) [OF ok] this, of src]
  have V: "bview (write_cluster m c src b) =
     (\<lambda>l. if ?L \<le> unat l \<and> unat l < ?L + ?s then take 512 (drop (512 * (unat l - ?L)) src) else bview b l)"
    using w by (simp add: write_cluster_def)
  have "length (take 512 (drop (512 * (k - ?L)) src)) = 512" if "?L \<le> k" "k < ?L + ?s" for k
  proof -
    have "512 * (k - ?L) + 512 \<le> 512 * ?s"
      using that by simp
    then show ?thesis
      using len by simp
  qed
  then show "fat_ok m (write_cluster m c src b)"
    using ok w unfolding fat_ok_def write_cluster_def disk_ok_def by auto
  {
    assume x: "cluster_ok m x"
    have "\<not> ?L \<le> unat (fat_start_lba m + x * 4 div 512)"
      using entry_place(1,3) [OF g x] L by simp
    then show "fat_ent m (bview (write_cluster m c src b)) x = fat_ent m (bview b) x"
      by (simp add: fat_ent_def V)
    show "clus m (bview (write_cluster m c src b)) x = (if x = c then src else clus m (bview b) x)"
    proof (cases "x = c")
      case True
      have chunks: "map (\<lambda>i. bview (write_cluster m c src b) (cluster_to_lba m c + of_nat i)) [0..<?s] =
          map (\<lambda>i. take 512 (drop (512 * i) src)) [0..<?s]"
        using place [OF c] L by (intro map_cong refl) (simp add: V)
      show ?thesis
        unfolding clus_def True chunks using concat_chunks [OF len] by simp
    next
      case False
      have apart: "(unat x - 2) * ?s + ?s \<le> (unat c - 2) * ?s \<or> (unat c - 2) * ?s + ?s \<le> (unat x - 2) * ?s"
      proof -
        have "unat x \<noteq> unat c"
          using False by (simp add: word_unat_eq_iff)
        then have "Suc (unat x - 2) \<le> unat c - 2 \<or> Suc (unat c - 2) \<le> unat x - 2"
          using x c by (auto simp: cluster_ok_def)
        then have "Suc (unat x - 2) * ?s \<le> (unat c - 2) * ?s \<or> Suc (unat c - 2) * ?s \<le> (unat x - 2) * ?s"
          by (metis mult_le_mono1)
        then show ?thesis
          by (simp add: add.commute)
      qed
      have "clus m (bview (write_cluster m c src b)) x = clus m (bview b) x"
      proof (rule clus_cong)
        fix i assume i: "i < ?s"
        then show "bview (write_cluster m c src b) (cluster_to_lba m x + of_nat i) = bview b (cluster_to_lba m x + of_nat i)"
          using place [OF x i] L apart by (auto simp: V)
      qed
      then show ?thesis
        using False by simp
    qed
  }
qed

section \<open>Chains\<close>

text \<open>\<open>chain m E c cs\<close>: following the links \<open>E\<close> from \<open>c\<close> visits the clusters \<open>cs\<close> and then ends.\<close>

fun chain :: "fat_mount \<Rightarrow> (u32 \<Rightarrow> u32) \<Rightarrow> u32 \<Rightarrow> u32 list \<Rightarrow> bool" where
  "chain m E c [] \<longleftrightarrow> \<not> in_chain c"
| "chain m E c (x # xs) \<longleftrightarrow> x = c \<and> in_chain c \<and> cluster_ok m c \<and> chain m E (E c) xs"

lemma chain_det: "chain m E c xs \<Longrightarrow> chain m E c ys \<Longrightarrow> xs = ys"
proof (induction xs arbitrary: c ys)
  case Nil
  then show ?case
    by (cases ys) auto
next
  case (Cons x xs)
  then show ?case
    by (cases ys) auto
qed

lemma chain_suffix: "chain m E c (xs @ y # ys) \<Longrightarrow> chain m E y (y # ys)"
  by (induction xs arbitrary: c) auto

lemma chain_distinct: "chain m E c cs \<Longrightarrow> distinct cs"
proof (induction cs arbitrary: c)
  case (Cons x xs)
  have "x \<notin> set xs"
  proof
    assume "x \<in> set xs"
    then obtain ys zs where xs: "xs = ys @ x # zs"
      by (auto simp: in_set_conv_decomp)
    have "chain m E x (x # zs)"
      using chain_suffix [of m E "E c" ys x zs] Cons.prems xs by auto
    then have "x # zs = x # xs"
      using chain_det Cons.prems by auto
    then show False
      using xs by simp
  qed
  then show ?case
    using Cons by auto
qed simp

lemma chain_ok: "chain m E c cs \<Longrightarrow> x \<in> set cs \<Longrightarrow> cluster_ok m x \<and> in_chain x"
  by (induction cs arbitrary: c) auto

lemma chain_cong: "chain m E c cs \<Longrightarrow> (\<And>x. x \<in> set cs \<Longrightarrow> E' x = E x) \<Longrightarrow> chain m E' c cs"
  by (induction cs arbitrary: c) auto

lemma free_chain_view:
  assumes "fat_ok m b" and "chain m (fat_ent m (bview b)) c cs"
  shows "\<exists>b'. fat_free_chain m c b = Some b' \<and> fat_ok m b' \<and>
     (\<forall>x. cluster_ok m x \<longrightarrow> fat_ent m (bview b') x = (if x \<in> set cs then FAT32_FREE else fat_ent m (bview b) x)) \<and>
     (\<forall>x. cluster_ok m x \<longrightarrow> clus m (bview b') x = clus m (bview b) x)"
  using assms
proof (induction cs arbitrary: c b)
  case Nil
  then show ?case
    by (simp add: fat_free_chain.simps)
next
  case (Cons x xs)
  then have x: "x = c" "in_chain c" "cluster_ok m c" "chain m (fat_ent m (bview b)) (fat_ent m (bview b) c) xs"
    by auto
  from read_entry_view [OF Cons.prems(1) x(3)] obtain b1
    where b1: "fat_read_entry m c b = (fat_ent m (bview b) c, b1)" "fat_ok m b1" "bview b1 = bview b" .
  from write_entry_view [OF b1(2) x(3), of FAT32_FREE] obtain b2
    where b2: "fat_write_entry m c FAT32_FREE b1 = (0, b2)" "fat_ok m b2"
      "\<And>y. cluster_ok m y \<Longrightarrow> fat_ent m (bview b2) y = (if y = c then FAT32_FREE AND 0x0FFFFFFF else fat_ent m (bview b1) y)"
      "\<And>y. cluster_ok m y \<Longrightarrow> clus m (bview b2) y = clus m (bview b1) y"
    by blast
  have "c \<notin> set xs"
    using chain_distinct [OF Cons.prems(2)] x(1) by simp
  then have "chain m (fat_ent m (bview b2)) (fat_ent m (bview b) c) xs"
    using chain_ok [OF x(4)] b2(3) b1(3) by (intro chain_cong [OF x(4)]) auto
  from Cons.IH [OF b2(2) this] obtain b' where b': "fat_free_chain m (fat_ent m (bview b) c) b2 = Some b'" "fat_ok m b'"
      "\<forall>y. cluster_ok m y \<longrightarrow> fat_ent m (bview b') y = (if y \<in> set xs then FAT32_FREE else fat_ent m (bview b2) y)"
      "\<forall>y. cluster_ok m y \<longrightarrow> clus m (bview b') y = clus m (bview b2) y"
    by blast
  have "fat_free_chain m c b = Some b'"
    using x(2) b1(1) b2(1) b'(1) by (simp add: fat_free_chain.simps [of m c b])
  then show ?case
    using b' b2(3,4) b1(3) x(1) by (auto simp: FAT32_FREE_def)
qed

section \<open>The allocator\<close>

lemma zero_cluster_view:
  assumes ok: "fat_ok m b" and c: "cluster_ok m c"
  shows "fat_ok m (zero_cluster km h m c b)"
    and "cluster_ok m x \<Longrightarrow> fat_ent m (bview (zero_cluster km h m c b)) x = fat_ent m (bview b) x"
    and "cluster_ok m x \<Longrightarrow> x \<noteq> c \<Longrightarrow> clus m (bview (zero_cluster km h m c b)) x = clus m (bview b) x"
    and "kalloc km h (cluster_bytes m) \<Longrightarrow>
      clus m (bview (zero_cluster km h m c b)) c = replicate (512 * unat (sectors_per_cluster m)) 0"
proof -
  have "unat (cluster_bytes m) = 512 * unat (sectors_per_cluster m)"
    using fat_geomD(2) [OF fat_okD(1) [OF ok]] by (simp add: cluster_bytes_def unat_word_ariths)
  then have len: "length (replicate (unat (cluster_bytes m)) (0::u8)) = 512 * unat (sectors_per_cluster m)"
    by simp
  note w = write_cluster_view [OF ok c len]
  show "fat_ok m (zero_cluster km h m c b)"
    using w(1) ok by (simp add: zero_cluster_def)
  show "cluster_ok m x \<Longrightarrow> fat_ent m (bview (zero_cluster km h m c b)) x = fat_ent m (bview b) x"
    using w(2) by (simp add: zero_cluster_def)
  show "cluster_ok m x \<Longrightarrow> x \<noteq> c \<Longrightarrow> clus m (bview (zero_cluster km h m c b)) x = clus m (bview b) x"
    using w(3) by (simp add: zero_cluster_def)
  show "kalloc km h (cluster_bytes m) \<Longrightarrow>
      clus m (bview (zero_cluster km h m c b)) c = replicate (512 * unat (sectors_per_cluster m)) 0"
    using w(3) [OF c] len by (simp add: zero_cluster_def)
qed

text \<open>The result of an allocation, as a relation between the table before and after.\<close>

definition allocated :: "fat_mount \<Rightarrow> bcache \<Rightarrow> u32 \<Rightarrow> bcache \<Rightarrow> bool" where
  "allocated m b c b' \<longleftrightarrow> cluster_ok m c \<and> fat_ent m (bview b) c = FAT32_FREE \<and> fat_ok m b' \<and>
     (\<forall>x. cluster_ok m x \<longrightarrow> fat_ent m (bview b') x = (if x = c then FAT32_EOC else fat_ent m (bview b) x)) \<and>
     (\<forall>x. cluster_ok m x \<longrightarrow> x \<noteq> c \<longrightarrow> clus m (bview b') x = clus m (bview b) x)"

lemma alloc_loop_view:
  assumes "fat_ok m b" and "2 \<le> unat c"
  shows "\<exists>r b'. fat_alloc_loop km h m c b = (r, b') \<and>
     (r = 0 \<and> fat_ok m b' \<and> bview b' = bview b \<and>
        (\<forall>x. cluster_ok m x \<and> unat c \<le> unat x \<longrightarrow> fat_ent m (bview b) x \<noteq> FAT32_FREE) \<or>
      allocated m b r b' \<and> unat c \<le> unat r \<and>
        (\<forall>x. cluster_ok m x \<and> unat c \<le> unat x \<and> unat x < unat r \<longrightarrow> fat_ent m (bview b) x \<noteq> FAT32_FREE) \<and>
        (kalloc km h (cluster_bytes m) \<longrightarrow> clus m (bview b') r = replicate (512 * unat (sectors_per_cluster m)) 0))"
  using assms
proof (induction km h m c b rule: fat_alloc_loop.induct)
  case (1 km h m c b)
  note g = fat_okD(1) [OF "1.prems"(1)]
  have t2: "unat (total_clusters m + 2) = unat (total_clusters m) + 2"
    using fat_geomD(3) [OF g] unat_add_no_overflow [of "total_clusters m" 2] by simp
  show ?case
  proof (cases "c < total_clusters m + 2")
    case False
    then have "\<forall>x. cluster_ok m x \<longrightarrow> \<not> unat c \<le> unat x"
      using t2 by (auto simp: word_less_nat_alt cluster_ok_def)
    moreover have "fat_alloc_loop km h m c b = (0, b)"
      using False by (simp add: fat_alloc_loop.simps)
    ultimately show ?thesis
      using "1.prems"(1) by blast
  next
    case True
    then have c: "cluster_ok m c"
      using t2 "1.prems"(2) by (simp add: cluster_ok_def word_less_nat_alt)
    from read_entry_view [OF "1.prems"(1) c] obtain b1
      where b1: "fat_read_entry m c b = (fat_ent m (bview b) c, b1)" "fat_ok m b1" "bview b1 = bview b" .
    show ?thesis
    proof (cases "fat_ent m (bview b) c = FAT32_FREE")
      case free: True
      from write_entry_view [OF b1(2) c, of FAT32_EOC] obtain b2
        where b2: "fat_write_entry m c FAT32_EOC b1 = (0, b2)" "fat_ok m b2"
          "\<And>y. cluster_ok m y \<Longrightarrow> fat_ent m (bview b2) y = (if y = c then FAT32_EOC AND 0x0FFFFFFF else fat_ent m (bview b1) y)"
          "\<And>y. cluster_ok m y \<Longrightarrow> clus m (bview b2) y = clus m (bview b1) y"
        by blast
      have "fat_alloc_loop km h m c b = (c, zero_cluster km h m c b2)"
        using True free b1(1) b2(1) by (simp add: fat_alloc_loop.simps [of km h m c b])
      moreover have "allocated m b c (zero_cluster km h m c b2)"
        using c free b2(3,4) b1(3) zero_cluster_view [OF b2(2) c]
        by (auto simp: allocated_def FAT32_EOC_def)
      ultimately show ?thesis
        using zero_cluster_view(4) [OF b2(2) c] by auto
    next
      case used: False
      have c1: "unat (c + 1) = unat c + 1"
        using unat_Suc_less [OF True] by simp
      have "2 \<le> unat (c + 1)"
        using c1 "1.prems"(2) by simp
      from "1.IH" [OF True b1(1) [symmetric] used b1(2) this] obtain r b'
        where r: "fat_alloc_loop km h m (c + 1) b1 = (r, b')"
          "r = 0 \<and> fat_ok m b' \<and> bview b' = bview b1 \<and>
             (\<forall>x. cluster_ok m x \<and> unat (c + 1) \<le> unat x \<longrightarrow> fat_ent m (bview b1) x \<noteq> FAT32_FREE) \<or>
           allocated m b1 r b' \<and> unat (c + 1) \<le> unat r \<and>
             (\<forall>x. cluster_ok m x \<and> unat (c + 1) \<le> unat x \<and> unat x < unat r \<longrightarrow> fat_ent m (bview b1) x \<noteq> FAT32_FREE) \<and>
             (kalloc km h (cluster_bytes m) \<longrightarrow> clus m (bview b') r = replicate (512 * unat (sectors_per_cluster m)) 0)"
        by blast
      have step: "fat_ent m (bview b) x \<noteq> FAT32_FREE" if "unat c \<le> unat x" "unat (c + 1) \<le> unat x \<Longrightarrow> fat_ent m (bview b) x \<noteq> FAT32_FREE" for x
        using that used c1 by (cases "unat x = unat c") (auto simp: word_unat_eq_iff [symmetric])
      have "fat_alloc_loop km h m c b = (r, b')"
        using True used b1(1) r(1) by (simp add: fat_alloc_loop.simps [of km h m c b])
      then show ?thesis
        using r(2) step c1 by (auto simp: b1(3) allocated_def)
    qed
  qed
qed

section \<open>Properties\<close>

text \<open>A small volume: four clusters of one sector, of which the first two are a chain.\<close>

definition sample_mount :: fat_mount where
  "sample_mount = \<lparr>partition_lba = 0, fat_start_lba = 1, data_start_lba = 3, root_cluster = 2, sectors_per_cluster = 1,
     fat_size_sectors = 1, bytes_per_sector = 512, total_clusters = 4, mounted = True\<rparr>"

definition sample_disk :: "u32 \<Rightarrow> sector" where
  "sample_disk l = (if l = 1 then overwrite 8 (put_le32 3 @ put_le32 FAT32_EOC) (replicate 512 0) else replicate 512 0)"

definition sample_vol :: bcache where
  "sample_vol = bcache_init \<lparr>cache = [], tick_counter = 0, hits = 0, misses = 0,
     drive = \<lparr>disk_present = True, sectors = sample_disk, bad_sector = (\<lambda>_. False)\<rparr>\<rparr>"

lemma sample_vol_view: "bview sample_vol = sample_disk" "bcache_inv sample_vol"
  using bcache_init_inv by (simp_all add: sample_vol_def drive_ok_def)

lemma sample_cluster_ok: "cluster_ok sample_mount c \<longleftrightarrow> c = 2 \<or> c = 3 \<or> c = 4 \<or> c = 5"
proof -
  have "cluster_ok sample_mount c \<longleftrightarrow> unat c = 2 \<or> unat c = 3 \<or> unat c = 4 \<or> unat c = 5"
    by (auto simp: cluster_ok_def sample_mount_def)
  then show ?thesis
    by (simp add: word_unat_eq_iff)
qed

lemma sample_vol_ok: "fat_ok sample_mount sample_vol"
  using sample_vol_view by (simp add: fat_ok_def fat_geom_def sample_mount_def disk_ok_def sample_disk_def)

lemma sample_entries:
  "fat_ent sample_mount sample_disk 2 = 3" "fat_ent sample_mount sample_disk 3 = FAT32_EOC" "fat_ent sample_mount sample_disk 4 = 0"
  by code_simp+

lemma sample_chain: "chain sample_mount (fat_ent sample_mount (bview sample_vol)) 2 [2, 3]"
  by (simp add: sample_vol_view sample_entries sample_cluster_ok in_chain_def FAT32_EOC_def)

text \<open>
  C27. Freeing a cluster chain returns and frees exactly its clusters: when the links from \<open>c\<close>
  lead through the clusters \<open>cs\<close> to an end mark, \<open>fat_free_chain\<close> terminates, marks all of \<open>cs\<close>
  free, and changes no other link and no cluster's data.
\<close>
theorem fat_free_chain_correct:
  assumes "fat_ok m b" and "chain m (fat_ent m (bview b)) c cs"
  shows "\<exists>b'. fat_free_chain m c b = Some b' \<and> fat_ok m b' \<and>
     (\<forall>x. cluster_ok m x \<longrightarrow> fat_ent m (bview b') x = (if x \<in> set cs then FAT32_FREE else fat_ent m (bview b) x)) \<and>
     (\<forall>x. cluster_ok m x \<longrightarrow> clus m (bview b') x = clus m (bview b) x)"
  by (rule free_chain_view [OF assms])

theorem fat_free_chain_correct_witness:
  "\<exists>b'. fat_free_chain sample_mount 2 sample_vol = Some b' \<and> fat_ent sample_mount (bview b') 3 = FAT32_FREE"
  using fat_free_chain_correct [OF sample_vol_ok sample_chain]
  by (auto simp: sample_cluster_ok)

text \<open>
  C28. The cluster allocator takes the lowest free cluster of the volume, marks it as the end of a
  chain, zeroes it when its scratch buffer could be allocated, and changes nothing else; it
  reports 0 exactly when no cluster is free, and then leaves the volume as it was.
\<close>
theorem fat_alloc_cluster_correct:
  assumes "fat_ok m b"
  shows "\<exists>r b'. fat_alloc_cluster km h m b = (r, b') \<and>
     (r = 0 \<and> fat_ok m b' \<and> bview b' = bview b \<and> (\<forall>x. cluster_ok m x \<longrightarrow> fat_ent m (bview b) x \<noteq> FAT32_FREE) \<or>
      allocated m b r b' \<and> (\<forall>x. cluster_ok m x \<and> unat x < unat r \<longrightarrow> fat_ent m (bview b) x \<noteq> FAT32_FREE) \<and>
      (kalloc km h (cluster_bytes m) \<longrightarrow> clus m (bview b') r = replicate (512 * unat (sectors_per_cluster m)) 0))"
proof -
  have "2 \<le> unat (2 :: u32)"
    by simp
  from alloc_loop_view [OF assms this, of km h] show ?thesis
    unfolding fat_alloc_cluster_def cluster_ok_def by fastforce
qed

theorem fat_alloc_cluster_correct_witness:
  "\<exists>b'. fat_alloc_cluster (\<lambda>_ _. True) 0 sample_mount sample_vol = (4, b') \<and> fat_ent sample_mount (bview b') 4 = FAT32_EOC"
proof -
  obtain r b' where r: "fat_alloc_cluster (\<lambda>_ _. True) 0 sample_mount sample_vol = (r, b')"
    and alt: "r = 0 \<and> (\<forall>x. cluster_ok sample_mount x \<longrightarrow> fat_ent sample_mount (bview sample_vol) x \<noteq> FAT32_FREE) \<or>
      allocated sample_mount sample_vol r b' \<and>
      (\<forall>x. cluster_ok sample_mount x \<and> unat x < unat r \<longrightarrow> fat_ent sample_mount (bview sample_vol) x \<noteq> FAT32_FREE)"
    using fat_alloc_cluster_correct [OF sample_vol_ok, of "\<lambda>_ _. True" 0] by blast
  have free4: "cluster_ok sample_mount 4" "fat_ent sample_mount (bview sample_vol) 4 = FAT32_FREE"
    by (simp_all add: sample_cluster_ok sample_vol_view sample_entries FAT32_FREE_def)
  then have al: "allocated sample_mount sample_vol r b'" and le: "\<not> unat (4 :: u32) < unat r"
    using alt by blast+
  have "cluster_ok sample_mount r" "fat_ent sample_mount (bview sample_vol) r = FAT32_FREE"
    and e: "fat_ent sample_mount (bview b') r = FAT32_EOC"
    using al unfolding allocated_def by auto
  then have "r = 4"
    using sample_entries sample_vol_view(1) le
    by (auto simp: sample_cluster_ok FAT32_FREE_def FAT32_EOC_def)
  then show ?thesis
    using r e by auto
qed

end
