(* ===== verification/FatFile.thy ===== *)
theory FatFile
  imports FatTable
begin

text \<open>
  Files of the FAT driver: an open file is a chain of clusters and a position in it. Reading
  returns the bytes of the file in order and moves the position; the invariant \<open>file_pos\<close> ties
  the current cluster of a handle to its offset.
\<close>

unbundle bit_operations_syntax

section \<open>Contents\<close>

definition contents :: "fat_mount \<Rightarrow> (u32 \<Rightarrow> sector) \<Rightarrow> u32 list \<Rightarrow> u8 list" where
  "contents m D cs = concat (map (clus m D) cs)"

abbreviation cbytes :: "fat_mount \<Rightarrow> nat" where
  "cbytes m \<equiv> 512 * unat (sectors_per_cluster m)"

lemma drop_concat_uniform:
  assumes "\<And>x. x \<in> set xs \<Longrightarrow> length x = n" and "off div n < length xs" and "0 < n"
  shows "drop off (concat xs) = drop (off mod n) (xs ! (off div n)) @ concat (drop (Suc (off div n)) xs)"
  using assms(1,2)
proof (induction xs arbitrary: off)
  case (Cons x xs)
  have len: "length x = n"
    using Cons.prems(1) by simp
  show ?case
  proof (cases "off < n")
    case False
    then obtain k where k: "off = n + k"
      using le_Suc_ex by (metis not_less)
    have "off div n = Suc (k div n)" "off mod n = k mod n"
      using assms(3) by (simp_all add: k div_add_self1)
    then show ?thesis
      using Cons.IH [of k] Cons.prems len k by simp
  qed (use len in simp)
qed simp

lemma length_contents: "disk_ok D \<Longrightarrow> length (contents m D cs) = cbytes m * length cs"
  by (induction cs) (simp_all add: contents_def clus_length algebra_simps)

text \<open>A handle whose chain is \<open>cs\<close> and whose current cluster is the one its offset lies in.\<close>

definition file_pos :: "fat_mount \<Rightarrow> (u32 \<Rightarrow> u32) \<Rightarrow> u32 list \<Rightarrow> fat_file \<Rightarrow> bool" where
  "file_pos m E cs f \<longleftrightarrow> chain m E (start_cluster f) cs \<and>
     chain m E (current_cluster f) (drop (unat (f_offset f) div cbytes m) cs) \<and>
     unat (f_offset f) \<le> cbytes m * length cs"

lemma cluster_bytes_nat: "fat_geom m \<Longrightarrow> unat (cluster_bytes m) = cbytes m"
  using fat_geomD(2) [of m] by (simp add: cluster_bytes_def unat_word_ariths)

lemma cluster_bytes_pos: "fat_geom m \<Longrightarrow> 0 < cbytes m \<and> cluster_bytes m \<noteq> 0"
  using fat_geomD(1) [of m] cluster_bytes_nat [of m] by (auto simp: word_unat_eq_iff)

text \<open>One round of the copy loops: the position after copying \<open>tc\<close> bytes within a cluster.\<close>

lemma pos_advance:
  fixes n off tc :: nat
  assumes "0 < n" and "0 < tc" and "tc \<le> n - off mod n"
  shows "(off + tc) mod n = 0 \<longleftrightarrow> tc = n - off mod n"
    and "tc = n - off mod n \<Longrightarrow> (off + tc) div n = Suc (off div n)"
    and "tc < n - off mod n \<Longrightarrow> (off + tc) div n = off div n"
proof -
  have off: "off = n * (off div n) + off mod n" and lt: "off mod n < n"
    using assms(1) by simp_all
  define q r where "q = off div n" and "r = off mod n"
  have o: "off + tc = n * q + (r + tc)" and r: "r < n" "r + tc \<le> n"
    using off lt assms(3) by (simp_all add: q_def r_def)
  have mod: "(off + tc) mod n = (r + tc) mod n" and div: "(off + tc) div n = q + (r + tc) div n"
    unfolding o using assms(1) by simp_all
  show "(off + tc) mod n = 0 \<longleftrightarrow> tc = n - off mod n"
    unfolding mod r_def [symmetric] using r assms(2) by (cases "r + tc = n") auto
  show "(off + tc) div n = Suc (off div n)" if "tc = n - off mod n"
    unfolding div q_def [symmetric] using that r assms(1) by (simp add: r_def)
  show "(off + tc) div n = off div n" if "tc < n - off mod n"
    unfolding div q_def [symmetric] using that r by (simp add: r_def)
qed

text \<open>The number of bytes one round copies, and the handle after it.\<close>

definition round_len :: "fat_mount \<Rightarrow> fat_file \<Rightarrow> nat \<Rightarrow> u32" where
  "round_len m f r = min (of_nat r) (cluster_bytes m - f_offset f mod cluster_bytes m)"

definition advance :: "fat_mount \<Rightarrow> (u32 \<Rightarrow> u32) \<Rightarrow> u32 \<Rightarrow> fat_file \<Rightarrow> fat_file" where
  "advance m E tc f =
     (if (f_offset f + tc) mod cluster_bytes m = 0
      then f\<lparr>f_offset := f_offset f + tc, current_cluster := E (current_cluster f)\<rparr>
      else f\<lparr>f_offset := f_offset f + tc\<rparr>)"

lemma round_len_props:
  assumes g: "fat_geom m" and r: "0 < r" "r < 2 ^ 32"
  shows "unat (f_offset f mod cluster_bytes m) = unat (f_offset f) mod cbytes m"
    and "unat (round_len m f r) = min r (cbytes m - unat (f_offset f) mod cbytes m)"
    and "0 < unat (round_len m f r)" and "unat (round_len m f r) \<le> r"
    and "unat (round_len m f r) \<le> cbytes m - unat (f_offset f) mod cbytes m"
proof -
  note cb = cluster_bytes_nat [OF g] and pos = cluster_bytes_pos [OF g]
  show oic: "unat (f_offset f mod cluster_bytes m) = unat (f_offset f) mod cbytes m"
    by (simp add: unat_mod cb)
  have "unat (cluster_bytes m - f_offset f mod cluster_bytes m) = cbytes m - unat (f_offset f) mod cbytes m"
    using oic cb pos by (subst unat_sub_le) (simp_all add: word_le_nat_alt less_imp_le)
  then show l: "unat (round_len m f r) = min r (cbytes m - unat (f_offset f) mod cbytes m)"
    using r(2) by (simp add: round_len_def min_def word_le_nat_alt unat_of_nat)
  show "0 < unat (round_len m f r)" "unat (round_len m f r) \<le> r"
    "unat (round_len m f r) \<le> cbytes m - unat (f_offset f) mod cbytes m"
    using l r(1) pos by auto
qed

lemma file_pos_cluster:
  assumes "file_pos m E cs f" and "unat (f_offset f) div cbytes m < length cs"
  shows "current_cluster f = cs ! (unat (f_offset f) div cbytes m)" and "in_chain (current_cluster f)"
    and "cluster_ok m (current_cluster f)"
    and "chain m E (E (current_cluster f)) (drop (Suc (unat (f_offset f) div cbytes m)) cs)"
proof -
  have "drop (unat (f_offset f) div cbytes m) cs =
      cs ! (unat (f_offset f) div cbytes m) # drop (Suc (unat (f_offset f) div cbytes m)) cs"
    using assms(2) by (simp add: Cons_nth_drop_Suc)
  then show "current_cluster f = cs ! (unat (f_offset f) div cbytes m)" "in_chain (current_cluster f)"
    "cluster_ok m (current_cluster f)" "chain m E (E (current_cluster f)) (drop (Suc (unat (f_offset f) div cbytes m)) cs)"
    using assms(1) by (auto simp: file_pos_def)
qed

lemma advance_pos:
  assumes g: "fat_geom m" and fp: "file_pos m E cs f" and k: "unat (f_offset f) div cbytes m < length cs"
    and tc: "0 < unat tc" "unat tc \<le> cbytes m - unat (f_offset f) mod cbytes m"
    and bd: "unat (f_offset f) + unat tc \<le> cbytes m * length cs" "unat (f_offset f) + unat tc < 2 ^ 32"
  shows "unat (f_offset (advance m E tc f)) = unat (f_offset f) + unat tc" and "file_pos m E cs (advance m E tc f)"
proof -
  let ?n = "cbytes m" and ?off = "unat (f_offset f)"
  note adv = pos_advance [OF conjunct1 [OF cluster_bytes_pos [OF g]] tc]
  have off1: "unat (f_offset f + tc) = ?off + unat tc"
    using bd(2) by (intro unat_add_no_overflow) simp
  have nx: "(f_offset f + tc) mod cluster_bytes m = 0 \<longleftrightarrow> unat tc = ?n - ?off mod ?n"
    using adv(1) off1 by (simp add: word_unat_eq_iff [of _ 0] unat_mod cluster_bytes_nat [OF g])
  show off2: "unat (f_offset (advance m E tc f)) = ?off + unat tc"
    using off1 by (simp add: advance_def)
  have "chain m E (current_cluster (advance m E tc f)) (drop ((?off + unat tc) div ?n) cs)"
  proof (cases "unat tc = ?n - ?off mod ?n")
    case True
    then show ?thesis
      using file_pos_cluster(4) [OF fp k] adv(2) nx by (simp add: advance_def)
  next
    case False
    then show ?thesis
      using fp adv(3) nx tc(2) by (simp add: advance_def file_pos_def)
  qed
  then show "file_pos m E cs (advance m E tc f)"
    using fp bd(1) off2 by (simp add: file_pos_def) (simp add: advance_def)
qed

lemma contents_chunk:
  assumes D: "disk_ok D" and k: "off div cbytes m < length cs" and n: "0 < cbytes m" and tc: "tc \<le> cbytes m - off mod cbytes m"
  shows "take tc (drop off (contents m D cs)) = take tc (drop (off mod cbytes m) (clus m D (cs ! (off div cbytes m))))"
proof -
  have "drop off (contents m D cs) = drop (off mod cbytes m) (clus m D (cs ! (off div cbytes m))) @
      concat (drop (Suc (off div cbytes m)) (map (clus m D) cs))"
    unfolding contents_def using drop_concat_uniform [of "map (clus m D) cs" "cbytes m" off] clus_length [OF D] k n by auto
  then show ?thesis
    using tc clus_length [OF D] by simp
qed

section \<open>Reading\<close>

lemma read_loop_step:
  assumes ok: "fat_ok m b" and fp: "file_pos m (fat_ent m (bview b)) cs f"
    and k: "unat (f_offset f) div cbytes m < length cs" and nle: "\<not> count \<le> length acc"
    and tc: "tc = round_len m f (count - length acc)"
  obtains b' where "fat_ok m b'" and "bview b' = bview b"
    and "fat_read_loop m count acc f b =
       fat_read_loop m count
         (acc @ take (unat tc) (drop (unat (f_offset f mod cluster_bytes m)) (clus m (bview b) (current_cluster f))))
         (advance m (fat_ent m (bview b)) tc f) b'"
proof -
  note cur = file_pos_cluster [OF fp k] and pos = cluster_bytes_pos [OF fat_okD(1) [OF ok]]
  from read_cluster_view [OF ok cur(3)] obtain b1 where b1:
    "read_cluster m (current_cluster f) b = (Some (clus m (bview b) (current_cluster f)), b1)" "fat_ok m b1" "bview b1 = bview b" .
  from read_entry_view [OF b1(2) cur(3)] obtain b2 where e:
    "fat_read_entry m (current_cluster f) b1 = (fat_ent m (bview b1) (current_cluster f), b2)" "fat_ok m b2" "bview b2 = bview b1" .
  define b' where "b' = (if (f_offset f + tc) mod cluster_bytes m = 0 then b2 else b1)"
  have "fat_read_loop m count acc f b =
       fat_read_loop m count
         (acc @ take (unat tc) (drop (unat (f_offset f mod cluster_bytes m)) (clus m (bview b) (current_cluster f))))
         (advance m (fat_ent m (bview b)) tc f) b'"
    using nle cur(2) b1(1,3) pos e(1)
    by (simp add: fat_read_loop.simps [of m count acc f b] Let_def tc round_len_def advance_def b'_def)
  moreover have "fat_ok m b'" "bview b' = bview b"
    using b1(2,3) e(2,3) by (simp_all add: b'_def)
  ultimately show ?thesis
    by (intro that)
qed

lemma read_loop_file:
  assumes "fat_ok m b" and "file_pos m (fat_ent m (bview b)) cs f" and "length acc \<le> count"
    and "unat (f_offset f) + (count - length acc) \<le> cbytes m * length cs"
    and "unat (f_offset f) + (count - length acc) < 2 ^ 32"
  shows "\<exists>f' b'. fat_read_loop m count acc f b =
       Some (acc @ take (count - length acc) (drop (unat (f_offset f)) (contents m (bview b) cs)), f', b') \<and>
     fat_ok m b' \<and> bview b' = bview b \<and> file_pos m (fat_ent m (bview b)) cs f' \<and>
     f' = f\<lparr>f_offset := f_offset f + of_nat (count - length acc), current_cluster := current_cluster f'\<rparr>"
  using assms
proof (induction "count - length acc" arbitrary: acc f b rule: less_induct)
  case less
  let ?E = "fat_ent m (bview b)" and ?off = "unat (f_offset f)" and ?n = "cbytes m" and ?D = "bview b"
  note g = fat_okD(1) [OF less.prems(1)]
  show ?case
  proof (cases "count \<le> length acc")
    case True
    then have "fat_read_loop m count acc f b = Some (acc, f, b)"
      by (subst fat_read_loop.simps) simp
    then show ?thesis
      using less.prems(1,2) True by (intro exI [of _ f] exI [of _ b]) simp
  next
    case nle: False
    define r tc where "r = count - length acc" and "tc = round_len m f r"
    have r: "0 < r" "r < 2 ^ 32" "?off + r \<le> ?n * length cs" "?off + r < 2 ^ 32"
      using nle less.prems(4,5) by (auto simp: r_def)
    have k: "?off div ?n < length cs"
      using r(1,3) cluster_bytes_pos [OF g] by (intro less_mult_imp_div_less) (simp add: mult.commute)
    note tcp = round_len_props [OF g r(1,2), of f, folded tc_def]
    from read_loop_step [OF less.prems(1,2) k nle tc_def [unfolded r_def]] obtain b2 where b2: "fat_ok m b2" "bview b2 = ?D"
      and loop: "fat_read_loop m count acc f b = fat_read_loop m count
         (acc @ take (unat tc) (drop (unat (f_offset f mod cluster_bytes m)) (clus m ?D (current_cluster f)))) (advance m ?E tc f) b2" .
    let ?f2 = "advance m ?E tc f" and ?acc1 = "acc @ take (unat tc) (drop ?off (contents m ?D cs))"
    have D: "disk_ok ?D"
      using less.prems(1) by (simp add: fat_ok_def)
    have acc1: "acc @ take (unat tc) (drop (unat (f_offset f mod cluster_bytes m)) (clus m ?D (current_cluster f))) = ?acc1"
      using contents_chunk [OF D k _ tcp(5)] cluster_bytes_pos [OF g] tcp(1) file_pos_cluster(1) [OF less.prems(2) k] by simp
    note adv = advance_pos [OF g less.prems(2) k tcp(3,5)]
    have adv': "unat (f_offset ?f2) = ?off + unat tc" "file_pos m ?E cs ?f2"
      using adv r tcp(4) by simp_all
    have "?off + unat tc \<le> length (contents m ?D cs)"
      using r(3) tcp(4) by (simp add: length_contents [OF D])
    then have left: "count - length ?acc1 = r - unat tc" "length ?acc1 \<le> count" "count - length ?acc1 < count - length acc"
      using nle tcp(3,4) by (auto simp: r_def)
    have bd: "unat (f_offset ?f2) + (count - length ?acc1) \<le> ?n * length cs" "unat (f_offset ?f2) + (count - length ?acc1) < 2 ^ 32"
      unfolding left adv'(1) using r(3,4) tcp(4) by simp_all
    obtain f' b' where IH: "fat_read_loop m count ?acc1 ?f2 b2 =
         Some (?acc1 @ take (count - length ?acc1) (drop (unat (f_offset ?f2)) (contents m ?D cs)), f', b')"
       "fat_ok m b'" "bview b' = ?D" "file_pos m ?E cs f'"
       "f' = ?f2\<lparr>f_offset := f_offset ?f2 + of_nat (count - length ?acc1), current_cluster := current_cluster f'\<rparr>"
      using less.hyps [OF left(3) b2(1) _ left(2) bd] adv'(2) unfolding b2(2) by blast
    have "f' = f\<lparr>f_offset := f_offset f + of_nat r, current_cluster := current_cluster f'\<rparr>"
      using IH(5) tcp(4) unfolding left(1) by (simp add: advance_def of_nat_diff split: if_splits)
    moreover have "?acc1 @ take (r - unat tc) (drop (?off + unat tc) (contents m ?D cs)) = acc @ take r (drop ?off (contents m ?D cs))"
      using tcp(4) take_add [of "unat tc" "r - unat tc" "drop ?off (contents m ?D cs)"] by (simp add: add.commute)
    ultimately show ?thesis
      using IH(1-4) loop acc1 unfolding left(1) adv'(1) r_def [symmetric] by auto
  qed
qed

text \<open>A handle that is open on a file with the chain \<open>cs\<close>, at a position within its size.\<close>

definition file_open :: "fat_state \<Rightarrow> nat \<Rightarrow> u32 list \<Rightarrow> bool" where
  "file_open s i cs \<longleftrightarrow> i < FAT_MAX_FILES \<and> length (file_table s) = FAT_MAX_FILES \<and> fat_ok (f_mount s) (f_cache s) \<and>
     f_used (file_table s ! i) \<and> \<not> is_dir (file_table s ! i) \<and>
     file_pos (f_mount s) (fat_ent (f_mount s) (bview (f_cache s))) cs (file_table s ! i) \<and>
     unat (f_offset (file_table s ! i)) \<le> unat (file_size (file_table s ! i)) \<and>
     unat (file_size (file_table s ! i)) \<le> cbytes (f_mount s) * length cs"

definition file_data :: "fat_state \<Rightarrow> nat \<Rightarrow> u32 list \<Rightarrow> u8 list" where
  "file_data s i cs = take (unat (file_size (file_table s ! i))) (contents (f_mount s) (bview (f_cache s)) cs)"

lemma fat_read_file:
  assumes op: "file_open s i cs" and km: "kalloc km 0 (cluster_bytes (f_mount s))"
    and n: "n = min (unat count) (length (file_data s i cs) - unat (f_offset (file_table s ! i)))"
  shows "\<exists>s'. fat_read km (int i) count s = Some (to_int n, take n (drop (unat (f_offset (file_table s ! i))) (file_data s i cs)), s') \<and>
     file_open s' i cs \<and> f_mount s' = f_mount s \<and> bview (f_cache s') = bview (f_cache s) \<and>
     (\<exists>c. file_table s' = (file_table s)[i := (file_table s ! i)\<lparr>f_offset := f_offset (file_table s ! i) + of_nat n, current_cluster := c\<rparr>])"
proof -
  let ?f = "file_table s ! i" and ?m = "f_mount s" and ?b = "f_cache s"
  let ?C = "contents ?m (bview ?b) cs" and ?off = "unat (f_offset ?f)" and ?sz = "unat (file_size ?f)"
  have i: "i < FAT_MAX_FILES" "i < length (file_table s)" and ok: "fat_ok ?m ?b" and fp: "file_pos ?m (fat_ent ?m (bview ?b)) cs ?f"
    and b: "f_used ?f" "\<not> is_dir ?f" "?off \<le> ?sz" "?sz \<le> cbytes ?m * length cs"
    using op by (auto simp: file_open_def)
  have len: "length (file_data s i cs) = ?sz"
    using ok b(4) by (simp add: file_data_def length_contents fat_ok_def)
  have rem: "unat (file_size ?f - f_offset ?f) = ?sz - ?off"
    using b(3) by (intro unat_sub_le) (simp add: word_le_nat_alt)
  have nb: "?off + n \<le> ?sz" "?sz < 2 ^ 32"
    using n len b(3) unat_bound [of "file_size ?f"] by (auto simp: min_def)
  have off': "unat (f_offset ?f + of_nat n) = ?off + n"
    using nb unat_add_no_overflow [of "f_offset ?f" "of_nat n"] by (simp add: unat_of_nat)
  have bytes: "take n (drop ?off (file_data s i cs)) = take n (drop ?off ?C)"
    using nb(1) by (simp add: file_data_def drop_take min_def)
  have valid: "fat_valid_fd (int i) s"
    using i(1) b(1) by (simp add: fat_valid_fd_def)
  have nn: "min (unat count) (unat (file_size ?f - f_offset ?f)) = n"
    using rem n len by simp
  show ?thesis
  proof (cases "n = 0")
    case True
    then have "fat_read km (int i) count s = Some (0, [], s)"
      using valid b(2) by (simp add: fat_read_def Let_def nn)
    then show ?thesis
      using True op by (intro exI [of _ s]) (auto simp: to_int_def intro!: exI [of _ "current_cluster ?f"])
  next
    case False
    have "?off + (n - length []) \<le> cbytes ?m * length cs" "?off + (n - length []) < 2 ^ 32"
      using nb b(4) by simp_all
    from read_loop_file [OF ok fp _ this] obtain f' b' where l: "fat_read_loop ?m n [] ?f ?b = Some (take n (drop ?off ?C), f', b')"
        "fat_ok ?m b'" "bview b' = bview ?b" "file_pos ?m (fat_ent ?m (bview ?b)) cs f'"
        "f' = ?f\<lparr>f_offset := f_offset ?f + of_nat n, current_cluster := current_cluster f'\<rparr>"
      by auto
    define s' where "s' = (set_file i f' s)\<lparr>f_cache := b'\<rparr>"
    have "length (take n (drop ?off ?C)) = n"
      using nb(1) b(4) ok by (simp add: length_contents fat_ok_def)
    then have "fat_read km (int i) count s = Some (to_int n, take n (drop ?off (file_data s i cs)), s')"
      using valid b(2) km False l(1) unfolding fat_read_def Let_def nat_int nn bytes s'_def by simp
    moreover have f': "f_used f'" "\<not> is_dir f'" "file_size f' = file_size ?f" "f_offset f' = f_offset ?f + of_nat n"
      using b(1,2) by (subst l(5), simp)+
    then have "file_open s' i cs"
      using op i l(2-4) nb(1) off' b(4) by (simp add: file_open_def s'_def set_file_def)
    moreover have "\<exists>c. file_table s' = (file_table s)[i := ?f\<lparr>f_offset := f_offset ?f + of_nat n, current_cluster := c\<rparr>]"
      using l(5) by (intro exI [of _ "current_cluster f'"]) (simp add: s'_def set_file_def)
    ultimately show ?thesis
      using l(3) by (intro exI [of _ s']) (simp add: s'_def set_file_def)
  qed
qed

end
