(* ===== verification/FatWrite.thy ===== *)
theory FatWrite
  imports FatFile
begin

text \<open>
  Writing files of the FAT driver. The loop of \<open>fat_write\<close> replaces bytes inside the chain of a
  file and extends the chain when it reaches its end; on the contents of the chain it is an
  overwrite at the offset of the handle, and it touches no cluster that belongs to another file.
\<close>

unbundle bit_operations_syntax

section \<open>Clusters\<close>

lemma cluster_in_chain:
  assumes g: "fat_geom m" and c: "cluster_ok m c"
  shows "in_chain c" and "c AND 0x0FFFFFFF = c"
proof -
  let ?t = "unat (total_clusters m)"
  have "unat c < 2 ^ 28 - 8"
  proof (rule ccontr)
    assume "\<not> unat c < 2 ^ 28 - 8"
    then have t: "2 ^ 28 - 8 \<le> ?t + 2"
      using c by (simp add: cluster_ok_def)
    then have "(2 ^ 28 - 8) * 4 div 512 \<le> (?t + 2) * 4 div 512"
      by (intro div_le_mono) simp
    then have "2097151 < unat (data_start_lba m)"
      using fat_geomD(4) [OF g] by simp
    moreover have "?t * 1 \<le> ?t * unat (sectors_per_cluster m)"
      using fat_geomD(1) [OF g] by (intro mult_le_mono2)
    ultimately show False
      using fat_geomD(5) [OF g] t by linarith
  qed
  then have lt: "unat c < 2 ^ 28 - 8" .
  then show "in_chain c"
    using c by (simp add: in_chain_def cluster_ok_def FAT32_EOC_def word_le_nat_alt word_less_nat_alt)
  have "unat (take_bit 28 c) = unat c"
    using lt by (simp add: unsigned_take_bit_eq take_bit_nat_eq_self)
  then have "take_bit 28 c = c"
    by (simp add: word_unat_eq_iff)
  then show "c AND 0x0FFFFFFF = c"
    by (simp add: take_bit_eq_mask mask_eq_exp_minus_1)
qed

text \<open>Replacing bytes within one cluster of a chain replaces them in its contents.\<close>

lemma concat_overwrite:
  assumes "\<And>x. x \<in> set xs \<Longrightarrow> length x = n" and "k < length xs" and "o' + length ys \<le> n"
  shows "concat (xs[k := overwrite o' ys (xs ! k)]) = overwrite (k * n + o') ys (concat xs)"
  using assms(1,2)
proof (induction xs arbitrary: k)
  case (Cons x xs)
  have len: "length x = n"
    using Cons.prems(1) by simp
  show ?case
  proof (cases k)
    case 0
    then show ?thesis
      using len assms(3) by (simp add: overwrite_def)
  next
    case (Suc j)
    then have "concat (xs[j := overwrite o' ys (xs ! j)]) = overwrite (j * n + o') ys (concat xs)"
      using Cons by simp
    then show ?thesis
      using Suc len by (simp add: overwrite_def add.assoc)
  qed
qed simp

lemma contents_write:
  assumes "distinct cs" and "k < length cs" and "disk_ok D" and "o' + length ys \<le> cbytes m"
    and new: "clus m D' (cs ! k) = overwrite o' ys (clus m D (cs ! k))"
    and old: "\<And>x. x \<in> set cs \<Longrightarrow> x \<noteq> cs ! k \<Longrightarrow> clus m D' x = clus m D x"
  shows "contents m D' cs = overwrite (k * cbytes m + o') ys (contents m D cs)"
proof -
  have "map (clus m D') cs = (map (clus m D) cs)[k := overwrite o' ys (map (clus m D) cs ! k)]"
    using assms(1,2) new old by (intro nth_equalityI) (auto simp: nth_list_update nth_eq_iff_index_eq)
  then show ?thesis
    unfolding contents_def using concat_overwrite [of "map (clus m D) cs" "cbytes m" k o' ys] assms(2-4) clus_length
    by auto
qed

section \<open>Extending a chain\<close>

text \<open>The clusters of a chain are not free.\<close>

definition linked :: "(u32 \<Rightarrow> u32) \<Rightarrow> u32 list \<Rightarrow> bool" where
  "linked E cs \<longleftrightarrow> (\<forall>x \<in> set cs. E x \<noteq> FAT32_FREE)"

lemma last_cluster_view:
  assumes "fat_ok m b" and "chain m (fat_ent m (bview b)) c cs" and "cs \<noteq> []"
  shows "\<exists>b'. fat_last_cluster m c b = Some (last cs, b') \<and> fat_ok m b' \<and> bview b' = bview b"
  using assms
proof (induction cs arbitrary: c b)
  case (Cons x xs)
  then have x: "x = c" "cluster_ok m c" "chain m (fat_ent m (bview b)) (fat_ent m (bview b) c) xs"
    by auto
  from read_entry_view [OF Cons.prems(1) x(2)] obtain b1
    where b1: "fat_read_entry m c b = (fat_ent m (bview b) c, b1)" "fat_ok m b1" "bview b1 = bview b" .
  show ?case
  proof (cases xs)
    case Nil
    then show ?thesis
      using x b1 by (subst fat_last_cluster.simps) simp
  next
    case (Cons y ys)
    then have "in_chain (fat_ent m (bview b) c)"
      using x(3) by simp
    then have "fat_last_cluster m c b = fat_last_cluster m (fat_ent m (bview b) c) b1"
      using b1(1) by (subst fat_last_cluster.simps) simp
    then show ?thesis
      using Cons.IH [OF b1(2), of "fat_ent m (bview b) c"] x(1,3) b1(3) Cons by simp
  qed
qed simp

lemma chain_snoc:
  assumes "chain m E c cs" and "cs \<noteq> []" and "r \<notin> set cs" and "cluster_ok m r" and "in_chain r" and "\<not> in_chain (E' r)"
    and "E' (last cs) = r" and "\<And>x. x \<in> set cs \<Longrightarrow> x \<noteq> last cs \<Longrightarrow> E' x = E x"
  shows "chain m E' c (cs @ [r])"
  using assms
proof (induction cs arbitrary: c)
  case (Cons x xs)
  show ?case
  proof (cases "xs = []")
    case False
    have "x \<noteq> last xs"
      using chain_distinct [OF Cons.prems(1)] False by auto
    then show ?thesis
      using Cons.IH [of "E c"] Cons.prems False by auto
  qed (use Cons.prems in auto)
qed simp

text \<open>
  \<open>others_kept m b b' cs cs'\<close>: the clusters in use outside the chain \<open>cs\<close> keep their links and data,
  and \<open>cs'\<close> has grown from \<open>cs\<close> only by clusters that were free.
\<close>

definition others_kept :: "fat_mount \<Rightarrow> bcache \<Rightarrow> bcache \<Rightarrow> u32 list \<Rightarrow> u32 list \<Rightarrow> bool" where
  "others_kept m b b' cs cs' \<longleftrightarrow>
     (\<forall>x. cluster_ok m x \<longrightarrow> x \<notin> set cs \<longrightarrow> fat_ent m (bview b) x \<noteq> FAT32_FREE \<longrightarrow>
        fat_ent m (bview b') x = fat_ent m (bview b) x \<and> clus m (bview b') x = clus m (bview b) x) \<and>
     (\<forall>x \<in> set cs'. cluster_ok m x \<and> (x \<notin> set cs \<longrightarrow> fat_ent m (bview b) x = FAT32_FREE))"

lemma others_kept_trans:
  assumes "others_kept m b b1 cs cs1" and "others_kept m b1 b2 cs1 cs2"
  shows "others_kept m b b2 cs cs2"
  unfolding others_kept_def
proof (intro conjI allI impI ballI)
  fix x assume x: "cluster_ok m x" "x \<notin> set cs" "fat_ent m (bview b) x \<noteq> FAT32_FREE"
  then have "x \<notin> set cs1" and s: "fat_ent m (bview b1) x = fat_ent m (bview b) x" "clus m (bview b1) x = clus m (bview b) x"
    using assms(1) unfolding others_kept_def by blast+
  then show "fat_ent m (bview b2) x = fat_ent m (bview b) x" "clus m (bview b2) x = clus m (bview b) x"
    using assms(2) x unfolding others_kept_def by metis+
next
  fix x assume x: "x \<in> set cs2"
  then show ok: "cluster_ok m x"
    using assms(2) unfolding others_kept_def by blast
  assume n: "x \<notin> set cs"
  show "fat_ent m (bview b) x = FAT32_FREE"
  proof (rule ccontr)
    assume used: "fat_ent m (bview b) x \<noteq> FAT32_FREE"
    then have "x \<notin> set cs1" "fat_ent m (bview b1) x = fat_ent m (bview b) x"
      using assms(1) ok n unfolding others_kept_def by blast+
    then show False
      using assms(2) x used unfolding others_kept_def by auto
  qed
qed

lemma others_kept_refl: "\<forall>x \<in> set cs. cluster_ok m x \<Longrightarrow> bview b' = bview b \<Longrightarrow> others_kept m b b' cs cs"
  by (simp add: others_kept_def)

text \<open>The chain with one more cluster.\<close>

definition extended :: "fat_mount \<Rightarrow> bcache \<Rightarrow> u32 \<Rightarrow> u32 list \<Rightarrow> u32 \<Rightarrow> bcache \<Rightarrow> bool" where
  "extended m b c cs r b' \<longleftrightarrow> fat_ok m b' \<and> cluster_ok m r \<and> chain m (fat_ent m (bview b')) c (cs @ [r]) \<and>
     linked (fat_ent m (bview b')) (cs @ [r]) \<and> others_kept m b b' cs (cs @ [r]) \<and>
     contents m (bview b') (cs @ [r]) = contents m (bview b) cs @ replicate (cbytes m) 0"

lemma extend_view:
  assumes ok: "fat_ok m b" and ch: "chain m (fat_ent m (bview b)) c cs" "cs \<noteq> []" "linked (fat_ent m (bview b)) cs"
    and km: "kalloc km 1 (cluster_bytes m)"
  shows "\<exists>r b'. fat_extend_chain km 1 m (last cs) b = (r, b') \<and>
     (r = 0 \<and> fat_ok m b' \<and> bview b' = bview b \<and> (\<forall>x. cluster_ok m x \<longrightarrow> fat_ent m (bview b) x \<noteq> FAT32_FREE) \<or>
      r \<noteq> 0 \<and> extended m b c cs r b')"
proof -
  let ?E = "fat_ent m (bview b)"
  have "2 \<le> unat (2 :: u32)"
    by simp
  from alloc_loop_view [OF ok this, of km 1] obtain r b1 where a: "fat_alloc_cluster km 1 m b = (r, b1)"
    and alt: "r = 0 \<and> fat_ok m b1 \<and> bview b1 = bview b \<and> (\<forall>x. cluster_ok m x \<longrightarrow> ?E x \<noteq> FAT32_FREE) \<or>
       allocated m b r b1 \<and> clus m (bview b1) r = replicate (cbytes m) 0"
    using km unfolding fat_alloc_cluster_def cluster_ok_def by fastforce
  show ?thesis
  proof (cases "r = 0")
    case True
    then have "fat_extend_chain km 1 m (last cs) b = (0, b1)"
      using a by (simp add: fat_extend_chain_def)
    moreover have "\<not> allocated m b r b1"
      using True by (simp add: allocated_def cluster_ok_def)
    ultimately show ?thesis
      using alt by blast
  next
    case False
    then have al: "cluster_ok m r" "?E r = FAT32_FREE" "fat_ok m b1"
      "\<And>x. cluster_ok m x \<Longrightarrow> fat_ent m (bview b1) x = (if x = r then FAT32_EOC else ?E x)"
      "\<And>x. cluster_ok m x \<Longrightarrow> x \<noteq> r \<Longrightarrow> clus m (bview b1) x = clus m (bview b) x" "clus m (bview b1) r = replicate (cbytes m) 0"
      using alt unfolding allocated_def by blast+
    have lok: "cluster_ok m x" if "x \<in> set cs" for x
      using chain_ok [OF ch(1) that] by simp
    have lo: "cluster_ok m (last cs)"
      using lok ch(2) by simp
    from write_entry_view [OF al(3) lo, of r] obtain b2 where b2: "fat_write_entry m (last cs) r b1 = (0, b2)" "fat_ok m b2"
        "\<And>x. cluster_ok m x \<Longrightarrow> fat_ent m (bview b2) x = (if x = last cs then r AND 0x0FFFFFFF else fat_ent m (bview b1) x)"
        "\<And>x. cluster_ok m x \<Longrightarrow> clus m (bview b2) x = clus m (bview b1) x"
      by blast
    have r: "r \<notin> set cs" "in_chain r" "r AND 0x0FFFFFFF = r"
      using ch(3) al(1,2) cluster_in_chain [OF fat_okD(1) [OF ok] al(1)] by (auto simp: linked_def)
    then have rl: "r \<noteq> last cs"
      using ch(2) by auto
    have E2: "fat_ent m (bview b2) x = (if x = last cs then r else if x = r then FAT32_EOC else ?E x)" if "cluster_ok m x" for x
      using b2(3) [OF that] al(4) [OF that] r(3) by simp
    have C2: "clus m (bview b2) x = (if x = r then replicate (cbytes m) 0 else clus m (bview b) x)" if "cluster_ok m x" for x
      using b2(4) [OF that] al(5) [OF that] al(6) by simp
    have "chain m (fat_ent m (bview b2)) c (cs @ [r])"
    proof (rule chain_snoc [OF ch(1,2) r(1) al(1) r(2)])
      show "\<not> in_chain (fat_ent m (bview b2) r)"
        using E2 [OF al(1)] rl by (simp add: FAT32_EOC_def in_chain_def)
      show "fat_ent m (bview b2) (last cs) = r"
        using E2 [OF lo] by simp
      show "fat_ent m (bview b2) x = ?E x" if "x \<in> set cs" "x \<noteq> last cs" for x
        using E2 [OF lok] that r(1) by auto
    qed
    moreover have "linked (fat_ent m (bview b2)) (cs @ [r])"
      using ch(3) lok E2 al(1) r(2) by (auto simp: linked_def FAT32_EOC_def FAT32_FREE_def in_chain_def)
    moreover have "others_kept m b b2 cs (cs @ [r])"
      using lok al(1,2) ch(2) E2 C2 by (auto simp: others_kept_def)
    moreover have mc: "map (clus m (bview b2)) cs = map (clus m (bview b)) cs"
      using lok r(1) C2 by auto
    have "contents m (bview b2) (cs @ [r]) = contents m (bview b) cs @ replicate (cbytes m) 0"
      unfolding contents_def map_append concat_append mc using C2 [OF al(1)] by simp
    ultimately have "extended m b c cs r b2"
      using b2(2) al(1) by (simp add: extended_def)
    then show ?thesis
      using False a b2(1) by (auto simp: fat_extend_chain_def)
  qed
qed

section \<open>The write loop\<close>

lemma file_pos_cong:
  assumes "file_pos m E cs f" and "\<And>x. x \<in> set cs \<Longrightarrow> E' x = E x"
  shows "file_pos m E' cs f"
  using assms by (auto simp: file_pos_def intro!: chain_cong [where E' = E'] dest: in_set_dropD)

text \<open>A file that can be written: its chain is not empty and none of its clusters is free.\<close>

definition writable :: "fat_mount \<Rightarrow> bcache \<Rightarrow> u32 list \<Rightarrow> fat_file \<Rightarrow> bool" where
  "writable m b cs f \<longleftrightarrow> fat_ok m b \<and> file_pos m (fat_ent m (bview b)) cs f \<and> cs \<noteq> [] \<and> linked (fat_ent m (bview b)) cs"

lemma writableD:
  assumes "writable m b cs f"
  shows "fat_ok m b" and "file_pos m (fat_ent m (bview b)) cs f" and "cs \<noteq> []" and "linked (fat_ent m (bview b)) cs"
    and "fat_geom m" and "disk_ok (bview b)" and "chain m (fat_ent m (bview b)) (start_cluster f) cs"
    and "\<forall>x \<in> set cs. cluster_ok m x" and "distinct cs"
proof -
  show a: "fat_ok m b" "file_pos m (fat_ent m (bview b)) cs f" "cs \<noteq> []" "linked (fat_ent m (bview b)) cs"
    using assms by (auto simp: writable_def)
  then show "fat_geom m" "disk_ok (bview b)" and c: "chain m (fat_ent m (bview b)) (start_cluster f) cs"
    by (auto simp: fat_ok_def file_pos_def)
  show "\<forall>x \<in> set cs. cluster_ok m x" "distinct cs"
    using chain_ok [OF c] chain_distinct [OF c] by auto
qed

text \<open>The state after a step relative to the one before: a longer chain, the same other files.\<close>

definition grown :: "fat_mount \<Rightarrow> bcache \<Rightarrow> u32 list \<Rightarrow> bcache \<Rightarrow> u32 list \<Rightarrow> bool" where
  "grown m b cs b' cs' \<longleftrightarrow> others_kept m b b' cs cs' \<and> (\<exists>zs. cs' = cs @ zs)"

lemma grown_trans: "grown m b cs b1 cs1 \<Longrightarrow> grown m b1 cs1 b2 cs2 \<Longrightarrow> grown m b cs b2 cs2"
  unfolding grown_def using others_kept_trans by fastforce

lemma target_cluster:
  assumes w: "writable m b cs f" and km: "kalloc km 1 (cluster_bytes m)"
  obtains (full) b1 where "fat_write_cluster km m f b = Some (None, b1)" and "writable m b1 cs f" and "bview b1 = bview b"
      and "\<forall>x. cluster_ok m x \<longrightarrow> fat_ent m (bview b) x \<noteq> FAT32_FREE"
  | (found) c cs1 b1 where "fat_write_cluster km m f b = Some (Some (f\<lparr>current_cluster := c\<rparr>), b1)"
      and "writable m b1 cs1 (f\<lparr>current_cluster := c\<rparr>)" and "grown m b cs b1 cs1" and "unat (f_offset f) div cbytes m < length cs1"
      and "contents m (bview b1) cs1 = contents m (bview b) cs @ replicate (cbytes m * (length cs1 - length cs)) 0"
proof (cases "in_chain (current_cluster f)")
  case True
  have "unat (f_offset f) div cbytes m < length cs"
  proof (rule ccontr)
    assume "\<not> ?thesis"
    then show False
      using writableD(2) [OF w] True by (simp add: file_pos_def)
  qed
  moreover have "grown m b cs b cs"
    using others_kept_refl [OF writableD(8) [OF w] refl] by (simp add: grown_def)
  ultimately show ?thesis
    using found [of "current_cluster f" b cs] w True by (simp add: fat_write_cluster_def)
next
  case False
  note g = writableD(5) [OF w] and pos = cluster_bytes_pos [OF writableD(5) [OF w]]
  have "drop (unat (f_offset f) div cbytes m) cs = []"
    using writableD(2) [OF w] False by (cases "drop (unat (f_offset f) div cbytes m) cs") (auto simp: file_pos_def)
  then have "length cs \<le> unat (f_offset f) div cbytes m"
    by simp
  then have "length cs * cbytes m \<le> unat (f_offset f)"
    using div_times_less_eq_dividend [of "unat (f_offset f)" "cbytes m"] by (meson le_trans mult_le_mono1)
  then have off: "unat (f_offset f) = cbytes m * length cs"
    using writableD(2) [OF w] by (simp add: file_pos_def mult.commute)
  obtain b0 where b0: "fat_last_cluster m (start_cluster f) b = Some (last cs, b0)" "fat_ok m b0" "bview b0 = bview b"
    using last_cluster_view [OF writableD(1,7,3) [OF w]] by blast
  obtain r b1 where e: "fat_extend_chain km 1 m (last cs) b0 = (r, b1)"
    and alt: "r = 0 \<and> fat_ok m b1 \<and> bview b1 = bview b0 \<and> (\<forall>x. cluster_ok m x \<longrightarrow> fat_ent m (bview b0) x \<noteq> FAT32_FREE) \<or>
      r \<noteq> 0 \<and> extended m b0 (start_cluster f) cs r b1"
    using extend_view [OF b0(2) _ writableD(3) [OF w] _ km, of "start_cluster f"] writableD(4,7) [OF w] b0(3) by auto
  show ?thesis
  proof (cases "r = 0")
    case True
    have "fat_write_cluster km m f b = Some (None, b1)"
      using False b0(1) e True by (simp add: fat_write_cluster_def)
    moreover have v: "fat_ok m b1" "bview b1 = bview b" "\<forall>x. cluster_ok m x \<longrightarrow> fat_ent m (bview b) x \<noteq> FAT32_FREE"
      using alt True b0(3) by auto
    then have "writable m b1 cs f"
      using w by (simp add: writable_def)
    ultimately show ?thesis
      using full v(2,3) by blast
  next
    case r: False
    then have x: "fat_ok m b1" "chain m (fat_ent m (bview b1)) (start_cluster f) (cs @ [r])" "linked (fat_ent m (bview b1)) (cs @ [r])"
        "others_kept m b0 b1 cs (cs @ [r])" "contents m (bview b1) (cs @ [r]) = contents m (bview b0) cs @ replicate (cbytes m) 0"
      using alt by (auto simp: extended_def)
    have "fat_write_cluster km m f b = Some (Some (f\<lparr>current_cluster := r\<rparr>), b1)"
      using False b0(1) e r by (simp add: fat_write_cluster_def)
    moreover have "writable m b1 (cs @ [r]) (f\<lparr>current_cluster := r\<rparr>)"
      using x(1-3) chain_suffix [of m _ "start_cluster f" cs r "[]"] off pos by (simp add: writable_def file_pos_def)
    moreover have "grown m b cs b1 (cs @ [r])"
      using x(4) b0(3) by (simp add: grown_def others_kept_def)
    ultimately show ?thesis
      using found [of r b1 "cs @ [r]"] x(5) b0(3) off pos by simp
  qed
qed

lemma write_chunk:
  assumes w: "writable m b cs f" and k: "unat (f_offset f) div cbytes m < length cs"
    and len: "length ys \<le> cbytes m - unat (f_offset f) mod cbytes m"
    and b': "b' = write_cluster m (current_cluster f) (overwrite (unat (f_offset f) mod cbytes m) ys (clus m (bview b) (current_cluster f))) b"
  shows "writable m b' cs f" and "grown m b cs b' cs" and "contents m (bview b') cs = overwrite (unat (f_offset f)) ys (contents m (bview b) cs)"
    and "\<And>x. cluster_ok m x \<Longrightarrow> fat_ent m (bview b') x = fat_ent m (bview b) x"
proof -
  let ?off = "unat (f_offset f)" and ?n = "cbytes m" and ?c = "current_cluster f"
  note cur = file_pos_cluster [OF writableD(2) [OF w] k] and pos = cluster_bytes_pos [OF writableD(5) [OF w]]
  have "?off mod ?n < ?n"
    using pos by simp
  then have fit: "?off mod ?n + length ys \<le> ?n"
    using len by linarith
  then have sl: "length (overwrite (?off mod ?n) ys (clus m (bview b) ?c)) = ?n"
    using clus_length [OF writableD(6) [OF w]] by simp
  note v = write_cluster_view [OF writableD(1) [OF w] cur(3) sl, folded b']
  show ent: "\<And>x. cluster_ok m x \<Longrightarrow> fat_ent m (bview b') x = fat_ent m (bview b) x"
    using v(2) .
  show "writable m b' cs f"
    using w v(1) writableD(8) [OF w] ent file_pos_cong [OF writableD(2) [OF w]] by (auto simp: writable_def linked_def)
  have mem: "?c \<in> set cs"
    using cur(1) k by simp
  show "grown m b cs b' cs"
    using v(2,3) mem writableD(8) [OF w] by (auto simp: grown_def others_kept_def)
  have "contents m (bview b') cs = overwrite (?off div ?n * ?n + ?off mod ?n) ys (contents m (bview b) cs)"
    using writableD(9,6) [OF w] k fit v(3) writableD(8) [OF w] cur(1,3) by (intro contents_write) auto
  then show "contents m (bview b') cs = overwrite ?off ys (contents m (bview b) cs)"
    by (simp only: div_mult_mod_eq)
qed

definition step_file :: "fat_mount \<Rightarrow> (u32 \<Rightarrow> u32) \<Rightarrow> u32 \<Rightarrow> fat_file \<Rightarrow> fat_file" where
  "step_file m E tc f =
     (let f1 = f\<lparr>f_offset := f_offset f + tc, file_size := max (f_offset f + tc) (file_size f)\<rparr>
      in if (f_offset f + tc) mod cluster_bytes m = 0 then f1\<lparr>current_cluster := E (current_cluster f)\<rparr> else f1)"

lemma step_file_pos: "file_pos m E' cs (step_file m E tc f) = file_pos m E' cs (advance m E tc f)"
  by (simp add: file_pos_def step_file_def advance_def Let_def)

lemma write_loop_step:
  assumes fw: "fat_write_cluster km m f b = Some (Some f1, b1)" and w: "writable m b1 cs f1"
    and k: "unat (f_offset f1) div cbytes m < length cs" and n: "n < length src" "length src - n < 2 ^ 32"
    and tc: "tc = round_len m f1 (length src - n)"
  obtains b' where "fat_write_loop km m src n f b = fat_write_loop km m src (n + unat tc) (step_file m (fat_ent m (bview b1)) tc f1) b'"
    and "writable m b' cs f1" and "grown m b1 cs b' cs" and "\<And>x. cluster_ok m x \<Longrightarrow> fat_ent m (bview b') x = fat_ent m (bview b1) x"
    and "contents m (bview b') cs = overwrite (unat (f_offset f1)) (take (unat tc) (drop n src)) (contents m (bview b1) cs)"
proof -
  let ?c = "current_cluster f1" and ?E = "fat_ent m (bview b1)"
  note g = writableD(5) [OF w]
  note cur = file_pos_cluster [OF writableD(2) [OF w] k] and pos = cluster_bytes_pos [OF g]
  have "0 < length src - n"
    using n(1) by simp
  note tcp = round_len_props [OF g this n(2), of f1, folded tc]
  from read_cluster_view [OF writableD(1) [OF w] cur(3)] obtain b2 where b2:
    "read_cluster m ?c b1 = (Some (clus m (bview b1) ?c), b2)" "fat_ok m b2" "bview b2 = bview b1" .
  define ys where "ys = take (unat tc) (drop n src)"
  define b3 where "b3 = write_cluster m ?c (overwrite (unat (f_offset f1) mod cbytes m) ys (clus m (bview b2) ?c)) b2"
  have w2: "writable m b2 cs f1"
    using w b2(2,3) by (simp add: writable_def)
  have ylen: "length ys \<le> cbytes m - unat (f_offset f1) mod cbytes m"
    using tcp(4,5) by (simp add: ys_def)
  note ch = write_chunk [OF w2 k ylen b3_def]
  from read_entry_view [OF writableD(1) [OF ch(1)] cur(3)] obtain b4 where b4:
    "fat_read_entry m ?c b3 = (fat_ent m (bview b3) ?c, b4)" "fat_ok m b4" "bview b4 = bview b3" .
  define b' where "b' = (if (f_offset f1 + tc) mod cluster_bytes m = 0 then b4 else b3)"
  have v: "bview b' = bview b3" "fat_ok m b'"
    using b4(2,3) writableD(1) [OF ch(1)] by (simp_all add: b'_def)
  have Ec: "fat_ent m (bview b3) ?c = ?E ?c"
    using ch(4) [OF cur(3)] b2(3) by simp
  have "fat_write_loop km m src n f b = fat_write_loop km m src (n + unat tc) (step_file m ?E tc f1) b'"
    unfolding fat_write_loop.simps [of km m src n f b] Let_def
    using n(1) pos
    unfolding fw option.case prod.case b2(1) tc [unfolded round_len_def, symmetric] tcp(1) ys_def [symmetric]
      b3_def [unfolded b2(3), symmetric]
    by (simp add: b4(1) Ec step_file_def b'_def)
  moreover have "writable m b' cs f1" "grown m b1 cs b' cs"
    using ch(1,2) v b2(3) by (auto simp: writable_def grown_def others_kept_def)
  ultimately show ?thesis
    using that ch(3,4) v(1) b2(3) by (simp add: ys_def)
qed

lemma overwrite_overwrite:
  assumes "i + length ys \<le> length xs"
  shows "overwrite (i + length ys) zs (overwrite i ys xs @ ws) = overwrite i (ys @ zs) (xs @ ws)"
  using assms by (simp add: overwrite_def ac_simps)

text \<open>What the loop has done when it stops, having written \<open>k\<close> bytes.\<close>

definition wrote :: "fat_mount \<Rightarrow> bcache \<Rightarrow> u32 list \<Rightarrow> fat_file \<Rightarrow> u8 list \<Rightarrow> bcache \<Rightarrow> u32 list \<Rightarrow> fat_file \<Rightarrow> bool" where
  "wrote m b cs f ys b' cs' f' \<longleftrightarrow> writable m b' cs' f' \<and> grown m b cs b' cs' \<and>
     unat (f_offset f) + length ys \<le> cbytes m * length cs' \<and>
     contents m (bview b') cs' =
       overwrite (unat (f_offset f)) ys (contents m (bview b) cs @ replicate (cbytes m * (length cs' - length cs)) 0) \<and>
     (\<exists>c. f' = f\<lparr>f_offset := f_offset f + of_nat (length ys), file_size := max (f_offset f + of_nat (length ys)) (file_size f),
                 current_cluster := c\<rparr>)"

lemma within_cluster:
  fixes off n l tc :: nat
  assumes "0 < n" and "off div n < l" and "tc \<le> n - off mod n"
  shows "off + tc \<le> n * l"
proof -
  have "off mod n < n"
    using assms(1) by simp
  then have "off + tc \<le> off div n * n + n"
    using assms(3) div_mult_mod_eq [of off n] by linarith
  also have "\<dots> = n * Suc (off div n)"
    by (simp add: algebra_simps)
  also have "\<dots> \<le> n * l"
    using assms(2) by (intro mult_le_mono2) simp
  finally show ?thesis .
qed

lemma wrote_trans:
  assumes g: "grown m b cs b2 cs1" and D: "disk_ok (bview b)" and yl: "length ys = unat tc"
    and fit: "unat (f_offset f) + length ys \<le> cbytes m * length cs1"
    and con: "contents m (bview b2) cs1 =
       overwrite (unat (f_offset f)) ys (contents m (bview b) cs @ replicate (cbytes m * (length cs1 - length cs)) 0)"
    and f2: "f2 = step_file m E tc (f\<lparr>current_cluster := c\<rparr>)" and no: "unat (f_offset f) + (length ys + length ys') < 2 ^ 32"
    and w: "wrote m b2 cs1 f2 ys' b' cs' f'"
  shows "wrote m b cs f (ys @ ys') b' cs' f'"
proof -
  have o2: "f_offset f2 = f_offset f + tc" "unat (f_offset f + tc) = unat (f_offset f) + length ys"
    using no yl unat_add_no_overflow [of "f_offset f" tc] by (simp_all add: f2 step_file_def Let_def)
  have g2: "grown m b2 cs1 b' cs'" "writable m b' cs' f'"
    using w by (simp_all add: wrote_def)
  obtain z1 z2 where z: "cs1 = cs @ z1" "cs' = cs1 @ z2"
    using g g2(1) by (auto simp: grown_def)
  have len: "length (contents m (bview b) cs @ replicate (cbytes m * (length cs1 - length cs)) 0) = cbytes m * length cs1"
    using length_contents [OF D] by (simp add: z(1) algebra_simps)
  have "contents m (bview b') cs' =
      overwrite (unat (f_offset f)) (ys @ ys') ((contents m (bview b) cs @ replicate (cbytes m * (length cs1 - length cs)) 0) @
        replicate (cbytes m * (length cs' - length cs1)) 0)"
    using w len fit unfolding wrote_def o2 con by (subst overwrite_overwrite [symmetric]) auto
  also have "(contents m (bview b) cs @ replicate (cbytes m * (length cs1 - length cs)) 0) @ replicate (cbytes m * (length cs' - length cs1)) 0 =
      contents m (bview b) cs @ replicate (cbytes m * (length cs' - length cs)) 0"
    by (simp add: z replicate_add [symmetric] algebra_simps)
  finally have c: "contents m (bview b') cs' =
      overwrite (unat (f_offset f)) (ys @ ys') (contents m (bview b) cs @ replicate (cbytes m * (length cs' - length cs)) 0)" .
  have tcn: "tc = of_nat (length ys)"
    using yl by simp
  have le: "f_offset f + tc \<le> f_offset f + tc + of_nat (length ys')"
  proof -
    have "unat (f_offset f + tc + of_nat (length ys')) = unat (f_offset f) + length ys + length ys'"
      using no o2(2) unat_add_no_overflow [of "f_offset f + tc" "of_nat (length ys')"] by (simp add: unat_of_nat)
    then show ?thesis
      using o2(2) by (simp add: word_le_nat_alt)
  qed
  obtain c' where "f' = f2\<lparr>f_offset := f_offset f2 + of_nat (length ys'),
      file_size := max (f_offset f2 + of_nat (length ys')) (file_size f2), current_cluster := c'\<rparr>"
    using w by (auto simp: wrote_def)
  then have "f' = f\<lparr>f_offset := f_offset f + of_nat (length (ys @ ys')),
      file_size := max (f_offset f + of_nat (length (ys @ ys'))) (file_size f), current_cluster := c'\<rparr>"
    using le by (simp add: f2 step_file_def Let_def tcn [symmetric] add.assoc [symmetric] max.assoc [symmetric] max.absorb1)
  then show ?thesis
    using g2 grown_trans [OF g g2(1)] c w o2 by (auto simp: wrote_def)
qed

lemma write_loop_file:
  assumes "writable m b cs f" and "kalloc km 1 (cluster_bytes m)" and "n \<le> length src"
    and "unat (f_offset f) + (length src - n) < 2 ^ 32" and "f_offset f \<le> file_size f"
  shows "\<exists>k cs' f' b'. fat_write_loop km m src n f b = Some (n + k, f', b') \<and> k \<le> length src - n \<and>
     wrote m b cs f (take k (drop n src)) b' cs' f' \<and>
     (k < length src - n \<longrightarrow> (\<forall>x. cluster_ok m x \<longrightarrow> fat_ent m (bview b') x \<noteq> FAT32_FREE))"
  using assms
proof (induction "length src - n" arbitrary: n cs f b rule: less_induct)
  case less
  note w = less.prems(1) and g = writableD(5) [OF less.prems(1)]
  have idle: "wrote m b cs f [] b0 cs f" if "writable m b0 cs f" "bview b0 = bview b" for b0
    using that others_kept_refl [OF writableD(8) [OF w]] less.prems(5) writableD(2) [OF w]
    by (auto simp: wrote_def grown_def overwrite_def file_pos_def max_def intro!: exI [of _ "current_cluster f"])
  show ?case
  proof (cases "n = length src")
    case True
    then have "fat_write_loop km m src n f b = Some (n + 0, f, b)"
      by (subst fat_write_loop.simps) simp
    then show ?thesis
      using True by (intro exI [of _ 0] exI [of _ cs] exI [of _ f] exI [of _ b]) (simp add: idle [OF w])
  next
    case False
    then have n: "n < length src" "length src - n < 2 ^ 32"
      using less.prems(3,4) by auto
    from w less.prems(2) show ?thesis
    proof (cases rule: target_cluster)
      case (full b1)
      then have "fat_write_loop km m src n f b = Some (n + 0, f, b1)"
        using n(1) by (subst fat_write_loop.simps) simp
      then show ?thesis
        using full(3,4) by (intro exI [of _ 0] exI [of _ cs] exI [of _ f] exI [of _ b1]) (simp add: idle [OF full(2,3)])
    next
      case (found c cs1 b1)
      let ?f1 = "f\<lparr>current_cluster := c\<rparr>" and ?E = "fat_ent m (bview b1)"
      define tc where "tc = round_len m f (length src - n)"
      have tc1: "tc = round_len m ?f1 (length src - n)"
        by (simp add: tc_def round_len_def)
      note tcp = round_len_props [OF g _ n(2), of f, folded tc_def]
      have tcb: "0 < unat tc" "unat tc \<le> length src - n" "unat tc \<le> cbytes m - unat (f_offset f) mod cbytes m"
        using tcp(3-5) n(1) by auto
      from write_loop_step [OF found(1,2) _ n tc1] found(4) obtain b2
        where st: "fat_write_loop km m src n f b = fat_write_loop km m src (n + unat tc) (step_file m ?E tc ?f1) b2"
          "writable m b2 cs1 ?f1" "grown m b1 cs1 b2 cs1" "\<And>x. cluster_ok m x \<Longrightarrow> fat_ent m (bview b2) x = ?E x"
          "contents m (bview b2) cs1 = overwrite (unat (f_offset f)) (take (unat tc) (drop n src)) (contents m (bview b1) cs1)"
        by auto
      let ?f2 = "step_file m ?E tc ?f1" and ?ys = "take (unat tc) (drop n src)"
      have yl: "length ?ys = unat tc"
        using tcb(2) by simp
      have fit: "unat (f_offset f) + unat tc \<le> cbytes m * length cs1"
        by (rule within_cluster [OF _ found(4) tcb(3)]) (use cluster_bytes_pos [OF g] in simp)
      have o2: "unat (f_offset ?f2) = unat (f_offset f) + unat tc" "f_offset ?f2 \<le> file_size ?f2"
        using less.prems(4) tcb(2) unat_add_no_overflow [of "f_offset f" tc] by (simp_all add: step_file_def Let_def)
      have "file_pos m ?E cs1 ?f2"
        unfolding step_file_pos using advance_pos(2) [OF g writableD(2) [OF found(2)]] found(4) tcb fit less.prems(4) by simp
      then have w2: "writable m b2 cs1 ?f2"
        using st(2,4) writableD(8) [OF found(2)] file_pos_cong by (auto simp: writable_def)
      have shorter: "length src - (n + unat tc) < length src - n" "n + unat tc \<le> length src"
        "unat (f_offset ?f2) + (length src - (n + unat tc)) < 2 ^ 32"
        using tcb(1,2) n(1) o2(1) less.prems(4) by auto
      from less.hyps [OF shorter(1) w2 less.prems(2) shorter(2,3) o2(2)] obtain k cs' f' b' where IH:
          "fat_write_loop km m src (n + unat tc) ?f2 b2 = Some (n + unat tc + k, f', b')" "k \<le> length src - (n + unat tc)"
          "wrote m b2 cs1 ?f2 (take k (drop (n + unat tc) src)) b' cs' f'"
          "k < length src - (n + unat tc) \<longrightarrow> (\<forall>x. cluster_ok m x \<longrightarrow> fat_ent m (bview b') x \<noteq> FAT32_FREE)"
        by blast
      have "wrote m b cs f (?ys @ take k (drop (n + unat tc) src)) b' cs' f'"
        using grown_trans [OF found(3) st(3)] writableD(6) [OF w] yl fit st(5) found(5) less.prems(4) IH(2,3) tcb(2)
        by (intro wrote_trans [where c = c and E = ?E]) auto
      moreover have "take (unat tc + k) (drop n src) = ?ys @ take k (drop (n + unat tc) src)"
        using take_add [of "unat tc" k "drop n src"] by (simp add: add.commute [of n])
      ultimately show ?thesis
        using st(1) IH(1,2,4) tcb(2) by (intro exI [of _ "unat tc + k"] exI [of _ cs'] exI [of _ f'] exI [of _ b']) (auto simp: add.assoc)
    qed
  qed
qed

section \<open>Open files\<close>

lemma take_overwrite:
  assumes "off \<le> sz" and "sz \<le> length C" and "off + length ys \<le> length C + z"
  shows "take (max (off + length ys) sz) (overwrite off ys (C @ replicate z 0)) = overwrite off ys (take sz C)"
proof (cases "off + length ys \<le> sz")
  case True
  then have "overwrite off ys (C @ replicate z 0) = (take off C @ ys @ drop (off + length ys) C) @ replicate z 0"
    using assms by (simp add: overwrite_def)
  also have "take sz \<dots> = take off C @ ys @ take (sz - (off + length ys)) (drop (off + length ys) C)"
    using True assms by simp
  finally show ?thesis
    using True assms by (simp add: overwrite_def drop_take max_absorb2)
next
  case False
  then show ?thesis
    using assms by (simp add: overwrite_def max_absorb1)
qed

lemma fat_write_file:
  assumes op: "file_open s i cs" and cs: "cs \<noteq> []" "linked (fat_ent (f_mount s) (bview (f_cache s))) cs"
    and km: "kalloc km 0 (cluster_bytes (f_mount s))" "kalloc km 1 (cluster_bytes (f_mount s))"
    and no: "unat (f_offset (file_table s ! i)) + length src < 2 ^ 32"
  shows "\<exists>k s' cs'. fat_write km (int i) src s = Some (to_int k, s') \<and> k \<le> length src \<and> file_open s' i cs' \<and>
     file_data s' i cs' = overwrite (unat (f_offset (file_table s ! i))) (take k src) (file_data s i cs) \<and>
     unat (f_offset (file_table s' ! i)) = unat (f_offset (file_table s ! i)) + k \<and>
     f_mount s' = f_mount s \<and> grown (f_mount s) (f_cache s) cs (f_cache s') cs' \<and>
     (k < length src \<longrightarrow> (\<forall>x. cluster_ok (f_mount s) x \<longrightarrow> fat_ent (f_mount s) (bview (f_cache s')) x \<noteq> FAT32_FREE))"
proof -
  let ?f = "file_table s ! i" and ?m = "f_mount s" and ?b = "f_cache s"
  let ?C = "contents ?m (bview ?b) cs" and ?off = "unat (f_offset ?f)" and ?sz = "unat (file_size ?f)"
  have i: "i < FAT_MAX_FILES" "i < length (file_table s)" and ok: "fat_ok ?m ?b" and fp: "file_pos ?m (fat_ent ?m (bview ?b)) cs ?f"
    and b: "f_used ?f" "\<not> is_dir ?f" "?off \<le> ?sz" "?sz \<le> cbytes ?m * length cs"
    using op by (auto simp: file_open_def)
  have w: "writable ?m ?b cs ?f"
    using ok fp cs by (simp add: writable_def)
  have "in_chain (start_cluster ?f)"
    using fp cs(1) by (cases cs) (auto simp: file_pos_def)
  then have st: "2 \<le> start_cluster ?f"
    by (simp add: in_chain_def)
  have valid: "fat_valid_fd (int i) s"
    using i(1) b(1) by (simp add: fat_valid_fd_def)
  have "f_offset ?f \<le> file_size ?f"
    using b(3) by (simp add: word_le_nat_alt)
  from write_loop_file [OF w km(2) _ _ this, of 0 src] no obtain k cs' f' b' where l:
      "fat_write_loop km ?m src 0 ?f ?b = Some (k, f', b')" "k \<le> length src" "wrote ?m ?b cs ?f (take k src) b' cs' f'"
      "k < length src \<longrightarrow> (\<forall>x. cluster_ok ?m x \<longrightarrow> fat_ent ?m (bview b') x \<noteq> FAT32_FREE)"
    by auto
  have kl: "length (take k src) = k"
    using l(2) by simp
  obtain c where f': "f' = ?f\<lparr>f_offset := f_offset ?f + of_nat k, file_size := max (f_offset ?f + of_nat k) (file_size ?f), current_cluster := c\<rparr>"
    using l(3) kl unfolding wrote_def by metis
  have o': "unat (f_offset ?f + of_nat k) = ?off + k"
    using no l(2) unat_add_no_overflow [of "f_offset ?f" "of_nat k"] by (simp add: unat_of_nat)
  then have fs: "unat (f_offset f') = ?off + k" "unat (file_size f') = max (?off + k) ?sz" "f_used f'" "\<not> is_dir f'"
    using b(1,2) by (auto simp: f' max_def word_le_nat_alt)
  have wr: "writable ?m b' cs' f'" "grown ?m ?b cs b' cs'" "?off + k \<le> cbytes ?m * length cs'"
    "contents ?m (bview b') cs' = overwrite ?off (take k src) (?C @ replicate (cbytes ?m * (length cs' - length cs)) 0)"
    using l(3) kl unfolding wrote_def by auto
  obtain zs where zs: "cs' = cs @ zs"
    using wr(2) by (auto simp: grown_def)
  define s' where "s' = (if src = [] then s else (set_file i (f'\<lparr>f_dirty := True\<rparr>) s)\<lparr>f_cache := b'\<rparr>)"
  have res: "fat_write km (int i) src s = Some (to_int k, s')"
    using valid b(2) st km(1) l(1,2) by (auto simp: fat_write_def fat_first_cluster_def s'_def to_int_def)
  show ?thesis
  proof (cases "src = []")
    case True
    then show ?thesis
      using res op l(2) others_kept_refl [OF writableD(8) [OF w] refl]
      by (intro exI [of _ k] exI [of _ s'] exI [of _ cs]) (simp add: s'_def overwrite_def grown_def)
  next
    case False
    have "?sz \<le> cbytes ?m * length cs'"
      using b(4) by (simp add: zs distrib_left)
    then have "file_open s' i cs'"
      using op i wr(1,3) fs False
      by (auto simp: file_open_def s'_def set_file_def writable_def file_pos_def)
    moreover have "file_data s' i cs' = overwrite ?off (take k src) (file_data s i cs)"
      using take_overwrite [of ?off ?sz ?C "take k src" "cbytes ?m * length zs"] b(3,4) wr(3,4) fs(2) kl i(2) False zs
        length_contents [OF writableD(6) [OF w]]
      by (simp add: file_data_def s'_def set_file_def algebra_simps)
    moreover have "unat (f_offset (file_table s' ! i)) = ?off + k" "f_cache s' = b'" "f_mount s' = ?m"
      using fs(1) i(2) False by (simp_all add: s'_def set_file_def)
    ultimately show ?thesis
      using res l(2,4) wr(2) by blast
  qed
qed

section \<open>Properties\<close>

text \<open>The sample volume with a file of 600 bytes, open at offset 500.\<close>

definition sample_file :: fat_file where
  "sample_file = \<lparr>f_used = True, start_cluster = 2, current_cluster = 2, file_size = 600, f_offset = 500,
     dir_cluster = 0, dir_entry_index = 0, is_dir = False, f_dirty = False\<rparr>"

definition sample_state :: fat_state where
  "sample_state = \<lparr>f_mount = sample_mount, file_table = sample_file # replicate 15 file_zero, f_cache = sample_vol\<rparr>"

lemma sample_spc: "sectors_per_cluster sample_mount = 1"
  by (simp add: sample_mount_def)

lemma sample_state_open: "file_open sample_state 0 [2, 3]"
  using sample_vol_ok sample_chain
  by (simp add: file_open_def sample_state_def sample_file_def file_pos_def FAT_MAX_FILES_def sample_spc
      del: chain.simps)

lemma sample_linked: "linked (fat_ent (f_mount sample_state) (bview (f_cache sample_state))) [2, 3]"
  by (simp add: linked_def sample_state_def sample_vol_view sample_entries FAT32_EOC_def FAT32_FREE_def)

lemma sample_kalloc: "kalloc (\<lambda>_ _. True) h (cluster_bytes (f_mount sample_state))"
  by (simp add: kalloc_def cluster_bytes_def sample_state_def sample_spc)

lemma sample_data: "length (file_data sample_state 0 [2, 3]) = 600" "f_offset (file_table sample_state ! 0) = 500"
  using length_contents [of sample_disk sample_mount "[2, 3]"]
  by (simp_all add: file_data_def sample_state_def sample_file_def sample_vol_view disk_ok_def sample_disk_def sample_spc)

text \<open>
  C25. Reading an open file returns the file's bytes: \<open>fat_read\<close> terminates and delivers the next
  bytes of the data along the cluster chain, as many as asked for and present, advances the
  handle by that many bytes, keeps the handle consistent and leaves the disk contents unchanged.
\<close>
theorem fat_read_correct:
  assumes "file_open s i cs" and "kalloc km 0 (cluster_bytes (f_mount s))"
    and "n = min (unat count) (length (file_data s i cs) - unat (f_offset (file_table s ! i)))"
  shows "\<exists>s'. fat_read km (int i) count s = Some (to_int n, take n (drop (unat (f_offset (file_table s ! i))) (file_data s i cs)), s') \<and>
     file_open s' i cs \<and> f_mount s' = f_mount s \<and> bview (f_cache s') = bview (f_cache s) \<and>
     (\<exists>c. file_table s' = (file_table s)[i := (file_table s ! i)\<lparr>f_offset := f_offset (file_table s ! i) + of_nat n, current_cluster := c\<rparr>])"
  by (rule fat_read_file [OF assms])

theorem fat_read_correct_witness:
  "\<exists>bs s'. fat_read (\<lambda>_ _. True) 0 1000 sample_state = Some (100, bs, s')"
  using fat_read_correct [OF sample_state_open sample_kalloc refl, of 1000] sample_data
  by (auto simp: to_int_def)

text \<open>
  C26. Writing an open file overwrites the file's bytes at the offset of the handle: \<open>fat_write\<close>
  terminates, the first \<open>k\<close> bytes of the buffer replace the bytes at the offset and extend the
  file where they reach beyond its end, the offset moves by \<open>k\<close>, and no cluster that belongs to
  another file or directory changes. Fewer bytes than asked for are written only when the volume
  has no free cluster left.
\<close>
theorem fat_write_correct:
  assumes "file_open s i cs" and "cs \<noteq> []" and "linked (fat_ent (f_mount s) (bview (f_cache s))) cs"
    and "kalloc km 0 (cluster_bytes (f_mount s))" and "kalloc km 1 (cluster_bytes (f_mount s))"
    and "unat (f_offset (file_table s ! i)) + length src < 2 ^ 32"
  shows "\<exists>k s' cs'. fat_write km (int i) src s = Some (to_int k, s') \<and> k \<le> length src \<and> file_open s' i cs' \<and>
     file_data s' i cs' = overwrite (unat (f_offset (file_table s ! i))) (take k src) (file_data s i cs) \<and>
     unat (f_offset (file_table s' ! i)) = unat (f_offset (file_table s ! i)) + k \<and>
     f_mount s' = f_mount s \<and> grown (f_mount s) (f_cache s) cs (f_cache s') cs' \<and>
     (k < length src \<longrightarrow> (\<forall>x. cluster_ok (f_mount s) x \<longrightarrow> fat_ent (f_mount s) (bview (f_cache s')) x \<noteq> FAT32_FREE))"
  by (rule fat_write_file [OF assms])

theorem fat_write_correct_witness:
  "\<exists>k s' cs'. fat_write (\<lambda>_ _. True) 0 (replicate 700 7) sample_state = Some (to_int k, s') \<and>
     file_data s' 0 cs' = overwrite 500 (take k (replicate 700 7)) (file_data sample_state 0 [2, 3])"
proof -
  have "unat (f_offset (file_table sample_state ! 0)) + length (replicate 700 (7 :: u8)) < 2 ^ 32"
    using sample_data(2) by simp
  from fat_write_correct [OF sample_state_open _ sample_linked sample_kalloc sample_kalloc this]
  obtain k s' cs' where "fat_write (\<lambda>_ _. True) (int 0) (replicate 700 7) sample_state = Some (to_int k, s')"
      "file_data s' 0 cs' = overwrite (unat (f_offset (file_table sample_state ! 0))) (take k (replicate 700 7))
         (file_data sample_state 0 [2, 3])"
    by blast
  then show ?thesis
    unfolding sample_data(2) by (intro exI [of _ k] exI [of _ s'] exI [of _ cs']) simp
qed

text \<open>Short names: what the two conversions do to a name of base and extension.\<close>

definition name_chars :: "u8 list \<Rightarrow> bool" where
  "name_chars xs \<longleftrightarrow> (\<forall>c \<in> set xs. c \<noteq> dot \<and> c \<noteq> space \<and> \<not> (65 \<le> c \<and> c \<le> 90))"

lemma down_up:
  assumes "\<not> (65 \<le> c \<and> c \<le> 90)"
  shows "downcase (upcase c) = c"
proof (cases "97 \<le> c \<and> c \<le> 122")
  case True
  then have "unat (c - 32) = unat c - 32"
    by (intro unat_sub_le [of 32 c, simplified]) (simp add: word_le_nat_alt)
  then show ?thesis
    using True by (auto simp: upcase_def downcase_def word_le_nat_alt)
next
  case False
  then show ?thesis
    using assms by (auto simp: upcase_def downcase_def)
qed

lemma upcase_space: "upcase c = space \<longleftrightarrow> c = space"
proof -
  have "c - 32 \<noteq> 32" if "97 \<le> c"
  proof
    assume "c - 32 = 32"
    then have "c = 64"
      by (simp add: diff_eq_eq)
    then show False
      using that by simp
  qed
  then show ?thesis
    by (auto simp: upcase_def)
qed

lemma takeWhile_pad: "name_chars xs \<Longrightarrow> takeWhile (\<lambda>c. c \<noteq> space) (pad n (map upcase xs)) = map upcase xs"
  unfolding pad_def by (subst takeWhile_append2) (auto simp: name_chars_def upcase_space takeWhile_replicate)

lemma map_down_up: "name_chars xs \<Longrightarrow> map downcase (map upcase xs) = xs"
  by (induction xs) (auto simp: name_chars_def down_up)

lemma last_dot_append: "dot \<notin> set ext \<Longrightarrow> last_dot (base @ dot # ext) = Some (length base)"
proof (induction ext rule: rev_induct)
  case Nil
  then show ?case
    by (simp add: last_dot_def)
next
  case (snoc x xs)
  define ys where "ys = base @ dot # xs"
  have "find (\<lambda>i. (ys @ [x]) ! i = dot) (rev [0..<length ys]) = find (\<lambda>i. ys ! i = dot) (rev [0..<length ys])"
    by (intro find_cong refl) (auto simp: nth_append)
  then have "last_dot (ys @ [x]) = last_dot ys"
    using snoc.prems by (simp add: last_dot_def)
  then show ?case
    using snoc by (simp add: ys_def)
qed

text \<open>
  C29. Names survive the way to disk and back: a lower-case name with a base of 1 to 8 and an
  extension of 1 to 3 characters, stored as an 8.3 entry and listed again, is the same name.
\<close>
theorem fat_name_roundtrip:
  assumes "name_chars base" and "name_chars ext" and "length base \<le> 8" and "0 < length ext" and "length ext \<le> 3"
  shows "fat_83_to_name (name_entry (base @ dot # ext) attr) = base @ dot # ext"
proof -
  have "last_dot (base @ dot # ext) = Some (length base)"
    using assms(2) by (intro last_dot_append) (auto simp: name_chars_def)
  then have n: "fat_name_to_83 (base @ dot # ext) = pad 8 (map upcase base) @ pad 3 (map upcase ext)"
    using assms(3,5) by (simp add: fat_name_to_83_def)
  have "length (pad 8 (map upcase base)) = 8"
    using assms(3) by (simp add: pad_def)
  then have e: "de_name (name_entry (base @ dot # ext) attr) = pad 8 (map upcase base)"
    "de_ext (name_entry (base @ dot # ext) attr) = pad 3 (map upcase ext)"
    by (simp_all add: name_entry_def n)
  have "pad 3 (map upcase ext) ! 0 \<noteq> space"
    using assms(2,4) by (cases ext) (auto simp: pad_def name_chars_def upcase_space)
  then show ?thesis
    using takeWhile_pad map_down_up assms(1,2) by (simp add: fat_83_to_name_def e del: map_map)
qed

theorem fat_name_roundtrip_witness:
  "fat_83_to_name (name_entry [114, 101, 97, 100, dot, 116, 120, 116] 0x20) = [114, 101, 97, 100, dot, 116, 120, 116]"
  using fat_name_roundtrip [of "[114, 101, 97, 100]" "[116, 120, 116]" "0x20"] by (simp add: name_chars_def)

text \<open>Directory entries in a buffer.\<close>

definition dirent_wf :: "fat_dirent \<Rightarrow> bool" where
  "dirent_wf de \<longleftrightarrow> length (de_name de) = 8 \<and> length (de_ext de) = 3 \<and> length (de_times de) = 8 \<and> length (de_modify de) = 4"

lemma length_dirent_bytes: "dirent_wf de \<Longrightarrow> length (dirent_bytes de) = 32"
  by (simp add: dirent_bytes_def dirent_wf_def)

lemma dirent_of_bytes: "dirent_wf de \<Longrightarrow> dirent_of (dirent_bytes de) = de"
  by (simp add: dirent_of_def dirent_bytes_def dirent_wf_def nth_append)

lemma get_put_dirent:
  assumes "dirent_wf de" and "32 * i + 32 \<le> length buf"
  shows "get_dirent (put_dirent i de buf) i = de"
    and "i \<noteq> j \<Longrightarrow> 32 * j + 32 \<le> length buf \<Longrightarrow> get_dirent (put_dirent i de buf) j = get_dirent buf j"
proof -
  note l = length_dirent_bytes [OF assms(1)]
  show "get_dirent (put_dirent i de buf) i = de"
    using assms l by (simp add: get_dirent_def put_dirent_def overwrite_def dirent_of_bytes)
  assume j: "i \<noteq> j" "32 * j + 32 \<le> length buf"
  have "take 32 (drop (32 * j) (put_dirent i de buf)) = take 32 (drop (32 * j) buf)"
    using j assms(2) l by (intro nth_equalityI) (auto simp: put_dirent_def nth_overwrite)
  then show "get_dirent (put_dirent i de buf) j = get_dirent buf j"
    by (simp add: get_dirent_def)
qed

lemma de_set_cluster: "de_cluster (set_cluster c de) = c"
proof -
  have "(0xFFFF :: u32) = mask 16"
    by (simp add: mask_eq_exp_minus_1)
  then have "set_cluster c de = de\<lparr>cluster_lo := ucast (c AND mask 16), cluster_hi := ucast (drop_bit 16 c AND mask 16)\<rparr>"
    by (simp add: set_cluster_def)
  then show ?thesis
    by (intro bit_word_eqI) (auto simp: de_cluster_def bit_simps simp del: mask_numeral)
qed

text \<open>
  C30. Dot names are looked up wrongly: the conversion to an 8.3 name cuts at the last dot. In a
  directory that \<open>fat_mkdir\<close> has just made, looking up \<open>..\<close> finds the entry of the directory itself
  and not the one of its parent, and looking up \<open>.\<close> finds nothing.
\<close>
theorem fat_dot_names:
  assumes "fat_geom m"
  shows "\<exists>e. find_entry (fat_name_to_83 [dot, dot]) 0
        (map (get_dirent (dot_entries m self parent)) [0..<unat (entries_per_cluster m)]) = Some (0, e) \<and> de_cluster e = self \<and>
     find_entry (fat_name_to_83 [dot]) 0
        (map (get_dirent (dot_entries m self parent)) [0..<unat (entries_per_cluster m)]) = None"
proof -
  define e0 where "e0 = set_cluster self (dirent_zero\<lparr>de_name := pad 8 [dot], de_ext := pad 3 [], de_attr := FAT_ATTR_DIRECTORY\<rparr>)"
  define e1 where "e1 = set_cluster parent (dirent_zero\<lparr>de_name := pad 8 [dot, dot], de_ext := pad 3 [], de_attr := FAT_ATTR_DIRECTORY\<rparr>)"
  define z where "z = replicate (unat (cluster_bytes m)) (0 :: u8)"
  have "512 * 1 \<le> 512 * unat (sectors_per_cluster m)"
    using fat_geomD(1) [OF assms] by (intro mult_le_mono2)
  then have cb: "512 \<le> unat (cluster_bytes m)"
    using cluster_bytes_nat [OF assms] by simp
  have wf: "dirent_wf e0" "dirent_wf e1"
    by (simp_all add: dirent_wf_def e0_def e1_def set_cluster_def dirent_zero_def pad_def)
  have zl: "32 * 0 + 32 \<le> length z" "32 * 1 + 32 \<le> length (put_dirent 0 e0 z)" "32 * 2 + 32 \<le> length z"
    "32 * 2 + 32 \<le> length (put_dirent 0 e0 z)"
    using cb length_dirent_bytes [OF wf(1)] by (simp_all add: z_def put_dirent_def)
  have de: "dot_entries m self parent = put_dirent 1 e1 (put_dirent 0 e0 z)"
    by (simp add: dot_entries_def e0_def e1_def z_def)
  have g0: "get_dirent (dot_entries m self parent) 0 = e0"
    unfolding de using get_put_dirent(2) [OF wf(2) zl(2), of 0] get_put_dirent(1) [OF wf(1) zl(1)] zl(1,2) by simp
  have g1: "get_dirent (dot_entries m self parent) 1 = e1"
    unfolding de using get_put_dirent(1) [OF wf(2) zl(2)] by simp
  have "get_dirent (dot_entries m self parent) 2 = get_dirent z 2"
    unfolding de using get_put_dirent(2) [OF wf(2) zl(2), of 2] get_put_dirent(2) [OF wf(1) zl(1), of 2] zl by simp
  then have g2: "hd (de_name (get_dirent (dot_entries m self parent) 2)) = 0"
    using cb by (simp add: get_dirent_def dirent_of_def z_def)
  have "unat (entries_per_cluster m) = unat (cluster_bytes m) div 32"
    by (simp add: entries_per_cluster_def unat_div)
  then have "16 \<le> unat (entries_per_cluster m)"
    using div_le_mono [OF cb, of 32] by simp
  then have up: "[0..<unat (entries_per_cluster m)] = 0 # 1 # 2 # [3..<unat (entries_per_cluster m)]"
    by (simp add: upt_conv_Cons numeral_eq_Suc)
  have n: "fat_name_to_83 [dot, dot] = pad 8 [dot] @ pad 3 []" "fat_name_to_83 [dot] = replicate 11 space"
    by (code_simp, code_simp)
  have names: "de_name e0 = pad 8 [dot]" "de_ext e0 = pad 3 []" "de_attr e0 \<noteq> FAT_ATTR_LFN"
      "de_name e1 = pad 8 [dot, dot]" "de_attr e1 \<noteq> FAT_ATTR_LFN"
    by (simp_all add: e0_def e1_def set_cluster_def FAT_ATTR_DIRECTORY_def FAT_ATTR_LFN_def)
  have "de_cluster e0 = self"
    by (simp add: e0_def de_set_cluster)
  moreover have dots: "dot # xs \<noteq> replicate 8 space" for xs
  proof
    assume "dot # xs = replicate 8 space"
    then have "dot \<in> set (replicate 8 space)"
      by (metis list.set_intros(1))
    then show False
      by simp
  qed
  ultimately show ?thesis
    unfolding up n using g0 g1 g2 names dots by (simp add: pad_def)
qed

theorem fat_dot_names_witness:
  "\<exists>e. find_entry (fat_name_to_83 [dot, dot]) 0
        (map (get_dirent (dot_entries sample_mount 3 2)) [0..<unat (entries_per_cluster sample_mount)]) = Some (0, e) \<and> de_cluster e = 3"
  using fat_dot_names [OF fat_okD(1) [OF sample_vol_ok], of 3 2] by blast

end
