(* ===== verification/Vfs.thy ===== *)
theory Vfs
  imports Fat Pipe
begin

text \<open>
  The virtual file system \<^verbatim>\<open>fs/vfs.c\<close> and the descriptors of pipes in \<^verbatim>\<open>fs/pipe.c\<close>: the table of 64 open
  files, the routing of paths to the mounted FAT volume or the RAM file system, permissions, and
  the operations on descriptors. The state holds the two file systems and the pipes. A pointer
  to a pipe is its index in the table. Calls into the scheduler are recorded in order in
  \<open>v_calls\<close>; the tasks they act on are in the theory of tasks. An operation has the result \<open>None\<close>
  when it does not return or its behaviour is undefined in C.
\<close>

unbundle bit_operations_syntax

section \<open>State\<close>

definition VFS_MAX_FDS :: nat where
  "VFS_MAX_FDS = 64"

definition MAX_PIPES :: nat where
  "MAX_PIPES = 16"

definition PIPE_READ :: u8 where
  "PIPE_READ = 1"

definition PIPE_WRITE :: u8 where
  "PIPE_WRITE = 2"

abbreviation VFS_O_CREATE :: int where
  "VFS_O_CREATE \<equiv> 1"

abbreviation VFS_O_TRUNC :: int where
  "VFS_O_TRUNC \<equiv> 2"

record vfs_fd =
  fd_used :: bool
  refcount :: u32
  fd_inode :: u32
  fd_offset :: u32
  dir_idx :: u32
  fd_pipe :: "nat option"
  pipe_mode :: u8
  fat_fd :: int

record vfs_stat =
  st_type :: u32
  st_size :: u32
  st_inode :: u32
  st_uid :: u16
  st_gid :: u16
  st_mode :: u16

text \<open>Calls of \<^verbatim>\<open>task_wake_one\<close> and \<^verbatim>\<open>task_wake_all\<close> with a pipe as the channel, and \<^verbatim>\<open>SIGPIPE\<close> to the caller.\<close>

datatype sched_call = Wake_one nat | Wake_all nat | Sigpipe

record vfs_state =
  inodes :: ramfs
  fd_table :: "vfs_fd list"
  pipes :: "pipe list"
  fat :: fat_state
  fat_mpoint :: cstring
  fat_mounted_flag :: bool
  v_calls :: "sched_call list"

text \<open>
  What a call takes from the rest of the kernel: the heap, for the buffers of RAM files and for the FAT
  driver, and the user and group of the current task (\<open>None\<close> before tasks exist).
\<close>

record kenv =
  ram_alloc :: "u32 \<Rightarrow> u8 list option"
  fat_alloc :: "nat \<Rightarrow> u32 \<Rightarrow> bool"
  cur_ids :: "(u16 \<times> u16) option"

definition fd_zero :: vfs_fd where
  "fd_zero = \<lparr>fd_used = False, refcount = 0, fd_inode = 0, fd_offset = 0, dir_idx = 0, fd_pipe = None,
     pipe_mode = 0, fat_fd = 0\<rparr>"

definition vfs_init :: "vfs_state \<Rightarrow> vfs_state" where
  "vfs_init s = s\<lparr>fd_table := replicate VFS_MAX_FDS fd_zero, fat_mpoint := [], fat_mounted_flag := False\<rparr>"

section \<open>The table of open files\<close>

definition set_fd :: "nat \<Rightarrow> vfs_fd \<Rightarrow> vfs_state \<Rightarrow> vfs_state" where
  "set_fd i f s = s\<lparr>fd_table := (fd_table s)[i := f]\<rparr>"

definition alloc_fd :: "vfs_state \<Rightarrow> (nat \<times> vfs_state) option" where
  "alloc_fd s =
     (case first_idx (\<lambda>f. \<not> fd_used f) (fd_table s) of
        None \<Rightarrow> None
      | Some i \<Rightarrow>
          Some (i, set_fd i ((fd_table s ! i)\<lparr>fd_used := True, refcount := 1, fd_offset := 0, dir_idx := 0,
                                 fd_pipe := None, pipe_mode := 0, fat_fd := - 1\<rparr>) s))"

definition vfs_alloc_fd :: "vfs_state \<Rightarrow> (nat \<times> vfs_state) option" where
  "vfs_alloc_fd s = alloc_fd s"

definition valid_fd :: "int \<Rightarrow> vfs_state \<Rightarrow> bool" where
  "valid_fd fd s \<longleftrightarrow> 0 \<le> fd \<and> fd < int VFS_MAX_FDS \<and> fd_used (fd_table s ! nat fd)"

definition vfs_get_fd :: "int \<Rightarrow> vfs_state \<Rightarrow> vfs_fd option" where
  "vfs_get_fd fd s = (if valid_fd fd s then Some (fd_table s ! nat fd) else None)"

definition vfs_fd_addref :: "int \<Rightarrow> vfs_state \<Rightarrow> vfs_state" where
  "vfs_fd_addref fd s =
     (if valid_fd fd s
      then set_fd (nat fd) ((fd_table s ! nat fd)\<lparr>refcount := refcount (fd_table s ! nat fd) + 1\<rparr>) s
      else s)"

section \<open>The mounted volume\<close>

definition fat_subpath :: "vfs_state \<Rightarrow> cstring \<Rightarrow> cstring option" where
  "fat_subpath s path =
     (let mlen = length (fat_mpoint s) in
      if \<not> fat_mounted_flag s \<or> fat_mpoint s = [] then None
      else if take mlen path \<noteq> fat_mpoint s then None
      else if length path = mlen then Some [slash]
      else if path ! mlen = slash then Some (drop mlen path)
      else None)"

definition vfs_mount_fat :: "cstring \<Rightarrow> vfs_state \<Rightarrow> int \<times> vfs_state" where
  "vfs_mount_fat mount_point s =
     (if fat_mounted_flag s then (- 1, s)
      else
        let mp = field_copy 64 mount_point;
            mp1 = (if 1 < length mp \<and> last mp = slash then butlast mp else mp)
        in (0, s\<lparr>fat_mpoint := mp1, fat_mounted_flag := True\<rparr>))"

definition vfs_unmount_fat :: "kenv \<Rightarrow> vfs_state \<Rightarrow> vfs_state option" where
  "vfs_unmount_fat k s =
     (if \<not> fat_mounted_flag s then Some s
      else case fat_unmount (fat_alloc k) (fat s) of
             None \<Rightarrow> None
           | Some t \<Rightarrow> Some (s\<lparr>fat := t, fat_mpoint := [], fat_mounted_flag := False\<rparr>))"

definition vfs_fat_mounted :: "vfs_state \<Rightarrow> bool" where
  "vfs_fat_mounted s = fat_mounted_flag s"

definition vfs_fat_mount_point :: "vfs_state \<Rightarrow> cstring" where
  "vfs_fat_mount_point s = fat_mpoint s"

section \<open>Permissions and opening\<close>

text \<open>Access is allowed when the result is \<open>True\<close>; \<open>want\<close> is a sum of 4 (read), 2 (write) and 1 (execute).\<close>

definition vfs_check_perm :: "(u16 \<times> u16) option \<Rightarrow> vfs_inode \<Rightarrow> u16 \<Rightarrow> bool" where
  "vfs_check_perm cur node want =
     (case cur of
        None \<Rightarrow> True
      | Some (uid, gid) \<Rightarrow>
          if uid = 0 then True
          else
            let bits = (if uid = i_uid node then drop_bit 6 (i_mode node) AND 7
                        else if gid = i_gid node then drop_bit 3 (i_mode node) AND 7
                        else i_mode node AND 7)
            in bits AND want = want)"

text \<open>The inode of a path that is opened, created when the flags ask for it: \<open>-1\<close> on every failure.\<close>

definition open_inode :: "kenv \<Rightarrow> cstring \<Rightarrow> int \<Rightarrow> vfs_state \<Rightarrow> (int \<times> vfs_state) option" where
  "open_inode k path flags s =
     (let ino = ramfs_resolve_path path (inodes s) in
      if ino < 0
      then (if flags AND VFS_O_CREATE \<noteq> 0
            then (case ramfs_create_file (ram_alloc k) (cur_ids k) path (inodes s) of
                    None \<Rightarrow> None
                  | Some (i, fs) \<Rightarrow> Some (if i < 0 then - 1 else i, s\<lparr>inodes := fs\<rparr>))
            else Some (- 1, s))
      else
        case ramfs_get_inode (word_of_int ino) (inodes s) of
          None \<Rightarrow> Some (ino, s)
        | Some node \<Rightarrow>
            let want = (if flags AND (VFS_O_CREATE OR VFS_O_TRUNC) \<noteq> 0 then 4 OR 2 else 4)
            in Some (if vfs_check_perm (cur_ids k) node want then ino else - 1, s))"

definition trunc_inode :: "u32 \<Rightarrow> ramfs \<Rightarrow> ramfs" where
  "trunc_inode ino fs =
     (case ramfs_get_inode ino fs of
        None \<Rightarrow> fs
      | Some node \<Rightarrow> if i_type node = VFS_FILE then fs[unat ino := node\<lparr>i_size := 0\<rparr>] else fs)"

definition open_fat :: "kenv \<Rightarrow> cstring \<Rightarrow> int \<Rightarrow> vfs_state \<Rightarrow> (int \<times> vfs_state) option" where
  "open_fat k fpath flags s =
     (case fat_open (fat_alloc k) fpath flags (fat s) of
        None \<Rightarrow> None
      | Some (ffd, t) \<Rightarrow>
          if ffd < 0 then Some (- 1, s\<lparr>fat := t\<rparr>)
          else case alloc_fd (s\<lparr>fat := t\<rparr>) of
                 None \<Rightarrow> map_option (\<lambda>(r, t'). (- 1, s\<lparr>fat := t'\<rparr>)) (fat_close (fat_alloc k) ffd t)
               | Some (fd, s1) \<Rightarrow> Some (int fd, set_fd fd ((fd_table s1 ! fd)\<lparr>fat_fd := ffd\<rparr>) s1))"

definition vfs_open :: "kenv \<Rightarrow> cstring \<Rightarrow> int \<Rightarrow> vfs_state \<Rightarrow> (int \<times> vfs_state) option" where
  "vfs_open k path flags s =
     (case fat_subpath s path of
        Some fpath \<Rightarrow> open_fat k fpath flags s
      | None \<Rightarrow>
          (case open_inode k path flags s of
             None \<Rightarrow> None
           | Some (ino, s1) \<Rightarrow>
               if ino < 0 then Some (- 1, s1)
               else case alloc_fd s1 of
                      None \<Rightarrow> Some (- 1, s1)
                    | Some (fd, s2) \<Rightarrow>
                        let s3 = set_fd fd ((fd_table s2 ! fd)\<lparr>fd_inode := word_of_int ino, fd_offset := 0, dir_idx := 0\<rparr>) s2
                        in Some (int fd, if flags AND VFS_O_TRUNC \<noteq> 0
                                         then s3\<lparr>inodes := trunc_inode (word_of_int ino) (inodes s3)\<rparr> else s3)))"

section \<open>Closing\<close>

definition vfs_close :: "kenv \<Rightarrow> int \<Rightarrow> vfs_state \<Rightarrow> (int \<times> vfs_state) option" where
  "vfs_close k fd s =
     (if \<not> valid_fd fd s then Some (- 1, s)
      else
        let f = fd_table s ! nat fd in
        if 1 < refcount f then Some (0, set_fd (nat fd) (f\<lparr>refcount := refcount f - 1\<rparr>) s)
        else if 0 \<le> fat_fd f
        then (case fat_close (fat_alloc k) (fat_fd f) (fat s) of
                None \<Rightarrow> None
              | Some (r, t) \<Rightarrow>
                  Some (0, (set_fd (nat fd) (f\<lparr>fat_fd := - 1, refcount := 0, fd_used := False\<rparr>) s)\<lparr>fat := t\<rparr>))
        else Some (0, set_fd (nat fd) (f\<lparr>refcount := 0, fd_used := False\<rparr>) s))"

text \<open>One end of a pipe is closed: the ends are counted down, and the last one wakes all tasks on the pipe.\<close>

definition drop_end :: "u8 \<Rightarrow> pipe \<Rightarrow> pipe" where
  "drop_end mode p =
     (let p1 = (if mode = PIPE_READ then p\<lparr>readers := readers p - 1\<rparr>
                else if mode = PIPE_WRITE then p\<lparr>writers := writers p - 1\<rparr> else p)
      in if readers p1 = 0 \<and> writers p1 = 0 then p1\<lparr>p_used := False\<rparr> else p1)"

definition end_calls :: "u8 \<Rightarrow> nat \<Rightarrow> pipe \<Rightarrow> sched_call list" where
  "end_calls mode pi p =
     (if mode = PIPE_READ \<and> readers p - 1 = 0 \<or> mode = PIPE_WRITE \<and> writers p - 1 = 0 then [Wake_all pi] else [])"

definition release_pipe :: "nat \<Rightarrow> u8 \<Rightarrow> vfs_state \<Rightarrow> vfs_state" where
  "release_pipe pi mode s =
     s\<lparr>pipes := (pipes s)[pi := drop_end mode (pipes s ! pi)], v_calls := v_calls s @ end_calls mode pi (pipes s ! pi)\<rparr>"

definition vfs_close_fd :: "kenv \<Rightarrow> int \<Rightarrow> vfs_state \<Rightarrow> (int \<times> vfs_state) option" where
  "vfs_close_fd k fd s =
     (if \<not> valid_fd fd s then Some (- 1, s)
      else
        let f = fd_table s ! nat fd in
        if 1 < refcount f then Some (0, set_fd (nat fd) (f\<lparr>refcount := refcount f - 1\<rparr>) s)
        else
          let (f1, s1) = (case fd_pipe f of
                            None \<Rightarrow> (f, s)
                          | Some pi \<Rightarrow> (f\<lparr>fd_pipe := None, pipe_mode := 0\<rparr>, release_pipe pi (pipe_mode f) s))
          in case (if 0 \<le> fat_fd f1
                   then map_option (\<lambda>(r, t). (f1\<lparr>fat_fd := - 1\<rparr>, s1\<lparr>fat := t\<rparr>)) (fat_close (fat_alloc k) (fat_fd f1) (fat s1))
                   else Some (f1, s1)) of
               None \<Rightarrow> None
             | Some (f2, s2) \<Rightarrow> Some (0, set_fd (nat fd) (f2\<lparr>refcount := 0, fd_used := False\<rparr>) s2))"

section \<open>Reading and writing\<close>

definition vfs_read :: "kenv \<Rightarrow> int \<Rightarrow> u64 \<Rightarrow> vfs_state \<Rightarrow> (int \<times> u8 list \<times> vfs_state) option" where
  "vfs_read k fd count s =
     (if \<not> valid_fd fd s then Some (- 1, [], s)
      else
        let f = fd_table s ! nat fd in
        if 0 \<le> fat_fd f
        then map_option (\<lambda>(r, bs, t). (r, bs, s\<lparr>fat := t\<rparr>)) (fat_read (fat_alloc k) (fat_fd f) count (fat s))
        else case ramfs_get_inode (fd_inode f) (inodes s) of
               None \<Rightarrow> Some (- 1, [], s)
             | Some node \<Rightarrow>
                 if i_type node \<noteq> VFS_FILE then Some (- 1, [], s)
                 else if i_size node \<le> fd_offset f then Some (0, [], s)
                 else
                   let avail = i_size node - fd_offset f;
                       n = min (unat count) (unat avail)
                   in Some (to_int n, take n (drop (unat (fd_offset f)) (i_bytes node)),
                            set_fd (nat fd) (f\<lparr>fd_offset := fd_offset f + of_nat n\<rparr>) s))"

text \<open>A buffer of the needed capacity for the data of a node: \<open>None\<close> when memory runs out.\<close>

definition grow :: "(u32 \<Rightarrow> u8 list option) \<Rightarrow> u32 \<Rightarrow> vfs_inode \<Rightarrow> vfs_inode option" where
  "grow km needed node =
     (if i_cap node < needed
      then let new_cap = (if needed * 2 < 256 then 256 else needed * 2)
           in case km new_cap of
                None \<Rightarrow> None
              | Some buf \<Rightarrow> Some (node\<lparr>i_bytes := overwrite 0 (take (unat (i_size node)) (i_bytes node)) buf, i_cap := new_cap\<rparr>)
      else Some node)"

definition vfs_write :: "kenv \<Rightarrow> int \<Rightarrow> u8 list \<Rightarrow> vfs_state \<Rightarrow> (int \<times> vfs_state) option" where
  "vfs_write k fd data s =
     (if \<not> valid_fd fd s then Some (- 1, s)
      else
        let f = fd_table s ! nat fd in
        if 0 \<le> fat_fd f
        then map_option (\<lambda>(r, t). (r, s\<lparr>fat := t\<rparr>)) (fat_write (fat_alloc k) (fat_fd f) data (fat s))
        else case ramfs_get_inode (fd_inode f) (inodes s) of
               None \<Rightarrow> Some (- 1, s)
             | Some node \<Rightarrow>
                 if i_type node \<noteq> VFS_FILE then Some (- 1, s)
                 else
                   let needed = fd_offset f + of_nat (length data)
                   in case grow (ram_alloc k) needed node of
                        None \<Rightarrow> Some (- 1, s)
                      | Some node1 \<Rightarrow>
                          if i_cap node < needed \<and> i_cap node1 < i_size node1 \<or> unat (i_cap node1) < unat (fd_offset f) + length data then None
                          else
                            let node2 = node1\<lparr>i_bytes := overwrite (unat (fd_offset f)) data (i_bytes node1),
                                              i_size := (if i_size node1 < needed then needed else i_size node1)\<rparr>
                            in Some (to_int (length data),
                                     (set_fd (nat fd) (f\<lparr>fd_offset := needed\<rparr>) s)
                                       \<lparr>inodes := (inodes s)[unat (fd_inode f) := node2]\<rparr>))"

section \<open>Status, directories, removal, seeking\<close>

definition vfs_stat_op :: "kenv \<Rightarrow> cstring \<Rightarrow> vfs_state \<Rightarrow> (vfs_stat option \<times> vfs_state) option" where
  "vfs_stat_op k path s =
     (case fat_subpath s path of
        Some fpath \<Rightarrow>
          (case fat_stat (fat_alloc k) fpath (fat s) of
             None \<Rightarrow> None
           | Some (None, t) \<Rightarrow> Some (None, s\<lparr>fat := t\<rparr>)
           | Some (Some (sz, d), t) \<Rightarrow>
               Some (Some \<lparr>st_type = (if d then VFS_DIR else VFS_FILE), st_size = sz, st_inode = 0, st_uid = 0, st_gid = 0,
                           st_mode = (if d then 0x1ED else 0x1A4)\<rparr>, s\<lparr>fat := t\<rparr>))
      | None \<Rightarrow>
          (let ino = ramfs_resolve_path path (inodes s) in
           if ino < 0 then Some (None, s)
           else case ramfs_get_inode (word_of_int ino) (inodes s) of
                  None \<Rightarrow> Some (None, s)
                | Some node \<Rightarrow>
                    Some (Some \<lparr>st_type = i_type node, st_size = i_size node, st_inode = word_of_int ino,
                                st_uid = i_uid node, st_gid = i_gid node, st_mode = i_mode node\<rparr>, s)))"

definition vfs_mkdir :: "kenv \<Rightarrow> cstring \<Rightarrow> vfs_state \<Rightarrow> (int \<times> vfs_state) option" where
  "vfs_mkdir k path s =
     (case fat_subpath s path of
        Some fpath \<Rightarrow> map_option (\<lambda>(r, t). (r, s\<lparr>fat := t\<rparr>)) (fat_mkdir (fat_alloc k) fpath (fat s))
      | None \<Rightarrow> map_option (\<lambda>(r, fs). (r, s\<lparr>inodes := fs\<rparr>)) (ramfs_create_dir (ram_alloc k) (cur_ids k) path (inodes s)))"

definition vfs_unlink :: "kenv \<Rightarrow> cstring \<Rightarrow> vfs_state \<Rightarrow> (int \<times> vfs_state) option" where
  "vfs_unlink k path s =
     (case fat_subpath s path of
        Some fpath \<Rightarrow> map_option (\<lambda>(r, t). (r, s\<lparr>fat := t\<rparr>)) (fat_unlink (fat_alloc k) fpath (fat s))
      | None \<Rightarrow>
          (let ino = ramfs_resolve_path path (inodes s);
               denied = 0 \<le> ino \<and> (case ramfs_get_inode (word_of_int ino) (inodes s) of
                                     None \<Rightarrow> False
                                   | Some node \<Rightarrow> \<not> vfs_check_perm (cur_ids k) node 2)
           in if denied then Some (- 1, s)
              else map_option (\<lambda>(r, fs). (r, s\<lparr>inodes := fs\<rparr>)) (ramfs_unlink path (inodes s))))"

text \<open>The entry is the name and the inode number.\<close>

definition vfs_readdir :: "kenv \<Rightarrow> int \<Rightarrow> vfs_state \<Rightarrow> ((cstring \<times> u32) option \<times> vfs_state) option" where
  "vfs_readdir k fd s =
     (if \<not> valid_fd fd s then Some (None, s)
      else
        let f = fd_table s ! nat fd in
        if 0 \<le> fat_fd f
        then (case fat_readdir (fat_alloc k) (fat_fd f) (fat s) of
                None \<Rightarrow> None
              | Some (r, t) \<Rightarrow> Some (map_option (\<lambda>(name, sz, d). (field_copy VFS_NAME_MAX name, 0)) r, s\<lparr>fat := t\<rparr>))
        else case ramfs_get_inode (fd_inode f) (inodes s) of
               None \<Rightarrow> Some (None, s)
             | Some node \<Rightarrow>
                 if i_type node \<noteq> VFS_DIR then Some (None, s)
                 else if ramfs_dir_entry_count (fd_inode f) (inodes s) \<le> dir_idx f then Some (None, s)
                 else case ramfs_dir_get_entry (fd_inode f) (dir_idx f) (inodes s) of
                        None \<Rightarrow> Some (None, s)
                      | Some e \<Rightarrow> Some (Some e, set_fd (nat fd) (f\<lparr>dir_idx := dir_idx f + 1\<rparr>) s))"

text \<open>Positions are computed in signed \<^verbatim>\<open>int\<close>, where an overflow is undefined.\<close>

definition vfs_lseek :: "int \<Rightarrow> int \<Rightarrow> int \<Rightarrow> vfs_state \<Rightarrow> (int \<times> vfs_state) option" where
  "vfs_lseek fd offset whence s =
     (if \<not> valid_fd fd s then Some (- 1, s)
      else
        let f = fd_table s ! nat fd in
        if fd_pipe f \<noteq> None \<or> 0 \<le> fat_fd f then Some (- 1, s)
        else case ramfs_get_inode (fd_inode f) (inodes s) of
               None \<Rightarrow> Some (- 1, s)
             | Some node \<Rightarrow>
                 if i_type node \<noteq> VFS_FILE \<or> whence < 0 \<or> 2 < whence then Some (- 1, s)
                 else
                   let new_off = (if whence = 0 then offset
                                  else if whence = 1 then sint (fd_offset f) + offset
                                  else sint (i_size node) + offset)
                   in if new_off < - (2 ^ 31) \<or> 2 ^ 31 \<le> new_off then None
                      else Some (max new_off 0, set_fd (nat fd) (f\<lparr>fd_offset := word_of_int (max new_off 0)\<rparr>) s))"

definition vfs_dup2 :: "kenv \<Rightarrow> int \<Rightarrow> int \<Rightarrow> vfs_state \<Rightarrow> (int \<times> vfs_state) option" where
  "vfs_dup2 k oldfd newfd s =
     (if \<not> valid_fd oldfd s \<or> newfd < 0 \<or> int VFS_MAX_FDS \<le> newfd then Some (- 1, s)
      else case (if fd_used (fd_table s ! nat newfd) then map_option snd (vfs_close k newfd s) else Some s) of
             None \<Rightarrow> None
           | Some s1 \<Rightarrow>
               let s2 = set_fd (nat newfd) ((fd_table s1 ! nat oldfd)\<lparr>refcount := 1\<rparr>) s1;
                   f = fd_table s2 ! nat oldfd
               in Some (newfd, set_fd (nat oldfd) (f\<lparr>refcount := refcount f + 1\<rparr>) s2))"

section \<open>Pipe descriptors\<close>

definition pipe_alloc :: "vfs_state \<Rightarrow> (nat \<times> vfs_state) option" where
  "pipe_alloc s =
     (case first_idx (\<lambda>p. \<not> p_used p) (pipes s) of
        None \<Rightarrow> None
      | Some i \<Rightarrow> Some (i, s\<lparr>pipes := (pipes s)[i := pipe_zero\<lparr>p_used := True\<rparr>]\<rparr>))"

definition free_pipe :: "nat \<Rightarrow> vfs_state \<Rightarrow> vfs_state" where
  "free_pipe pi s = s\<lparr>pipes := (pipes s)[pi := (pipes s ! pi)\<lparr>p_used := False\<rparr>]\<rparr>"

definition pipe_create :: "vfs_state \<Rightarrow> (int \<times> int) option \<times> vfs_state" where
  "pipe_create s =
     (case pipe_alloc s of
        None \<Rightarrow> (None, s)
      | Some (pi, s1) \<Rightarrow>
          (case vfs_alloc_fd s1 of
             None \<Rightarrow> (None, free_pipe pi s1)
           | Some (rfd, s2) \<Rightarrow>
               (case vfs_alloc_fd s2 of
                  None \<Rightarrow> (None, free_pipe pi (set_fd rfd ((fd_table s2 ! rfd)\<lparr>fd_used := False\<rparr>) s2))
                | Some (wfd, s3) \<Rightarrow>
                    (let s4 = set_fd rfd ((fd_table s3 ! rfd)\<lparr>fd_pipe := Some pi, pipe_mode := PIPE_READ\<rparr>) s3;
                         s5 = set_fd wfd ((fd_table s4 ! wfd)\<lparr>fd_pipe := Some pi, pipe_mode := PIPE_WRITE\<rparr>) s4
                     in (Some (int rfd, int wfd),
                         s5\<lparr>pipes := (pipes s5)[pi := (pipes s5 ! pi)\<lparr>readers := 1, writers := 1\<rparr>]\<rparr>)))))"

text \<open>The pipe a descriptor names in the given mode; without one the calls answer \<open>-2\<close>, here \<open>None\<close>.\<close>

definition pipe_of :: "int \<Rightarrow> u8 \<Rightarrow> vfs_state \<Rightarrow> nat option" where
  "pipe_of fd mode s =
     (case vfs_get_fd fd s of
        None \<Rightarrow> None
      | Some f \<Rightarrow> if pipe_mode f \<noteq> mode then None else fd_pipe f)"

definition pipe_fd_read :: "int \<Rightarrow> u64 \<Rightarrow> vfs_state \<Rightarrow> (pipe_rres \<times> vfs_state) option" where
  "pipe_fd_read fd count s =
     (case pipe_of fd PIPE_READ s of
        None \<Rightarrow> None
      | Some pi \<Rightarrow>
          (case pipe_read count (pipes s ! pi) of
             (r, p) \<Rightarrow>
               Some (r, s\<lparr>pipes := (pipes s)[pi := p],
                          v_calls := v_calls s @ (case r of PData bs \<Rightarrow> [Wake_one pi] | _ \<Rightarrow> [])\<rparr>)))"

definition pipe_fd_write :: "bool \<Rightarrow> int \<Rightarrow> u8 list \<Rightarrow> vfs_state \<Rightarrow> (pipe_wres \<times> vfs_state) option" where
  "pipe_fd_write is_user fd data s =
     (case pipe_of fd PIPE_WRITE s of
        None \<Rightarrow> None
      | Some pi \<Rightarrow>
          (case pipe_write data (pipes s ! pi) of
             (r, p) \<Rightarrow>
               Some (r, s\<lparr>pipes := (pipes s)[pi := p],
                          v_calls := v_calls s @ (case r of
                                                    WDone n \<Rightarrow> [Wake_one pi]
                                                  | WBroken n \<Rightarrow> (if is_user then [Sigpipe] else [])
                                                  | WBlocked n \<Rightarrow> [])\<rparr>)))"

definition pipe_fd_close :: "int \<Rightarrow> vfs_state \<Rightarrow> int \<times> vfs_state" where
  "pipe_fd_close fd s =
     (case vfs_get_fd fd s of
        None \<Rightarrow> (- 2, s)
      | Some f \<Rightarrow>
          (case fd_pipe f of
             None \<Rightarrow> (- 2, s)
           | Some pi \<Rightarrow>
               if 1 < refcount f then (0, set_fd (nat fd) (f\<lparr>refcount := refcount f - 1\<rparr>) s)
               else (0, set_fd (nat fd) (f\<lparr>fd_pipe := None, pipe_mode := 0, refcount := 0, fd_used := False\<rparr>)
                          (release_pipe pi (pipe_mode f) s))))"

end
