(* ===== verification/RamFsProps.thy ===== *)
theory RamFsProps
  imports RamFs
begin

text \<open>
  The RAM file system refines a name space: a partial map from a directory and a name to an
  inode. Path resolution depends on that map only; creating a node adds one binding to it,
  removing a file deletes one. From this follow what the operations do to every path.
\<close>

section \<open>Name space\<close>

definition child_of :: "ramfs \<Rightarrow> u32 \<Rightarrow> cstring \<Rightarrow> u32 option" where
  "child_of fs i name =
     (case ramfs_get_inode i fs of
        None \<Rightarrow> None
      | Some d \<Rightarrow> if i_type d = VFS_DIR then dir_lookup d name else None)"

lemma resolve_loop_child:
  "resolve_loop fs cur p =
     (let p1 = dropWhile (\<lambda>c. c = slash) p in
      if p1 = [] then Some cur
      else Option.bind (child_of fs cur (component p1)) (\<lambda>i. resolve_loop fs i (drop (length (component p1)) p1)))"
  by (subst resolve_loop.simps) (auto simp: child_of_def Let_def split: option.splits)

lemma resolve_dropWhile: "resolve_loop fs cur (dropWhile (\<lambda>c. c = slash) p) = resolve_loop fs cur p"
  by (subst (1 2) resolve_loop_child) simp

lemma resolve_slash: "resolve_loop fs cur (slash # p) = resolve_loop fs cur p"
  using resolve_dropWhile [of fs cur "slash # p"] resolve_dropWhile [of fs cur p] by simp

lemma resolve_Nil [simp]: "resolve_loop fs cur [] = Some cur"
  by (simp add: resolve_loop_child)

lemma takeWhile_slash: "takeWhile (\<lambda>c. c \<noteq> slash) (p @ slash # q) = takeWhile (\<lambda>c. c \<noteq> slash) p"
  by (induction p) auto

lemma component_append: "component (p @ slash # q) = component p"
  by (simp add: component_def takeWhile_slash)

lemma component_nonempty: "p \<noteq> [] \<Longrightarrow> hd p \<noteq> slash \<Longrightarrow> component p \<noteq> []"
  by (cases p) (auto simp: component_def VFS_NAME_MAX_def)

lemma length_component: "length (component p) \<le> length p"
  unfolding component_def using length_takeWhile_le [of "\<lambda>c. c \<noteq> slash" p] by simp

lemma resolve_append:
  "resolve_loop fs cur (p @ slash # q) = Option.bind (resolve_loop fs cur p) (\<lambda>i. resolve_loop fs i q)"
proof (induction fs cur p rule: resolve_loop.induct)
  case (1 fs cur p)
  let ?p1 = "dropWhile (\<lambda>c. c = slash) p"
  show ?case
  proof (cases "?p1 = []")
    case True
    then have "resolve_loop fs cur (p @ slash # q) = resolve_loop fs cur (slash # q)"
      using resolve_dropWhile [of fs cur "p @ slash # q"] resolve_dropWhile [of fs cur "slash # q"]
      by (simp add: dropWhile_append)
    moreover have "resolve_loop fs cur p = Some cur"
      using True by (simp add: resolve_loop_child)
    ultimately show ?thesis
      by (simp add: resolve_slash)
  next
    case False
    let ?c = "component ?p1"
    have dw: "dropWhile (\<lambda>c. c = slash) (p @ slash # q) = ?p1 @ slash # q"
      using False by (auto simp: dropWhile_append)
    have dr: "drop (length ?c) (?p1 @ slash # q) = drop (length ?c) ?p1 @ slash # q"
      using length_component [of ?p1] by simp
    have step: "resolve_loop fs cur (p @ slash # q) =
        Option.bind (child_of fs cur ?c) (\<lambda>i. resolve_loop fs i (drop (length ?c) ?p1 @ slash # q))"
      by (subst resolve_loop_child) (simp add: dw component_append dr del: drop_append)
    have step': "resolve_loop fs cur p = Option.bind (child_of fs cur ?c) (\<lambda>i. resolve_loop fs i (drop (length ?c) ?p1))"
      using False by (subst resolve_loop_child) (auto simp: Let_def simp del: dropWhile_eq_Nil_conv)
    show ?thesis
    proof (cases "child_of fs cur ?c")
      case None
      then show ?thesis
        using step step' by simp
    next
      case (Some i)
      then obtain d where d: "ramfs_get_inode cur fs = Some d" "i_type d = VFS_DIR" "dir_lookup d ?c = Some i"
        by (auto simp: child_of_def split: option.splits if_splits)
      have "resolve_loop fs i (drop (length ?c) ?p1 @ slash # q) =
          Option.bind (resolve_loop fs i (drop (length ?c) ?p1)) (\<lambda>i. resolve_loop fs i q)"
        using "1.IH" [OF refl False refl d(1) _ d(3)] d(2) by simp
      then show ?thesis
        using step step' Some by simp
    qed
  qed
qed

lemma resolve_name:
  assumes "name \<noteq> []" and "slash \<notin> set name" and "length name < VFS_NAME_MAX"
  shows "resolve_loop fs cur name = child_of fs cur name"
proof -
  have "dropWhile (\<lambda>c. c = slash) name = name"
    using assms(1,2) by (cases name) auto
  moreover have tw: "takeWhile (\<lambda>c. c \<noteq> slash) name = name"
    using assms(2) by (auto simp: takeWhile_eq_all_conv)
  have "component name = name"
    unfolding component_def tw using assms(3) by simp
  ultimately show ?thesis
    using assms(1) by (subst resolve_loop_child) (simp add: Let_def)
qed

lemma find_last:
  assumes "find P (rev [1..<n]) = Some i"
  shows "1 \<le> i \<and> i < n \<and> P i \<and> (\<forall>j. i < j \<and> j < n \<longrightarrow> \<not> P j)"
  using assms
proof (induction n)
  case (Suc n)
  then show ?case
    by (cases "1 \<le> n") (auto split: if_splits simp: less_Suc_eq)
qed simp

lemma last_slash_props:
  assumes "path \<noteq> []"
  shows "last_slash path < length path" and "slash \<notin> set (drop (last_slash path + 1) path)"
    and "0 < last_slash path \<Longrightarrow> path ! last_slash path = slash"
proof -
  let ?P = "\<lambda>i. path ! i = slash"
  have *: "last_slash path < length path \<and> slash \<notin> set (drop (last_slash path + 1) path) \<and>
      (0 < last_slash path \<longrightarrow> path ! last_slash path = slash)"
  proof (cases "find ?P (rev [1..<length path])")
    case None
    then have "\<forall>i. 1 \<le> i \<and> i < length path \<longrightarrow> path ! i \<noteq> slash"
      by (auto simp: find_None_iff)
    then show ?thesis
      using assms None by (auto simp: last_slash_def in_set_conv_nth)
  next
    case (Some i)
    from find_last [OF Some] show ?thesis
      using Some by (auto simp: last_slash_def in_set_conv_nth)
  qed
  then show "last_slash path < length path" and "slash \<notin> set (drop (last_slash path + 1) path)"
    and "0 < last_slash path \<Longrightarrow> path ! last_slash path = slash"
    by auto
qed

lemma split_path_ok:
  assumes "split_path path = SplitOk parent name"
  shows "slash \<notin> set name" and "length name < VFS_NAME_MAX" and "parent \<noteq> []" and "hd parent = slash"
    and "path \<noteq> []" and "hd path = slash" and "tl path \<noteq> []"
    and "resolve_loop fs 0 (tl path) = Option.bind (resolve_loop fs 0 (tl parent)) (\<lambda>i. resolve_loop fs i name)"
proof -
  let ?ls = "last_slash path"
  have len: "2 \<le> length path" "hd path = slash"
    and parent: "parent = (if ?ls = 0 then [slash] else take ?ls path)"
    and name: "name = drop (?ls + 1) path" and nl: "length name + 1 \<le> VFS_NAME_MAX"
    using assms by (auto simp: split_path_def Let_def split: if_splits)
  show "length name < VFS_NAME_MAX" "path \<noteq> []" "hd path = slash" "tl path \<noteq> []"
    using nl len by (auto simp: tl_Nil)
  then have ls: "?ls < length path" "slash \<notin> set (drop (?ls + 1) path)" "0 < ?ls \<Longrightarrow> path ! ?ls = slash"
    using last_slash_props [of path] by auto
  show "slash \<notin> set name"
    using ls(2) name by simp
  obtain rest where path: "path = slash # rest"
    using len by (cases path) auto
  show "parent \<noteq> []" "hd parent = slash"
    using parent path by (auto simp: hd_take)
  show "resolve_loop fs 0 (tl path) = Option.bind (resolve_loop fs 0 (tl parent)) (\<lambda>i. resolve_loop fs i name)"
  proof (cases "?ls = 0")
    case True
    then show ?thesis
      using parent name path by simp
  next
    case False
    then have "path = parent @ slash # name"
      using ls parent name id_take_nth_drop [of ?ls path] by simp
    then have "tl path = tl parent @ slash # name"
      using \<open>parent \<noteq> []\<close> by (cases parent) auto
    then show ?thesis
      by (simp add: resolve_append)
  qed
qed

section \<open>Adding a leaf to the name space\<close>

text \<open>
  \<open>leaf_added C C' p n t\<close>: the name space \<open>C'\<close> is \<open>C\<close> with one new binding, of \<open>n\<close> in \<open>p\<close>, to a
  node \<open>t\<close> that has no children and that nothing else refers to.
\<close>

definition leaf_added ::
  "(u32 \<Rightarrow> cstring \<Rightarrow> u32 option) \<Rightarrow> (u32 \<Rightarrow> cstring \<Rightarrow> u32 option) \<Rightarrow> u32 \<Rightarrow> cstring \<Rightarrow> u32 \<Rightarrow> bool" where
  "leaf_added C C' p n t \<longleftrightarrow>
     C' = C(p := (C p)(n := Some t)) \<and> C p n = None \<and> C' t = Map.empty \<and> t \<noteq> 0 \<and> (\<forall>i c. C i c \<noteq> Some t)"

text \<open>Every resolution is either finished or looks up one component and goes on with a shorter path.\<close>

lemma resolve_cases:
  obtains (stop) "\<And>f cur. resolve_loop f cur q = Some cur"
  | (step) c r where "length r < length q"
      and "\<And>f cur. resolve_loop f cur q = Option.bind (child_of f cur c) (\<lambda>i. resolve_loop f i r)"
proof (cases "dropWhile (\<lambda>c. c = slash) q = []")
  case True
  then have "resolve_loop f cur q = Some cur" for f cur
    by (subst resolve_loop_child) (simp add: Let_def)
  then show ?thesis
    by (rule stop)
next
  case False
  let ?q = "dropWhile (\<lambda>c. c = slash) q"
  let ?c = "component ?q"
  have "?c \<noteq> []"
    using False hd_dropWhile [OF False] by (intro component_nonempty) auto
  then have "length (drop (length ?c) ?q) < length ?q"
    using False by (cases ?c; cases ?q) auto
  then have "length (drop (length ?c) ?q) < length q"
    using length_dropWhile_le [of "\<lambda>c. c = slash" q] by linarith
  moreover have "resolve_loop f cur q = Option.bind (child_of f cur ?c) (\<lambda>i. resolve_loop f i (drop (length ?c) ?q))" for f cur
    using False by (subst resolve_loop_child) (auto simp: Let_def simp del: dropWhile_eq_Nil_conv)
  ultimately show ?thesis
    by (rule step)
qed

lemma leaf_stays:
  assumes "child_of fs t = Map.empty"
  shows "resolve_loop fs t q = Some t \<or> resolve_loop fs t q = None"
  using assms by (cases q rule: resolve_cases) auto

lemma resolve_leaf_added:
  assumes "leaf_added (child_of fs) (child_of fs') p n t"
  shows "resolve_loop fs' cur q = resolve_loop fs cur q \<or>
     resolve_loop fs cur q = None \<and> resolve_loop fs' cur q = Some t"
proof (induction "length q" arbitrary: cur q rule: less_induct)
  case less
  show ?case
  proof (cases q rule: resolve_cases)
    case (step c r)
    show ?thesis
    proof (cases "cur = p \<and> c = n")
      case True
      then have "child_of fs cur c = None" "child_of fs' cur c = Some t" "child_of fs' t = Map.empty"
        using assms by (auto simp: leaf_added_def)
      then show ?thesis
        using step(2) leaf_stays [of fs' t r] by auto
    next
      case False
      then have same: "child_of fs' cur c = child_of fs cur c"
        using assms by (auto simp: leaf_added_def)
      show ?thesis
        using less [OF step(1)] unfolding step(2) same by (cases "child_of fs cur c") auto
    qed
  qed simp
qed

lemma resolve_unreferenced:
  assumes "\<And>i c. child_of fs i c \<noteq> Some t" and "cur \<noteq> t"
  shows "resolve_loop fs cur q \<noteq> Some t"
  using assms(2)
proof (induction "length q" arbitrary: cur q rule: less_induct)
  case less
  show ?case
  proof (cases q rule: resolve_cases)
    case (step c r)
    show ?thesis
    proof (cases "child_of fs cur c")
      case (Some i)
      then have "i \<noteq> t"
        using assms(1) by blast
      then show ?thesis
        using less(1) [OF step(1)] Some step(2) by auto
    qed (use step(2) in simp)
  qed (use less.prems in simp)
qed

lemma resolve_path_loop:
  "ramfs_resolve_path q fs =
     (if q = [] \<or> hd q \<noteq> slash then - 1 else case resolve_loop fs 0 (tl q) of Some i \<Rightarrow> uint i | None \<Rightarrow> - 1)"
  by (auto simp: ramfs_resolve_path_def)

text \<open>What a new leaf changes for whole paths.\<close>

lemma path_leaf_added:
  assumes "leaf_added (child_of fs) (child_of fs') p n t"
  shows "ramfs_resolve_path q fs = (if ramfs_resolve_path q fs' = uint t then - 1 else ramfs_resolve_path q fs')"
proof -
  have t: "t \<noteq> 0" "\<And>i c. child_of fs i c \<noteq> Some t"
    using assms by (auto simp: leaf_added_def)
  have ne: "resolve_loop fs 0 (tl q) \<noteq> Some t"
    by (rule resolve_unreferenced) (use t in auto)
  have pos: "uint t \<noteq> - 1"
    using uint_ge_0 [of t] by linarith
  show ?thesis
    using resolve_leaf_added [OF assms, of 0 "tl q"] ne pos
    by (auto simp: resolve_path_loop dest: word_uint_eqI split: option.splits)
qed

section \<open>Well-formed file systems\<close>

definition name_ok :: "cstring \<Rightarrow> bool" where
  "name_ok n \<longleftrightarrow> n \<noteq> [] \<and> slash \<notin> set n \<and> length n < VFS_NAME_MAX"

definition node_wf :: "vfs_inode \<Rightarrow> bool" where
  "node_wf n \<longleftrightarrow> (i_used n \<longrightarrow>
     i_type n = VFS_FILE \<and> length (i_bytes n) = unat (i_cap n) \<and> i_size n \<le> i_cap n \<or>
     i_type n = VFS_DIR \<and> distinct (map fst (i_ents n)) \<and> i_size n = 64 * of_nat (length (i_ents n)))"

definition ramfs_wf :: "ramfs \<Rightarrow> bool" where
  "ramfs_wf fs \<longleftrightarrow> length fs = VFS_MAX_INODES \<and> i_used (fs ! 0) \<and> i_type (fs ! 0) = VFS_DIR \<and>
     (\<forall>n \<in> set fs. node_wf n) \<and>
     (\<forall>i n c. child_of fs i n = Some c \<longrightarrow> c \<noteq> 0 \<and> unat c < VFS_MAX_INODES \<and> i_used (fs ! unat c) \<and> name_ok n) \<and>
     (\<forall>i j n m c. child_of fs i n = Some c \<longrightarrow> child_of fs j m = Some c \<longrightarrow> i = j \<and> n = m)"

lemma dir_lookup_map_of: "dir_lookup d = map_of (i_ents d)"
proof
  fix n
  have "map_option (\<lambda>i. snd (es ! i)) (first_idx (\<lambda>e. fst e = n) es) = map_of es n" for es :: "(cstring \<times> u32) list"
    by (induction es) (auto simp: option.map_comp o_def simp del: first_idx_None_iff)
  then show "dir_lookup d n = map_of (i_ents d) n"
    by (simp add: dir_lookup_def)
qed

definition node_children :: "vfs_inode \<Rightarrow> cstring \<Rightarrow> u32 option" where
  "node_children n = (if i_used n \<and> i_type n = VFS_DIR then map_of (i_ents n) else Map.empty)"

lemma child_of_nth: "child_of fs i = (if unat i < VFS_MAX_INODES then node_children (fs ! unat i) else Map.empty)"
  by (auto simp: child_of_def ramfs_get_inode_def node_children_def dir_lookup_map_of word_le_nat_alt VFS_MAX_INODES_def
      fun_eq_iff)

lemma unat_inode: "k < VFS_MAX_INODES \<Longrightarrow> unat (of_nat k :: u32) = k"
  by (simp add: VFS_MAX_INODES_def unat_of_nat)

lemma child_of_update:
  "length fs = VFS_MAX_INODES \<Longrightarrow> k < VFS_MAX_INODES \<Longrightarrow>
     child_of (fs[k := n]) = (child_of fs)(of_nat k := node_children n)"
  by (auto simp: child_of_nth fun_eq_iff nth_list_update unat_inode)

lemma ramfs_wfD:
  assumes "ramfs_wf fs"
  shows "length fs = VFS_MAX_INODES" and "i_used (fs ! 0)" and "i_type (fs ! 0) = VFS_DIR"
    and "k < VFS_MAX_INODES \<Longrightarrow> node_wf (fs ! k)"
    and "child_of fs i n = Some c \<Longrightarrow> c \<noteq> 0 \<and> unat c < VFS_MAX_INODES \<and> i_used (fs ! unat c) \<and> name_ok n"
    and "child_of fs i n = Some c \<Longrightarrow> child_of fs j m = Some c \<Longrightarrow> i = j \<and> n = m"
  using assms unfolding ramfs_wf_def by (blast | simp)+

lemma ramfs_wfI:
  assumes "length fs = VFS_MAX_INODES" and "i_used (fs ! 0)" and "i_type (fs ! 0) = VFS_DIR"
    and "\<And>n. n \<in> set fs \<Longrightarrow> node_wf n"
    and "\<And>i n c. child_of fs i n = Some c \<Longrightarrow> c \<noteq> 0 \<and> unat c < VFS_MAX_INODES \<and> i_used (fs ! unat c) \<and> name_ok n"
    and "\<And>i j n m c. child_of fs i n = Some c \<Longrightarrow> child_of fs j m = Some c \<Longrightarrow> i = j \<and> n = m"
  shows "ramfs_wf fs"
  unfolding ramfs_wf_def using assms by blast

text \<open>An update that leaves the name space alone.\<close>

lemma ramfs_wf_update:
  assumes "ramfs_wf fs" and "k < VFS_MAX_INODES" and "node_wf n" and "node_children n = node_children (fs ! k)"
    and "i_used (fs ! k) \<Longrightarrow> i_used n" and "k = 0 \<Longrightarrow> i_type n = VFS_DIR"
  shows "ramfs_wf (fs[k := n])" and "child_of (fs[k := n]) = child_of fs"
proof -
  have len: "length fs = VFS_MAX_INODES"
    using assms(1) by (rule ramfs_wfD)
  show same: "child_of (fs[k := n]) = child_of fs"
    using assms(2,4) by (auto simp: child_of_update [OF len assms(2)] fun_eq_iff child_of_nth unat_inode)
  have "\<forall>n' \<in> set (fs[k := n]). node_wf n'"
    using assms(1,3) set_update_subset_insert [of fs k n] unfolding ramfs_wf_def by blast
  moreover have "c \<noteq> 0 \<and> unat c < VFS_MAX_INODES \<and> i_used (fs[k := n] ! unat c) \<and> name_ok m"
    if "child_of fs i m = Some c" for i m c
    using ramfs_wfD(5) [OF assms(1) that] assms(5) len by (cases "k = unat c") auto
  ultimately show "ramfs_wf (fs[k := n])"
    using assms(1,2,5,6) len ramfs_wfD(6) [OF assms(1)] unfolding ramfs_wf_def same
    by (auto simp: nth_list_update)
qed

text \<open>A directory has fewer entries than there are inodes, so its size never wraps.\<close>

lemma dir_entries_bound:
  assumes "ramfs_wf fs" and "k < VFS_MAX_INODES" and "i_used (fs ! k)" and "i_type (fs ! k) = VFS_DIR"
  shows "length (i_ents (fs ! k)) < VFS_MAX_INODES"
proof -
  let ?es = "i_ents (fs ! k)"
  have node: "child_of fs (of_nat k) = map_of ?es"
    using assms by (simp add: child_of_nth node_children_def unat_inode)
  have dist: "distinct (map fst ?es)"
    using ramfs_wfD(4) [OF assms(1,2)] assms(3,4) by (simp add: node_wf_def)
  have look: "child_of fs (of_nat k) n = Some c" if "(n, c) \<in> set ?es" for n c
    using that dist node by simp
  have inj: "inj_on (\<lambda>e. unat (snd e)) (set ?es)"
  proof (rule inj_onI)
    fix e f assume e: "e \<in> set ?es" and f: "f \<in> set ?es" and "unat (snd e) = unat (snd f)"
    then have eq: "snd e = snd f"
      by (simp add: word_unat_eq_iff)
    have "fst e = fst f"
      using ramfs_wfD(6) [OF assms(1) look [of "fst e" "snd e"] look [of "fst f" "snd e"]] e f eq by (metis prod.collapse)
    then show "e = f"
      using eq by (rule prod_eqI)
  qed
  have sub: "(\<lambda>e. unat (snd e)) ` set ?es \<subseteq> {1..<VFS_MAX_INODES}"
    using ramfs_wfD(5) [OF assms(1)] look by (fastforce simp: Suc_le_eq unat_gt_0)
  have "length ?es = card (set ?es)"
    using dist by (simp add: distinct_card distinct_map)
  also have "\<dots> = card ((\<lambda>e. unat (snd e)) ` set ?es)"
    using card_image [OF inj] by simp
  also have "\<dots> \<le> card {1..<VFS_MAX_INODES}"
    using sub by (intro card_mono) auto
  finally show ?thesis
    by (simp add: VFS_MAX_INODES_def)
qed

lemma leaf_addedI:
  assumes "ramfs_wf fs" and "length fs' = VFS_MAX_INODES"
    and "child_of fs' = (child_of fs)(p := (child_of fs p)(n \<mapsto> t))" and "child_of fs p n = None"
    and "t \<noteq> 0" and "t \<noteq> p" and "child_of fs t = Map.empty" and "\<And>i c. child_of fs i c \<noteq> Some t"
  shows "leaf_added (child_of fs) (child_of fs') p n t"
  using assms by (auto simp: leaf_added_def)

lemma node_children_add:
  assumes "i_used d" and "i_type d = VFS_DIR" and "map_of (i_ents d) n = None"
  shows "node_children (d\<lparr>i_ents := i_ents d @ [(n, c)], i_size := sz\<rparr>) = (node_children d)(n \<mapsto> c)"
    and "node_children (d\<lparr>i_ents := i_ents d @ [(n, c)], i_cap := cp, i_size := sz\<rparr>) = (node_children d)(n \<mapsto> c)"
  using assms by (auto simp: node_children_def fun_eq_iff map_add_def split: option.splits)

lemma dir_size_step:
  assumes "m < VFS_MAX_INODES"
  shows "(64 * of_nat m div 64 + 1) * 64 = (64 * of_nat (Suc m) :: u32)"
proof -
  have "unat (64 * of_nat m :: u32) = 64 * m"
    using assms by (simp add: unat_word_ariths unat_of_nat VFS_MAX_INODES_def)
  then have "(64 * of_nat m :: u32) div 64 = of_nat m"
    by (simp add: word_unat_eq_iff unat_div unat_of_nat) (use assms in \<open>simp add: VFS_MAX_INODES_def\<close>)
  then show ?thesis
    by (simp add: algebra_simps)
qed

lemma ramfs_wf_link:
  assumes wf: "ramfs_wf fs" and p: "p < VFS_MAX_INODES" "i_used (fs ! p)" "i_type (fs ! p) = VFS_DIR"
    and n: "name_ok n" "child_of fs (of_nat p) n = None"
    and t: "t < VFS_MAX_INODES" "t \<noteq> 0" "t \<noteq> p" "i_used (fs ! t)" "child_of fs (of_nat t) = Map.empty"
    and unref: "\<And>i c. child_of fs i c \<noteq> Some (of_nat t)"
    and d: "i_used d" "i_type d = VFS_DIR" "i_ents d = i_ents (fs ! p) @ [(n, of_nat t)]"
      "i_size d = 64 * of_nat (length (i_ents d))"
  shows "ramfs_wf (fs[p := d])" and "leaf_added (child_of fs) (child_of (fs[p := d])) (of_nat p) n (of_nat t)"
proof -
  let ?C = "child_of fs" and ?C' = "child_of (fs[p := d])"
  have len: "length fs = VFS_MAX_INODES"
    using wf by (rule ramfs_wfD)
  have Cp: "?C (of_nat p) = map_of (i_ents (fs ! p))"
    using p by (simp add: child_of_nth node_children_def unat_inode)
  have nc: "node_children d = (?C (of_nat p))(n \<mapsto> of_nat t)"
    using d n(2) Cp by (auto simp: node_children_def fun_eq_iff map_add_def split: option.splits)
  then have C': "?C' = ?C(of_nat p := (?C (of_nat p))(n \<mapsto> of_nat t))"
    by (simp add: child_of_update [OF len p(1)])
  have tw: "(of_nat t :: u32) \<noteq> 0" "(of_nat t :: u32) \<noteq> of_nat p"
    using t(1-3) p(1) by (metis unat_0 unat_inode, metis unat_inode)
  show "leaf_added ?C ?C' (of_nat p) n (of_nat t)"
    using n(2) t(5) tw unref by (auto simp: leaf_added_def C')
  have old: "\<And>i m c. ?C' i m = Some c \<Longrightarrow> ?C i m = Some c \<or> i = of_nat p \<and> m = n \<and> c = of_nat t"
    by (auto simp: C' split: if_splits)
  have "distinct (map fst (i_ents d))"
    using ramfs_wfD(4) [OF wf p(1)] p(2,3) d(3) n(2) Cp by (auto simp: node_wf_def map_of_eq_None_iff)
  then have "node_wf d"
    using d by (simp add: node_wf_def)
  then have nodes: "node_wf n'" if "n' \<in> set (fs[p := d])" for n'
    using that wf set_update_subset_insert [of fs p d] unfolding ramfs_wf_def by blast
  have used: "i_used (fs[p := d] ! k)" if "i_used (fs ! k)" for k
    using that d(1) p(1) len by (cases "k = p") auto
  have valid: "c \<noteq> 0 \<and> unat c < VFS_MAX_INODES \<and> i_used (fs[p := d] ! unat c) \<and> name_ok m" if "?C' i m = Some c" for i m c
    using old [OF that] ramfs_wfD(5) [OF wf, of i m c] used t(1,4) tw(1) n(1) by (auto simp: unat_inode)
  have uniq: "i = j \<and> m = m'" if "?C' i m = Some c" "?C' j m' = Some c" for i j m m' c
    using old [OF that(1)] old [OF that(2)] ramfs_wfD(6) [OF wf] unref by blast
  have "i_type (fs[p := d] ! 0) = VFS_DIR"
    using ramfs_wfD(3) [OF wf] d(2) p(1) len by (cases p) auto
  then show "ramfs_wf (fs[p := d])"
    using len used [OF ramfs_wfD(2) [OF wf]] nodes valid uniq by (intro ramfs_wfI) simp_all
qed

lemma resolve_used:
  assumes wf: "ramfs_wf fs" and "unat cur < VFS_MAX_INODES" and "i_used (fs ! unat cur)" and "resolve_loop fs cur q = Some i"
  shows "unat i < VFS_MAX_INODES \<and> i_used (fs ! unat i)"
  using assms(2-)
proof (induction "length q" arbitrary: cur q rule: less_induct)
  case less
  show ?case
  proof (cases q rule: resolve_cases)
    case (step c r)
    then obtain k where k: "child_of fs cur c = Some k" "resolve_loop fs k r = Some i"
      using less.prems(3) by (cases "child_of fs cur c") auto
    then show ?thesis
      using less(1) [OF step(1) _ _ k(2)] ramfs_wfD(5) [OF wf k(1)] by simp
  qed (use less.prems in auto)
qed

section \<open>Creation\<close>

text \<open>The inode a creation fills in: an empty file or an empty directory.\<close>

definition new_node :: "(u16 \<times> u16) option \<Rightarrow> u32 \<Rightarrow> u16 \<Rightarrow> vfs_inode" where
  "new_node cur type mode = set_owner cur (inode_zero\<lparr>i_used := True, i_type := type, i_mode := mode\<rparr>)"

lemma new_node_props:
  "i_used (new_node cur ty mode)" "i_type (new_node cur ty mode) = ty" "i_ents (new_node cur ty mode) = []"
  "node_children (new_node cur ty mode) = Map.empty"
  "ty = VFS_FILE \<or> ty = VFS_DIR \<Longrightarrow> node_wf (new_node cur ty mode)"
  by (auto simp: new_node_def set_owner_def inode_zero_def node_children_def node_wf_def split: option.splits)

lemma create_node_alt:
  assumes "alloc_inode fs = Some (ino, fs1)"
  shows "ino < length fs" and "\<not> i_used (fs ! ino)"
    and "create_node km cur type mode p name fs =
      (case dir_add_entry km p name (of_nat ino) (fs[ino := new_node cur type mode]) of
         None \<Rightarrow> (- 1, fs[ino := (new_node cur type mode)\<lparr>i_used := False\<rparr>])
       | Some fs3 \<Rightarrow> (int ino, fs3))"
proof -
  have a: "first_idx (\<lambda>n. \<not> i_used n) fs = Some ino" "fs1 = fs[ino := inode_zero\<lparr>i_used := True\<rparr>]"
    using assms by (auto simp: alloc_inode_def split: option.splits)
  then show ino: "ino < length fs" "\<not> i_used (fs ! ino)"
    by (auto dest: first_idx_SomeD)
  show "create_node km cur type mode p name fs =
      (case dir_add_entry km p name (of_nat ino) (fs[ino := new_node cur type mode]) of
         None \<Rightarrow> (- 1, fs[ino := (new_node cur type mode)\<lparr>i_used := False\<rparr>])
       | Some fs3 \<Rightarrow> (int ino, fs3))"
    using ino a(2) by (simp add: create_node_def assms new_node_def Let_def inode_zero_def cong: option.case_cong)
qed

lemma dir_add_entry_Some:
  assumes wf: "ramfs_wf fs" and p: "unat p < VFS_MAX_INODES" "i_used (fs ! unat p)" and n: "length name < VFS_NAME_MAX"
    and add: "dir_add_entry km p name c fs = Some fs'"
  obtains d where "fs' = fs[unat p := d]" and "i_type (fs ! unat p) = VFS_DIR" and "i_used d" and "i_type d = VFS_DIR"
    and "i_ents d = i_ents (fs ! unat p) @ [(name, c)]" and "i_size d = 64 * of_nat (length (i_ents d))"
proof -
  let ?d = "fs ! unat p"
  have dir: "i_type ?d = VFS_DIR"
    using add by (auto simp: dir_add_entry_def Let_def split: if_splits)
  have "i_size ?d = 64 * of_nat (length (i_ents ?d))"
    using ramfs_wfD(4) [OF wf p(1)] p(2) dir by (simp add: node_wf_def)
  then have sz: "(i_size ?d div 64 + 1) * 64 = 64 * of_nat (Suc (length (i_ents ?d)))"
    using dir_size_step [OF dir_entries_bound [OF wf p dir]] by simp
  have cut: "field_copy VFS_NAME_MAX name = name"
    using n by (simp add: field_copy_def)
  define sz' where "sz' = (i_size ?d div 64 + 1) * 64"
  let ?d1 = "?d\<lparr>i_ents := i_ents ?d @ [(name, c)], i_size := sz'\<rparr>"
  let ?d2 = "\<lambda>cap. ?d\<lparr>i_ents := i_ents ?d @ [(name, c)], i_cap := cap, i_size := sz'\<rparr>"
  have "fs' = fs[unat p := ?d1] \<or> (\<exists>cap. fs' = fs[unat p := ?d2 cap])"
    using add dir unfolding dir_add_entry_def Let_def cut sz'_def [symmetric]
    by (auto split: if_splits option.splits)
  then show ?thesis
    using that [of ?d1] that [of "?d2 _"] p(2) dir sz sz'_def by auto
qed

lemma create_node_correct:
  assumes wf: "ramfs_wf fs" and p: "unat p < VFS_MAX_INODES" "i_used (fs ! unat p)"
    and n: "name_ok name" "child_of fs p name = None" and ty: "ty = VFS_FILE \<or> ty = VFS_DIR"
    and c: "create_node km cur ty mode p name fs = (r, fs')"
  shows "ramfs_wf fs' \<and> (r = - 1 \<and> child_of fs' = child_of fs \<or>
     (\<exists>ino < VFS_MAX_INODES. r = int ino \<and> \<not> i_used (fs ! ino) \<and> fs' ! ino = new_node cur ty mode \<and>
        leaf_added (child_of fs) (child_of fs') p name (of_nat ino)))"
proof (cases "alloc_inode fs")
  case None
  then show ?thesis
    using c wf by (simp add: create_node_def)
next
  case (Some a)
  obtain ino fs1 where a: "alloc_inode fs = Some (ino, fs1)"
    using Some by (cases a) auto
  let ?n = "new_node cur ty mode"
  have len: "length fs = VFS_MAX_INODES"
    using wf by (rule ramfs_wfD)
  have ino: "ino < VFS_MAX_INODES" "\<not> i_used (fs ! ino)"
    using create_node_alt(1,2) [OF a] len by auto
  have ino0: "ino \<noteq> 0" and inop: "ino \<noteq> unat p"
    using ino(2) ramfs_wfD(2) [OF wf] p(2) by metis+
  have empty: "node_children (fs ! ino) = Map.empty"
    using ino(2) by (simp add: node_children_def)
  have fs2: "ramfs_wf (fs[ino := ?n])" "child_of (fs[ino := ?n]) = child_of fs"
    using ramfs_wf_update [OF wf ino(1), of ?n] new_node_props ty ino(2) ino0 empty by auto
  show ?thesis
  proof (cases "dir_add_entry km p name (of_nat ino) (fs[ino := ?n])")
    case None
    have "ramfs_wf (fs[ino := ?n\<lparr>i_used := False\<rparr>])" "child_of (fs[ino := ?n\<lparr>i_used := False\<rparr>]) = child_of fs"
      using ramfs_wf_update [OF wf ino(1), of "?n\<lparr>i_used := False\<rparr>"] ino(2) ino0 empty
      by (auto simp: node_wf_def node_children_def)
    then show ?thesis
      using c create_node_alt(3) [OF a, of km cur ty mode p name] None by simp
  next
    case (Some fs3)
    have p2: "i_used (fs[ino := ?n] ! unat p)"
      using p(2) inop by simp
    obtain d where d: "fs3 = (fs[ino := ?n])[unat p := d]" "i_type (fs[ino := ?n] ! unat p) = VFS_DIR" "i_used d"
        "i_type d = VFS_DIR" "i_ents d = i_ents (fs[ino := ?n] ! unat p) @ [(name, of_nat ino)]"
        "i_size d = 64 * of_nat (length (i_ents d))"
      using dir_add_entry_Some [OF fs2(1) p(1) p2 _ Some] n(1) unfolding name_ok_def by blast
    have unref: "child_of fs i c \<noteq> Some (of_nat ino)" for i c
      using ramfs_wfD(5) [OF wf, of i c "of_nat ino"] ino by (auto simp: unat_inode)
    have e: "child_of fs (of_nat ino) = Map.empty"
      using empty ino(1) by (simp add: child_of_nth unat_inode)
    have "ramfs_wf fs3" "leaf_added (child_of fs) (child_of fs3) p name (of_nat ino)"
      using ramfs_wf_link [OF fs2(1) p(1) p2 d(2) n(1) _ ino(1) ino0 inop _ _ _ d(3-6)] new_node_props(1) ino(1) len n(2) e unref
      unfolding d(1) fs2(2) by simp_all
    moreover have "fs3 ! ino = ?n"
      using d(1) ino(1) inop len by simp
    ultimately show ?thesis
      using c create_node_alt(3) [OF a, of km cur ty mode p name] Some ino by auto
  qed
qed

section \<open>Paths and operations\<close>

lemma parent_resolved:
  assumes wf: "ramfs_wf fs" and sp: "split_path path = SplitOk parent name" and "0 \<le> ramfs_resolve_path parent fs"
  obtains p where "ramfs_resolve_path parent fs = uint p" and "resolve_loop fs 0 (tl parent) = Some p"
    and "unat p < VFS_MAX_INODES" and "i_used (fs ! unat p)"
    and "ramfs_resolve_path path fs = (case resolve_loop fs p name of Some i \<Rightarrow> uint i | None \<Rightarrow> - 1)"
proof -
  note ok = split_path_ok [OF sp]
  obtain p where p: "resolve_loop fs 0 (tl parent) = Some p" "ramfs_resolve_path parent fs = uint p"
    using assms(3) ok(3,4) by (auto simp: resolve_path_loop split: option.splits)
  have "unat p < VFS_MAX_INODES \<and> i_used (fs ! unat p)"
    using resolve_used [OF wf _ _ p(1)] ramfs_wfD(2) [OF wf] by (simp add: VFS_MAX_INODES_def)
  moreover have "ramfs_resolve_path path fs = (case resolve_loop fs p name of Some i \<Rightarrow> uint i | None \<Rightarrow> - 1)"
    using ok(5,6,8) p(1) by (simp add: resolve_path_loop)
  ultimately show ?thesis
    using that p by blast
qed

lemma resolve_child:
  assumes "split_path path = SplitOk parent name" and "name \<noteq> []"
  shows "name_ok name" and "resolve_loop fs p name = child_of fs p name"
  using split_path_ok(1,2) [OF assms(1)] assms(2) resolve_name [of name fs p] by (auto simp: name_ok_def)

lemma new_leaf_path:
  assumes sp: "split_path path = SplitOk parent name" "name \<noteq> []" and p: "resolve_loop fs 0 (tl parent) = Some p"
    and leaf: "leaf_added (child_of fs) (child_of fs') p name t"
  shows "ramfs_resolve_path path fs' = uint t"
proof -
  have "resolve_loop fs' 0 (tl parent) = Some p"
    using resolve_leaf_added [OF leaf, of 0 "tl parent"] p by auto
  moreover have "resolve_loop fs' p name = Some t"
    using resolve_child(2) [OF sp, of fs' p] leaf by (simp add: leaf_added_def)
  ultimately show ?thesis
    using split_path_ok(5,6,8) [OF sp(1)] by (simp add: resolve_path_loop)
qed

lemma create_path:
  assumes wf: "ramfs_wf fs" and sp: "split_path path = SplitOk parent name"
    and par: "0 \<le> ramfs_resolve_path parent fs" and new: "ramfs_resolve_path path fs < 0"
    and ty: "ty = VFS_FILE \<or> ty = VFS_DIR"
    and c: "create_node km cur ty mode (word_of_int (ramfs_resolve_path parent fs)) name fs = (r, fs')"
  shows "ramfs_wf fs'"
    and "ramfs_resolve_path q fs = (if 0 \<le> r \<and> ramfs_resolve_path q fs' = r then - 1 else ramfs_resolve_path q fs')"
    and "ramfs_resolve_path q fs' = ramfs_resolve_path q fs \<or> ramfs_resolve_path q fs = - 1 \<and> 0 \<le> r \<and> ramfs_resolve_path q fs' = r"
    and "r = - 1 \<or> 0 \<le> r \<and> ramfs_resolve_path path fs' = r \<and> fs' ! nat r = new_node cur ty mode"
    and "name \<noteq> []" and "0 \<le> ramfs_resolve_path parent fs'"
proof -
  obtain p where p: "ramfs_resolve_path parent fs = uint p" "resolve_loop fs 0 (tl parent) = Some p"
      "unat p < VFS_MAX_INODES" "i_used (fs ! unat p)"
      "ramfs_resolve_path path fs = (case resolve_loop fs p name of Some i \<Rightarrow> uint i | None \<Rightarrow> - 1)"
    using parent_resolved [OF wf sp par] by blast
  have none: "resolve_loop fs p name = None"
    using new p(5) by (auto split: option.splits)
  then have ne: "name \<noteq> []"
    by auto
  note ch = resolve_child [OF sp ne]
  have "create_node km cur ty mode p name fs = (r, fs')"
    using c p(1) by simp
  from create_node_correct [OF wf p(3,4) ch(1) _ ty this] none ch(2)
  consider "ramfs_wf fs'" "r = - 1" "child_of fs' = child_of fs"
    | ino where "ramfs_wf fs'" "ino < VFS_MAX_INODES" "r = int ino" "fs' ! ino = new_node cur ty mode"
        "leaf_added (child_of fs) (child_of fs') p name (of_nat ino)"
    by auto
  then have main: "ramfs_wf fs' \<and> (\<forall>q. ramfs_resolve_path q fs =
        (if 0 \<le> r \<and> ramfs_resolve_path q fs' = r then - 1 else ramfs_resolve_path q fs')) \<and>
     (r = - 1 \<or> 0 \<le> r \<and> ramfs_resolve_path path fs' = r \<and> fs' ! nat r = new_node cur ty mode)"
  proof cases
    case 1
    have "resolve_loop fs' cur q = resolve_loop fs cur q" for cur q
    proof (induction "length q" arbitrary: cur q rule: less_induct)
      case less
      then show ?case
        by (cases q rule: resolve_cases) (auto simp: 1(3))
    qed
    then show ?thesis
      using 1 by (simp add: resolve_path_loop)
  next
    case 2
    have u: "uint (of_nat ino :: u32) = r"
      using unat_inode [OF 2(2)] 2(3) by (metis uint_nat)
    show ?thesis
      using 2(1,3,4) path_leaf_added [OF 2(5)] new_leaf_path [OF sp ne p(2) 2(5)] unfolding u by simp
  qed
  have q: "ramfs_resolve_path q fs = (if 0 \<le> r \<and> ramfs_resolve_path q fs' = r then - 1 else ramfs_resolve_path q fs')" for q
    using main by blast
  show "ramfs_wf fs'" and "r = - 1 \<or> 0 \<le> r \<and> ramfs_resolve_path path fs' = r \<and> fs' ! nat r = new_node cur ty mode"
    using main by blast+
  show "ramfs_resolve_path q fs = (if 0 \<le> r \<and> ramfs_resolve_path q fs' = r then - 1 else ramfs_resolve_path q fs')"
    by (rule q)
  show "ramfs_resolve_path q fs' = ramfs_resolve_path q fs \<or> ramfs_resolve_path q fs = - 1 \<and> 0 \<le> r \<and> ramfs_resolve_path q fs' = r"
    using q [of q] by (auto split: if_splits)
  show "name \<noteq> []"
    by (rule ne)
  show "0 \<le> ramfs_resolve_path parent fs'"
    using q [of parent] par by (auto split: if_splits)
qed

lemma map_of_remove:
  assumes "distinct (map fst es)" and "first_idx (\<lambda>e. fst e = n) es = Some i"
  shows "map_of (take i es @ drop (Suc i) es) = (map_of es)(n := None)"
  using assms
proof (induction es arbitrary: i)
  case (Cons e es)
  show ?case
  proof (cases "fst e = n")
    case True
    then have "map_of es n = None"
      using Cons.prems by (auto simp: map_of_eq_None_iff)
    then show ?thesis
      using Cons.prems True by (cases e) auto
  next
    case False
    then obtain k where k: "first_idx (\<lambda>e. fst e = n) es = Some k" "i = Suc k"
      using Cons.prems by auto
    then show ?thesis
      using Cons.IH [OF _ k(1)] Cons.prems False by (cases e) (auto simp: fun_eq_iff)
  qed
qed simp

lemma distinct_remove: "distinct (map fst es) \<Longrightarrow> distinct (map fst (take i es @ drop (Suc i) es))"
  using set_take_disj_set_drop_if_distinct [of "map fst es" i "Suc i"] distinct_take [of "map fst es" i]
    distinct_drop [of "map fst es" "Suc i"]
  by (simp add: take_map drop_map flip: set_map)

lemma ramfs_wf_unlink:
  assumes wf: "ramfs_wf fs" and p: "unat p < VFS_MAX_INODES" "i_used (fs ! unat p)" "i_type (fs ! unat p) = VFS_DIR"
    and t: "child_of fs p n = Some t" "i_type (fs ! unat t) = VFS_FILE"
    and fs': "fs' = (fs[unat p := remove_entry n (fs ! unat p)])[unat t := n']" and n': "\<not> i_used n'"
  shows "ramfs_wf fs'" and "leaf_added (child_of fs') (child_of fs) p n t"
proof -
  let ?d = "fs ! unat p" and ?C = "child_of fs"
  have len: "length fs = VFS_MAX_INODES"
    using wf by (rule ramfs_wfD)
  have tb: "t \<noteq> 0" "unat t < VFS_MAX_INODES" "t \<noteq> p"
    using ramfs_wfD(5) [OF wf t(1)] p(3) t(2) by auto
  then have tp: "unat t \<noteq> unat p"
    by (simp add: word_unat_eq_iff)
  have Cp: "?C p = map_of (i_ents ?d)"
    using p by (simp add: child_of_nth node_children_def)
  have wfd: "distinct (map fst (i_ents ?d))" "i_size ?d = 64 * of_nat (length (i_ents ?d))"
    using ramfs_wfD(4) [OF wf p(1)] p(2,3) by (auto simp: node_wf_def)
  obtain i where i: "first_idx (\<lambda>e. fst e = n) (i_ents ?d) = Some i"
    using t(1) Cp map_of_SomeD [of "i_ents ?d" n t] first_idx_exists [of "(n, t)" "i_ents ?d" "\<lambda>e. fst e = n"] by auto
  define d where "d = remove_entry n ?d"
  have d: "i_used d" "i_type d = VFS_DIR" "i_ents d = take i (i_ents ?d) @ drop (Suc i) (i_ents ?d)"
      "i_size d = i_size ?d - 64"
    using i p by (auto simp: d_def remove_entry_def)
  have il: "i < length (i_ents ?d)"
    using i by (rule first_idx_less)
  have "length (i_ents ?d) = Suc (length (i_ents d))"
    using il d(3) by simp
  then have "node_wf d"
    using d distinct_remove [OF wfd(1)] wfd(2) by (simp add: node_wf_def)
  then have nodes: "node_wf m" if "m \<in> set fs'" for m
    using that n' wf set_update_subset_insert [of "fs[unat p := d]" "unat t" n'] set_update_subset_insert [of fs "unat p" d]
    unfolding ramfs_wf_def fs' d_def by (auto simp: node_wf_def)
  have nc: "node_children d = (?C p)(n := None)" "node_children n' = Map.empty"
    using d map_of_remove [OF wfd(1) i] Cp n' by (auto simp: node_children_def)
  have Ct: "?C t = Map.empty"
    using t(2) by (auto simp: child_of_nth node_children_def)
  have C': "child_of fs' = ?C(p := (?C p)(n := None))"
    using p(1) tb(2) len nc Ct
    by (auto simp: fs' d_def [symmetric] child_of_update fun_eq_iff)
  have unref: "child_of fs' j m \<noteq> Some t" for j m
    using ramfs_wfD(6) [OF wf t(1), of j m] by (auto simp: C')
  show "leaf_added (child_of fs') ?C p n t"
    using t(1) tb(1,3) Ct unref unfolding leaf_added_def by (auto simp: C' fun_eq_iff)
  have sub: "child_of fs' j m = Some c \<Longrightarrow> ?C j m = Some c" for j m c
    by (auto simp: C' split: if_splits)
  have used: "i_used (fs' ! k)" if "i_used (fs ! k)" "k \<noteq> unat t" for k
    using that d(1) p(1) len by (cases "k = unat p") (auto simp: fs' d_def)
  have dir0: "i_type (fs' ! 0) = VFS_DIR"
    using ramfs_wfD(3) [OF wf] d(2) p(1) len tb(1) by (cases "unat p = 0") (auto simp: fs' d_def unat_eq_0)
  show "ramfs_wf fs'"
  proof (rule ramfs_wfI)
    show "i_used (fs' ! 0)"
      using used [OF ramfs_wfD(2) [OF wf]] tb(1) by (simp add: unat_eq_0)
    show "c \<noteq> 0 \<and> unat c < VFS_MAX_INODES \<and> i_used (fs' ! unat c) \<and> name_ok m" if "child_of fs' j m = Some c" for j m c
      using ramfs_wfD(5) [OF wf sub [OF that]] used [of "unat c"] unref that by (metis word_unat_eq_iff)
    show "j = k \<and> m = m'" if "child_of fs' j m = Some c" "child_of fs' k m' = Some c" for j k m m' c
      using ramfs_wfD(6) [OF wf sub sub] that by blast
  qed (use len dir0 nodes in \<open>auto simp: fs'\<close>)
qed

lemma get_inode_used: "unat i < VFS_MAX_INODES \<Longrightarrow> i_used (fs ! unat i) \<Longrightarrow> ramfs_get_inode i fs = Some (fs ! unat i)"
  by (simp add: ramfs_get_inode_def word_le_nat_alt VFS_MAX_INODES_def)

lemma unlink_path:
  assumes wf: "ramfs_wf fs" and u: "ramfs_unlink path fs = Some (r, fs')"
  shows "r = - 1 \<and> fs' = fs \<or>
     r = 0 \<and> ramfs_wf fs' \<and> 0 \<le> ramfs_resolve_path path fs \<and> i_type (fs ! nat (ramfs_resolve_path path fs)) = VFS_FILE \<and>
     (\<forall>q. ramfs_resolve_path q fs' =
        (if ramfs_resolve_path q fs = ramfs_resolve_path path fs then - 1 else ramfs_resolve_path q fs))"
proof (cases "r = - 1 \<and> fs' = fs")
  case False
  obtain parent name where sp: "split_path path = SplitOk parent name"
    using u False by (cases "split_path path") (auto simp: ramfs_unlink_def)
  let ?pi = "ramfs_resolve_path parent fs" and ?ti = "ramfs_resolve_path path fs"
  have pos: "0 \<le> ?pi" "0 \<le> ?ti"
    using u False by (auto simp: ramfs_unlink_def sp Let_def split: if_splits)
  obtain p where p: "?pi = uint p" "resolve_loop fs 0 (tl parent) = Some p" "unat p < VFS_MAX_INODES" "i_used (fs ! unat p)"
      "?ti = (case resolve_loop fs p name of Some i \<Rightarrow> uint i | None \<Rightarrow> - 1)"
    using parent_resolved [OF wf sp pos(1)] by blast
  obtain t where t: "resolve_loop fs p name = Some t" "?ti = uint t"
    using p(5) pos(2) by (cases "resolve_loop fs p name") simp_all
  have idx: "nat ?pi = unat p" "nat ?ti = unat t"
    using p(1) t(2) by simp_all
  have tv: "unat t < VFS_MAX_INODES" "i_used (fs ! unat t)"
    using resolve_used [OF wf p(3,4) t(1)] by auto
  define n' where "n' = (fs[unat p := remove_entry name (fs ! unat p)] ! unat t)\<lparr>i_bytes := [], i_used := False, i_size := 0, i_cap := 0\<rparr>"
  have "ramfs_unlink path fs =
     (if i_type (fs ! unat t) \<noteq> VFS_FILE \<or> i_type (fs ! unat p) \<noteq> VFS_DIR then Some (- 1, fs)
      else Some (0, (fs[unat p := remove_entry name (fs ! unat p)])[unat t := n']))"
    using p(3,4) tv pos unfolding ramfs_unlink_def sp n'_def
    by (simp add: Let_def idx get_inode_used t(2) p(1))
  then have dirs: "i_type (fs ! unat p) = VFS_DIR" "i_type (fs ! unat t) = VFS_FILE"
    and n': "fs' = (fs[unat p := remove_entry name (fs ! unat p)])[unat t := n']" and r: "r = 0"
    using u False by (auto split: if_splits)
  have ne: "name \<noteq> []"
    using t(1) dirs by auto
  have ch: "child_of fs p name = Some t"
    using resolve_child(2) [OF sp ne, of fs p] t(1) by simp
  have nu: "\<not> i_used n'"
    by (simp add: n'_def)
  note w = ramfs_wf_unlink [OF wf p(3,4) dirs(1) ch dirs(2) n' nu]
  show ?thesis
    using w(1) path_leaf_added [OF w(2)] r pos(2) dirs(2) idx(2) t(2) by auto
qed simp

lemma create_file_cases:
  assumes "ramfs_create_file km cur path fs = Some (r, fs')"
  obtains (same) "fs' = fs" and "r = - 1 \<or> 0 \<le> r \<and> ramfs_resolve_path path fs = r"
  | (new) parent name where "split_path path = SplitOk parent name" and "0 \<le> ramfs_resolve_path parent fs"
      and "ramfs_resolve_path path fs < 0"
      and "create_node km cur VFS_FILE 0x1A4 (word_of_int (ramfs_resolve_path parent fs)) name fs = (r, fs')"
  using assms by (auto simp: ramfs_create_file_def Let_def split: split.splits if_splits)

lemma create_dir_cases:
  assumes "ramfs_create_dir km cur path fs = Some (r, fs')"
  obtains (same) "fs' = fs" and "r = - 1"
  | (new) parent name where "split_path path = SplitOk parent name" and "0 \<le> ramfs_resolve_path parent fs"
      and "ramfs_resolve_path path fs < 0"
      and "create_node km cur VFS_DIR 0x1ED (word_of_int (ramfs_resolve_path parent fs)) name fs = (r, fs')"
  using assms by (auto simp: ramfs_create_dir_def Let_def split: split.splits if_splits)

lemma ramfs_init_wf: "ramfs_wf ramfs_init"
proof -
  have "set ramfs_init \<subseteq> {inode_zero, inode_zero\<lparr>i_used := True, i_type := VFS_DIR, i_mode := 0x1ED\<rparr>}"
    unfolding ramfs_init_def by (rule order.trans [OF set_update_subset_insert]) auto
  then have nodes: "n \<in> set ramfs_init \<Longrightarrow> node_wf n \<and> node_children n = Map.empty" for n
    by (auto simp: node_wf_def node_children_def inode_zero_def)
  have len: "length ramfs_init = VFS_MAX_INODES"
    by (simp add: ramfs_init_def)
  then have "child_of ramfs_init i = Map.empty" for i
    using nodes by (auto simp: child_of_nth)
  then show ?thesis
    using nodes len by (intro ramfs_wfI) (simp_all add: ramfs_init_def VFS_MAX_INODES_def)
qed

definition sample_create :: "(int \<times> ramfs) option" where
  "sample_create = ramfs_create_file (\<lambda>_. Some []) None [slash, 97] ramfs_init"

definition sample_fs :: ramfs where
  "sample_fs = snd (the sample_create)"

lemma sample_create_eval: "map_option fst sample_create = Some 1" "ramfs_resolve_path [slash, 97] ramfs_init = - 1"
  by code_simp+

lemma sample_create_eq: "ramfs_create_file (\<lambda>_. Some []) None [slash, 97] ramfs_init = Some (1, sample_fs)"
  using sample_create_eval(1) unfolding sample_fs_def sample_create_def by auto

text \<open>
  C22. Creating a file or a directory does what its caller expects of the name space: the file
  system stays well formed; a call that reports inode \<open>r\<close> leaves the path resolving to \<open>r\<close>, and a
  node that did not exist before is empty, with the right type, mode and owner; every other
  path resolves as before, so the only paths that change are those that now lead to the new node.
\<close>
theorem ramfs_create_correct:
  assumes "ramfs_wf fs"
    and "ramfs_create_file km cur path fs = Some (r, fs') \<and> node = new_node cur VFS_FILE 0x1A4 \<or>
         ramfs_create_dir km cur path fs = Some (r, fs') \<and> node = new_node cur VFS_DIR 0x1ED"
  shows "ramfs_wf fs' \<and> (r = - 1 \<or> 0 \<le> r \<and> ramfs_resolve_path path fs' = r) \<and>
     (ramfs_resolve_path path fs < 0 \<and> 0 \<le> r \<longrightarrow> fs' ! nat r = node) \<and>
     (\<forall>q. ramfs_resolve_path q fs' = ramfs_resolve_path q fs \<or>
          ramfs_resolve_path q fs = - 1 \<and> 0 \<le> r \<and> ramfs_resolve_path q fs' = r)"
  using assms(2)
proof (elim disjE conjE)
  assume c: "ramfs_create_file km cur path fs = Some (r, fs')" and n: "node = new_node cur VFS_FILE 0x1A4"
  from c show ?thesis
  proof (cases rule: create_file_cases)
    case (new parent name)
    note cp = create_path [OF assms(1) new(1-3) _ new(4)]
    show ?thesis
      using cp(1,3,4) n by auto
  qed (use assms(1) in auto)
next
  assume c: "ramfs_create_dir km cur path fs = Some (r, fs')" and n: "node = new_node cur VFS_DIR 0x1ED"
  from c show ?thesis
  proof (cases rule: create_dir_cases)
    case (new parent name)
    note cp = create_path [OF assms(1) new(1-3) _ new(4)]
    show ?thesis
      using cp(1,3,4) n by auto
  qed (use assms(1) in auto)
qed

theorem ramfs_create_correct_witness:
  "ramfs_wf sample_fs \<and> ramfs_resolve_path [slash, 97] sample_fs = 1"
  using ramfs_create_correct [OF ramfs_init_wf disjI1 [OF conjI [OF sample_create_eq refl]]] by auto

lemma sample_fs_wf: "ramfs_wf sample_fs"
  using sample_create_eq
proof (cases rule: create_file_cases)
  case (new parent name)
  from create_path(1) [OF ramfs_init_wf new(1-3) _ new(4)] show ?thesis
    by simp
qed (use sample_create_eval(2) in auto)

text \<open>
  C23. Removing a file takes away exactly the paths that lead to it: after a successful
  \<open>ramfs_unlink\<close> every path that resolved to the file's inode resolves to nothing and all other
  paths resolve as before; a call that fails changes nothing. The file system stays well formed.
\<close>
theorem ramfs_unlink_correct:
  assumes "ramfs_wf fs" and "ramfs_unlink path fs = Some (r, fs')"
  shows "ramfs_wf fs' \<and> (r = - 1 \<and> fs' = fs \<or>
     r = 0 \<and> 0 \<le> ramfs_resolve_path path fs \<and> i_type (fs ! nat (ramfs_resolve_path path fs)) = VFS_FILE \<and>
     (\<forall>q. ramfs_resolve_path q fs' =
        (if ramfs_resolve_path q fs = ramfs_resolve_path path fs then - 1 else ramfs_resolve_path q fs)))"
  using unlink_path [OF assms] assms(1) by blast

lemma unlink_succeeds:
  assumes wf: "ramfs_wf fs" and sp: "split_path path = SplitOk parent name" and "0 \<le> ramfs_resolve_path parent fs"
    and "0 \<le> ramfs_resolve_path path fs" and ne: "name \<noteq> []" and "i_type (fs ! nat (ramfs_resolve_path path fs)) = VFS_FILE"
  shows "\<exists>fs'. ramfs_unlink path fs = Some (0, fs')"
proof -
  obtain p where p: "ramfs_resolve_path parent fs = uint p" "unat p < VFS_MAX_INODES" "i_used (fs ! unat p)"
      "ramfs_resolve_path path fs = (case resolve_loop fs p name of Some i \<Rightarrow> uint i | None \<Rightarrow> - 1)"
    using parent_resolved [OF wf sp assms(3)] by blast
  obtain t where t: "resolve_loop fs p name = Some t" "ramfs_resolve_path path fs = uint t"
    using p(4) assms(4) by (cases "resolve_loop fs p name") simp_all
  have tv: "unat t < VFS_MAX_INODES" "i_used (fs ! unat t)"
    using resolve_used [OF wf p(2,3) t(1)] by auto
  have tf: "i_type (fs ! unat t) = VFS_FILE"
    using assms(6) t(2) by simp
  have "child_of fs p name = Some t"
    using resolve_child(2) [OF sp ne, of fs p] t(1) by simp
  then have "i_type (fs ! unat p) = VFS_DIR"
    using p(2) by (auto simp: child_of_nth node_children_def split: if_splits)
  then show ?thesis
    using p(1-3) tv tf t(2) unfolding ramfs_unlink_def sp
    by (simp add: Let_def get_inode_used)
qed

lemma sample_unlink: "map_option fst (ramfs_unlink [slash, 97] sample_fs) = Some 0" "ramfs_resolve_path [slash, 97] sample_fs = 1"
  by code_simp+

theorem ramfs_unlink_correct_witness:
  "ramfs_resolve_path [slash, 97] (snd (the (ramfs_unlink [slash, 97] sample_fs))) = - 1"
proof -
  have u: "ramfs_unlink [slash, 97] sample_fs = Some (0, snd (the (ramfs_unlink [slash, 97] sample_fs)))"
    using sample_unlink(1) by auto
  show ?thesis
    using ramfs_unlink_correct [OF sample_fs_wf u] by auto
qed

text \<open>
  C24. Creating a new file and removing it again is the identity on the name space: the removal
  succeeds, and afterwards every path resolves to what it resolved to before the creation.
\<close>
theorem ramfs_create_unlink_roundtrip:
  assumes "ramfs_wf fs" and "ramfs_resolve_path path fs < 0"
    and "ramfs_create_file km cur path fs = Some (r, fs1)" and "0 \<le> r"
  shows "\<exists>fs2. ramfs_unlink path fs1 = Some (0, fs2) \<and> ramfs_wf fs2 \<and>
     (\<forall>q. ramfs_resolve_path q fs2 = ramfs_resolve_path q fs)"
  using assms(3)
proof (cases rule: create_file_cases)
  case (new parent name)
  note cp = create_path [OF assms(1) new(1-3) _ new(4)]
  have r: "ramfs_resolve_path path fs1 = r" "i_type (fs1 ! nat r) = VFS_FILE"
    using cp(4) assms(4) new_node_props(2) by auto
  obtain fs2 where fs2: "ramfs_unlink path fs1 = Some (0, fs2)"
    using unlink_succeeds [OF cp(1) new(1) cp(6) _ cp(5)] r assms(4) by auto
  from unlink_path [OF cp(1) fs2] cp(2) assms(4) show ?thesis
    unfolding r(1) fs2 by auto
qed (use assms(2,4) in auto)

theorem ramfs_create_unlink_roundtrip_witness:
  "\<exists>fs2. ramfs_unlink [slash, 97] sample_fs = Some (0, fs2) \<and> ramfs_resolve_path [slash, 97] fs2 = - 1"
  using ramfs_create_unlink_roundtrip [OF ramfs_init_wf _ sample_create_eq] sample_create_eval(2) by auto

end
