(* ===== verification/OpRefinement.thy ===== *)
theory OpRefinement
  imports PlantPrelude
begin

text \<open>
  Functional refinement of a component by operations: a concrete state, an abstraction of it, and
  operations that return a result and a new state, or nothing when they are outside
  their contract. The interface asks for one operation at a time; its lemma gives sequences.
\<close>

fun run_ops :: "('op \<Rightarrow> 's \<Rightarrow> ('r \<times> 's) option) \<Rightarrow> 'op list \<Rightarrow> 's \<Rightarrow> ('r list \<times> 's) option" where
  "run_ops f [] s = Some ([], s)"
| "run_ops f (x # xs) s =
     (case f x s of
        None \<Rightarrow> None
      | Some (r, s1) \<Rightarrow> map_option (\<lambda>(rs, s2). (r # rs, s2)) (run_ops f xs s1))"

locale op_refinement =
  fixes ok :: "'s \<Rightarrow> bool" and abs_of :: "'s \<Rightarrow> 'a"
    and c_op :: "'op \<Rightarrow> 's \<Rightarrow> ('r \<times> 's) option" and a_op :: "'op \<Rightarrow> 'a \<Rightarrow> ('r \<times> 'a) option"
  assumes op_sim: "ok s \<Longrightarrow> a_op x (abs_of s) = Some (r, a) \<Longrightarrow> \<exists>s'. c_op x s = Some (r, s') \<and> ok s' \<and> abs_of s' = a"
begin

lemma run_sim:
  "ok s \<Longrightarrow> run_ops a_op xs (abs_of s) = Some (rs, a) \<Longrightarrow>
     \<exists>s'. run_ops c_op xs s = Some (rs, s') \<and> ok s' \<and> abs_of s' = a"
proof (induction xs arbitrary: s rs)
  case (Cons x xs)
  then obtain r a1 rs1 where 1: "a_op x (abs_of s) = Some (r, a1)" "run_ops a_op xs a1 = Some (rs1, a)" "rs = r # rs1"
    by (auto split: option.splits)
  obtain s1 where s1: "c_op x s = Some (r, s1)" "ok s1" "abs_of s1 = a1"
    using op_sim [OF Cons.prems(1) 1(1)] by blast
  then show ?case
    using Cons.IH [OF s1(2), of rs1] 1 by auto
qed auto

end

end
