(* ===== verification/VfsProps.thy ===== *)
theory VfsProps
  imports Vfs RamFsProps OpRefinement
begin

text \<open>
  Files behind descriptors. The abstract view of the RAM files is a map from inode numbers to byte
  strings together with a map from descriptors to an inode and a position; reads, writes
  and seeks of \<^verbatim>\<open>fs/vfs.c\<close> implement the operations one expects on it, for descriptors that share a
  file as well. The last part is about what the permission checks do not cover.
\<close>

unbundle bit_operations_syntax

section \<open>The abstract view\<close>

definition ram_file :: "vfs_state \<Rightarrow> u32 \<Rightarrow> u8 list option" where
  "ram_file s i =
     (case ramfs_get_inode i (inodes s) of
        None \<Rightarrow> None
      | Some n \<Rightarrow> if i_type n = VFS_FILE then Some (take (unat (i_size n)) (i_bytes n)) else None)"

definition ram_fd :: "vfs_state \<Rightarrow> int \<Rightarrow> (u32 \<times> nat) option" where
  "ram_fd s fd =
     (let f = fd_table s ! nat fd in
      if valid_fd fd s \<and> fat_fd f < 0 \<and> fd_pipe f = None \<and> ram_file s (fd_inode f) \<noteq> None
      then Some (fd_inode f, unat (fd_offset f)) else None)"

definition vfs_ok :: "vfs_state \<Rightarrow> bool" where
  "vfs_ok s \<longleftrightarrow> ramfs_wf (inodes s) \<and> length (fd_table s) = VFS_MAX_FDS"

type_synonym afs = "(u32 \<Rightarrow> u8 list option) \<times> (int \<Rightarrow> (u32 \<times> nat) option)"

definition vfs_abs :: "vfs_state \<Rightarrow> afs" where
  "vfs_abs s = (ram_file s, ram_fd s)"

datatype fop = FRead int u64 | FWrite int "u8 list" | FSeek int int int

text \<open>
  The abstract operations, with what the call returns. \<open>None\<close> marks a call outside the contract: a
  descriptor that is not a RAM file, a write that starts beyond the end of the file, or a
  position of \<open>2 ^ 31\<close> and more.
\<close>

fun afs_op :: "fop \<Rightarrow> afs \<Rightarrow> ((int \<times> u8 list) \<times> afs) option" where
  "afs_op (FRead fd n) (fs, fds) =
     (case fds fd of
        None \<Rightarrow> None
      | Some (i, off) \<Rightarrow>
          (let bs = take (unat n) (drop off (the (fs i))) in
           if length (the (fs i)) < 2 ^ 31 then Some ((int (length bs), bs), fs, fds(fd \<mapsto> (i, off + length bs))) else None))"
| "afs_op (FWrite fd data) (fs, fds) =
     (case fds fd of
        None \<Rightarrow> None
      | Some (i, off) \<Rightarrow>
          (let c = the (fs i) in
           if off \<le> length c \<and> off + length data < 2 ^ 31
           then Some ((int (length data), []), fs(i \<mapsto> take off c @ data @ drop (off + length data) c),
                      fds(fd \<mapsto> (i, off + length data)))
           else None))"
| "afs_op (FSeek fd d whence) (fs, fds) =
     (case fds fd of
        None \<Rightarrow> None
      | Some (i, off) \<Rightarrow>
          (let new = (if whence = 0 then d else if whence = 1 then int off + d else int (length (the (fs i))) + d) in
           if 0 \<le> whence \<and> whence \<le> 2 \<and> off < 2 ^ 31 \<and> length (the (fs i)) < 2 ^ 31 \<and> - (2 ^ 31) \<le> new \<and> new < 2 ^ 31
           then Some ((max new 0, []), fs, fds(fd \<mapsto> (i, nat new))) else None))"

text \<open>The same calls on the model of the code.\<close>

fun vfs_op :: "kenv \<Rightarrow> fop \<Rightarrow> vfs_state \<Rightarrow> ((int \<times> u8 list) \<times> vfs_state) option" where
  "vfs_op k (FRead fd n) s = map_option (\<lambda>(r, bs, s'). ((r, bs), s')) (vfs_read k fd n s)"
| "vfs_op k (FWrite fd data) s = map_option (\<lambda>(r, s'). ((r, []), s')) (vfs_write k fd data s)"
| "vfs_op k (FSeek fd d whence) s = map_option (\<lambda>(r, s'). ((r, []), s')) (vfs_lseek fd d whence s)"

text \<open>A heap that has memory left.\<close>

definition heap_serves :: "kenv \<Rightarrow> bool" where
  "heap_serves k \<longleftrightarrow> (\<forall>n. \<exists>b. ram_alloc k n = Some b \<and> length b = unat n)"

section \<open>Each operation implements its abstract counterpart\<close>

lemma get_inode_SomeD:
  "ramfs_get_inode i fs = Some n \<Longrightarrow> unat i < VFS_MAX_INODES \<and> n = fs ! unat i \<and> i_used n"
  by (auto simp: ramfs_get_inode_def word_le_nat_alt VFS_MAX_INODES_def split: if_splits)

lemma ram_fdE:
  assumes "ram_fd s fd = Some (i, off)" and "vfs_ok s"
  obtains f n where "valid_fd fd s" "nat fd < length (fd_table s)" "f = fd_table s ! nat fd" "fat_fd f < 0" "fd_pipe f = None"
    "fd_inode f = i" "unat (fd_offset f) = off" "ramfs_get_inode i (inodes s) = Some n" "i_type n = VFS_FILE"
    "length (i_bytes n) = unat (i_cap n)" "unat (i_size n) \<le> unat (i_cap n)"
    "ram_file s i = Some (take (unat (i_size n)) (i_bytes n))"
proof -
  define f where "f = fd_table s ! nat fd"
  have f: "valid_fd fd s" "fat_fd f < 0" "fd_pipe f = None" "ram_file s (fd_inode f) \<noteq> None"
      "fd_inode f = i" "unat (fd_offset f) = off"
    using assms(1) by (auto simp: ram_fd_def Let_def f_def split: if_splits)
  then obtain n where n: "ramfs_get_inode i (inodes s) = Some n" "i_type n = VFS_FILE"
      "ram_file s i = Some (take (unat (i_size n)) (i_bytes n))"
    by (auto simp: ram_file_def split: option.splits if_splits)
  have "node_wf n"
    using get_inode_SomeD [OF n(1)] ramfs_wfD(4) [of "inodes s" "unat i"] assms(2) by (simp add: vfs_ok_def)
  then have w: "length (i_bytes n) = unat (i_cap n)" "unat (i_size n) \<le> unat (i_cap n)"
    using get_inode_SomeD [OF n(1)] n(2) by (auto simp: node_wf_def word_le_nat_alt)
  have l: "nat fd < length (fd_table s)"
    using f(1) assms(2) by (auto simp: valid_fd_def vfs_ok_def VFS_MAX_FDS_def)
  show thesis
    by (rule that [OF f(1) l f_def f(2,3,5,6) n(1,2) w n(3)])
qed

lemma to_int_small: "n < 2 ^ 31 \<Longrightarrow> to_int n = int n"
  by (simp add: to_int_def sint_uint unat_of_nat signed_take_bit_int_eq_self take_bit_int_eq_self uint_nat)

lemma sint_small: "unat (w :: u32) < 2 ^ 31 \<Longrightarrow> sint w = int (unat w)"
  using to_int_small [of "unat w"] by (simp add: to_int_def)

text \<open>Moving the position of one descriptor.\<close>

lemma valid_fd_set_fd:
  "nat fd < length (fd_table s) \<Longrightarrow> valid_fd fd s \<Longrightarrow> fd_used f \<Longrightarrow> valid_fd fd' (set_fd (nat fd) f s) = valid_fd fd' s"
  by (auto simp: valid_fd_def set_fd_def nth_list_update)

lemma ram_fd_move:
  assumes "ram_fd s fd = Some (i, off)" and "vfs_ok s"
  shows "ram_fd (set_fd (nat fd) ((fd_table s ! nat fd)\<lparr>fd_offset := w\<rparr>) s) = (ram_fd s)(fd \<mapsto> (i, unat w))"
    and "ram_file (set_fd (nat fd) ((fd_table s ! nat fd)\<lparr>fd_offset := w\<rparr>) s) = ram_file s"
    and "vfs_ok (set_fd (nat fd) ((fd_table s ! nat fd)\<lparr>fd_offset := w\<rparr>) s)"
proof -
  let ?t = "set_fd (nat fd) ((fd_table s ! nat fd)\<lparr>fd_offset := w\<rparr>) s"
  obtain f n where f: "valid_fd fd s" "nat fd < length (fd_table s)" "f = fd_table s ! nat fd" "fat_fd f < 0" "fd_pipe f = None"
    "fd_inode f = i" "unat (fd_offset f) = off" "ramfs_get_inode i (inodes s) = Some n" "i_type n = VFS_FILE"
    "length (i_bytes n) = unat (i_cap n)" "unat (i_size n) \<le> unat (i_cap n)"
    "ram_file s i = Some (take (unat (i_size n)) (i_bytes n))"
    by (rule ram_fdE [OF assms])
  show data: "ram_file ?t = ram_file s"
    by (auto simp: ram_file_def set_fd_def fun_eq_iff)
  have pos: "0 \<le> fd" "fd_used f"
    using f(1,3) by (auto simp: valid_fd_def)
  have v: "valid_fd fd' ?t = valid_fd fd' s" for fd'
    using valid_fd_set_fd [OF f(2,1)] pos f(3) by simp
  have "ram_fd ?t fd' = ((ram_fd s)(fd \<mapsto> (i, unat w))) fd'" for fd'
  proof (cases "fd' = fd")
    case True
    then show ?thesis
      using f v data by (simp add: ram_fd_def set_fd_def)
  next
    case False
    then have "\<not> valid_fd fd' s \<or> nat fd' \<noteq> nat fd"
      using pos by (auto simp: valid_fd_def)
    then show ?thesis
      using False v data by (auto simp: ram_fd_def set_fd_def Let_def)
  qed
  then show "ram_fd ?t = (ram_fd s)(fd \<mapsto> (i, unat w))"
    by blast
  show "vfs_ok ?t"
    using assms(2) by (simp add: vfs_ok_def set_fd_def)
qed

lemma read_refines:
  assumes "vfs_ok s" and "afs_op (FRead fd n) (vfs_abs s) = Some (r, a)"
  shows "\<exists>s'. vfs_op k (FRead fd n) s = Some (r, s') \<and> vfs_ok s' \<and> vfs_abs s' = a"
proof -
  obtain i off where rf: "ram_fd s fd = Some (i, off)"
    using assms(2) by (auto simp: vfs_abs_def split: option.splits)
  obtain f nd where f: "valid_fd fd s" "nat fd < length (fd_table s)" "f = fd_table s ! nat fd" "fat_fd f < 0" "fd_pipe f = None"
    "fd_inode f = i" "unat (fd_offset f) = off" "ramfs_get_inode i (inodes s) = Some nd" "i_type nd = VFS_FILE"
    "length (i_bytes nd) = unat (i_cap nd)" "unat (i_size nd) \<le> unat (i_cap nd)"
    "ram_file s i = Some (take (unat (i_size nd)) (i_bytes nd))"
    by (rule ram_fdE [OF rf assms(1)])
  let ?c = "take (unat (i_size nd)) (i_bytes nd)"
  have lc: "length ?c = unat (i_size nd)"
    using f(10,11) by simp
  define bs where "bs = take (unat n) (drop off ?c)"
  have r: "length ?c < 2 ^ 31" "r = (int (length bs), bs)" "a = (ram_file s, (ram_fd s)(fd \<mapsto> (i, off + length bs)))"
    using assms(2) rf f(12) by (auto simp: vfs_abs_def bs_def Let_def split: if_splits)
  show ?thesis
  proof (cases "i_size nd \<le> fd_offset f")
    case True
    then have "bs = []"
      using lc f(7) by (simp add: bs_def word_le_nat_alt)
    moreover have "(ram_fd s)(fd \<mapsto> (i, off)) = ram_fd s"
      using rf by auto
    ultimately show ?thesis
      using True f r assms(1) by (simp add: vfs_read_def Let_def vfs_abs_def)
  next
    case False
    let ?n = "min (unat n) (unat (i_size nd - fd_offset f))"
    have lt: "off < unat (i_size nd)" "unat (i_size nd - fd_offset f) = unat (i_size nd) - off"
      using False f(7) by (simp_all add: word_le_nat_alt unat_sub_le)
    have len: "length bs = ?n"
      using lc lt by (simp add: bs_def min.commute)
    have bs: "take ?n (drop off (i_bytes nd)) = bs"
      using lt by (simp add: bs_def drop_take min.commute)
    have ti: "to_int ?n = int (length bs)"
      using r(1) lc len lt(2) by (subst to_int_small) (auto simp: min_def)
    have off: "unat (fd_offset f + of_nat ?n) = off + length bs"
    proof -
      have un: "unat (of_nat ?n :: u32) = ?n"
        using unat_bound [of "i_size nd - fd_offset f"] by (simp add: unat_of_nat min_less_iff_disj)
      have "off + ?n \<le> unat (i_size nd)"
        using lt by linarith
      then have "unat (fd_offset f) + unat (of_nat ?n :: u32) < 2 ^ 32"
        unfolding un f(7) using r(1) lc by simp
      then show ?thesis
        using unat_add_no_overflow [of "fd_offset f" "of_nat ?n"] un len f(7) by simp
    qed
    have "vfs_read k fd n s = Some (to_int ?n, take ?n (drop (unat (fd_offset f)) (i_bytes nd)),
        set_fd (nat fd) (f\<lparr>fd_offset := fd_offset f + of_nat ?n\<rparr>) s)"
      using False f(1,4,6,8,9) unfolding vfs_read_def f(3) [symmetric] Let_def by simp
    then show ?thesis
      using ram_fd_move [OF rf assms(1), of "fd_offset f + of_nat ?n"] unfolding f(3) [symmetric] f(7) bs ti off r(2,3) vfs_abs_def
      by simp
  qed
qed

lemma seek_refines:
  assumes "vfs_ok s" and "afs_op (FSeek fd d whence) (vfs_abs s) = Some (r, a)"
  shows "\<exists>s'. vfs_op k (FSeek fd d whence) s = Some (r, s') \<and> vfs_ok s' \<and> vfs_abs s' = a"
proof -
  obtain i off where rf: "ram_fd s fd = Some (i, off)"
    using assms(2) by (auto simp: vfs_abs_def split: option.splits)
  obtain f nd where f: "valid_fd fd s" "nat fd < length (fd_table s)" "f = fd_table s ! nat fd" "fat_fd f < 0" "fd_pipe f = None"
    "fd_inode f = i" "unat (fd_offset f) = off" "ramfs_get_inode i (inodes s) = Some nd" "i_type nd = VFS_FILE"
    "length (i_bytes nd) = unat (i_cap nd)" "unat (i_size nd) \<le> unat (i_cap nd)"
    "ram_file s i = Some (take (unat (i_size nd)) (i_bytes nd))"
    by (rule ram_fdE [OF rf assms(1)])
  have lc: "length (take (unat (i_size nd)) (i_bytes nd)) = unat (i_size nd)"
    using f(10,11) by simp
  define new where "new = (if whence = 0 then d else if whence = 1 then int off + d else int (unat (i_size nd)) + d)"
  have r: "0 \<le> whence" "whence \<le> 2" "off < 2 ^ 31" "unat (i_size nd) < 2 ^ 31" "- (2 ^ 31) \<le> new" "new < 2 ^ 31"
      "r = (max new 0, [])" "a = (ram_file s, (ram_fd s)(fd \<mapsto> (i, nat new)))"
    using assms(2) rf f(12) unfolding vfs_abs_def afs_op.simps new_def
    by (auto simp only: lc Let_def option.sel option.case prod.case split: if_splits)
  have so: "sint (fd_offset f) = int off" "sint (i_size nd) = int (unat (i_size nd))"
    using sint_small r(3,4) unfolding f(7) [symmetric] by blast+
  have un: "unat (word_of_int (max new 0) :: u32) = nat new"
    using r(6) by (simp add: unat_eq_nat_uint uint_word_of_int)
  have eq: "(if whence = 0 then d else if whence = 1 then sint (fd_offset f) + d else sint (i_size nd) + d) = new"
    by (simp add: new_def so)
  have "vfs_lseek fd d whence s = Some (max new 0, set_fd (nat fd) (f\<lparr>fd_offset := word_of_int (max new 0)\<rparr>) s)"
    using f(1,4,5,6,8,9) r(1,2,5,6) unfolding vfs_lseek_def f(3) [symmetric] Let_def by (simp add: eq)
  then show ?thesis
    using ram_fd_move [OF rf assms(1), of "word_of_int (max new 0)"] unfolding f(3) [symmetric] un r(7,8) vfs_abs_def
    by simp
qed

text \<open>Growing a buffer keeps the file, and the grown buffer has the room that is needed.\<close>

lemma grow_ok:
  assumes "heap_serves k" and "length (i_bytes n) = unat (i_cap n)" and "unat (i_size n) \<le> unat (i_cap n)" and "unat needed < 2 ^ 31"
  obtains n1 where "grow (ram_alloc k) needed n = Some n1" "unat needed \<le> unat (i_cap n1)" "length (i_bytes n1) = unat (i_cap n1)"
    "unat (i_size n) \<le> unat (i_cap n1)" "take (unat (i_size n)) (i_bytes n1) = take (unat (i_size n)) (i_bytes n)"
    "n1 = n\<lparr>i_bytes := i_bytes n1, i_cap := i_cap n1\<rparr>"
proof (cases "i_cap n < needed")
  case False
  then show thesis
    using assms by (intro that [of n]) (auto simp: grow_def word_less_nat_alt)
next
  case True
  define c where "c = (if needed * 2 < 256 then 256 else needed * 2)"
  have "unat (needed * 2) = unat needed * 2"
    using assms(4) by (simp add: unat_word_ariths)
  then have c: "unat needed \<le> unat c"
    by (auto simp: c_def word_less_nat_alt)
  obtain b where b: "ram_alloc k c = Some b" "length b = unat c"
    using assms(1) by (auto simp: heap_serves_def)
  have le: "unat (i_size n) \<le> unat c"
    using True assms(3) c by (simp add: word_less_nat_alt)
  let ?n1 = "n\<lparr>i_bytes := overwrite 0 (take (unat (i_size n)) (i_bytes n)) b, i_cap := c\<rparr>"
  have "grow (ram_alloc k) needed n = Some ?n1"
    using True b(1) unfolding grow_def c_def [symmetric] Let_def by simp
  moreover have "length (i_bytes ?n1) = unat (i_cap ?n1)"
    using b(2) le assms(2,3) by simp
  moreover have "take (unat (i_size n)) (i_bytes ?n1) = take (unat (i_size n)) (i_bytes n)"
    using assms(2,3) by (simp add: overwrite_def)
  ultimately show thesis
    using c le by (intro that [of ?n1]) simp_all
qed

lemma write_contents:
  assumes "off \<le> sz" and "sz \<le> length b" and "off + length d \<le> length b"
  shows "take (max sz (off + length d)) (overwrite off d b) = take off (take sz b) @ d @ drop (off + length d) (take sz b)"
  using assms by (auto simp: overwrite_def drop_take max_def)

text \<open>Replacing the data of a file.\<close>

lemma ram_set_file:
  assumes "vfs_ok s" and n: "ramfs_get_inode i (inodes s) = Some n" "i_type n = VFS_FILE"
    and n': "i_used n'" "i_type n' = VFS_FILE" "length (i_bytes n') = unat (i_cap n')" "unat (i_size n') \<le> unat (i_cap n')"
  shows "ram_file (s\<lparr>inodes := (inodes s)[unat i := n']\<rparr>) = (ram_file s)(i \<mapsto> take (unat (i_size n')) (i_bytes n'))"
    and "ram_fd (s\<lparr>inodes := (inodes s)[unat i := n']\<rparr>) = ram_fd s"
    and "vfs_ok (s\<lparr>inodes := (inodes s)[unat i := n']\<rparr>)"
proof -
  let ?s = "s\<lparr>inodes := (inodes s)[unat i := n']\<rparr>"
  have wf: "ramfs_wf (inodes s)"
    using assms(1) by (simp add: vfs_ok_def)
  have i: "unat i < VFS_MAX_INODES" "n = inodes s ! unat i" "i_used n"
    using get_inode_SomeD [OF n(1)] by auto
  have len: "length (inodes s) = VFS_MAX_INODES"
    using ramfs_wfD(1) [OF wf] .
  have get: "ramfs_get_inode j ((inodes s)[unat i := n']) = (if j = i then Some n' else ramfs_get_inode j (inodes s))" for j
    using i len n' by (auto simp: ramfs_get_inode_def nth_list_update word_le_nat_alt VFS_MAX_INODES_def word_unat_eq_iff)
  show data: "ram_file ?s = (ram_file s)(i \<mapsto> take (unat (i_size n')) (i_bytes n'))"
    using n' by (auto simp: ram_file_def get fun_eq_iff)
  have "ram_file s i \<noteq> None"
    using n by (simp add: ram_file_def)
  then have "ram_file ?s j \<noteq> None \<longleftrightarrow> ram_file s j \<noteq> None" for j
    unfolding data by auto
  then show "ram_fd ?s = ram_fd s"
    by (auto simp: ram_fd_def Let_def valid_fd_def fun_eq_iff)
  have "unat i \<noteq> 0"
    using ramfs_wfD(3) [OF wf] i(2) n(2) by (intro notI) simp
  then have "ramfs_wf ((inodes s)[unat i := n'])"
    using n' n i by (intro ramfs_wf_update wf) (auto simp: node_wf_def node_children_def word_le_nat_alt)
  then show "vfs_ok ?s"
    using assms(1) by (simp add: vfs_ok_def)
qed

lemma write_refines:
  assumes "heap_serves k" and "vfs_ok s" and "afs_op (FWrite fd data) (vfs_abs s) = Some (r, a)"
  shows "\<exists>s'. vfs_op k (FWrite fd data) s = Some (r, s') \<and> vfs_ok s' \<and> vfs_abs s' = a"
proof -
  obtain i off where rf: "ram_fd s fd = Some (i, off)"
    using assms(3) by (auto simp: vfs_abs_def split: option.splits)
  obtain f n where f: "valid_fd fd s" "nat fd < length (fd_table s)" "f = fd_table s ! nat fd" "fat_fd f < 0" "fd_pipe f = None"
    "fd_inode f = i" "unat (fd_offset f) = off" "ramfs_get_inode i (inodes s) = Some n" "i_type n = VFS_FILE"
    "length (i_bytes n) = unat (i_cap n)" "unat (i_size n) \<le> unat (i_cap n)"
    "ram_file s i = Some (take (unat (i_size n)) (i_bytes n))"
    by (rule ram_fdE [OF rf assms(2)])
  let ?c = "take (unat (i_size n)) (i_bytes n)"
  have lc: "length ?c = unat (i_size n)"
    using f(10,11) by simp
  have r: "off \<le> unat (i_size n)" "off + length data < 2 ^ 31" "r = (int (length data), [])"
      "a = ((ram_file s)(i \<mapsto> take off ?c @ data @ drop (off + length data) ?c), (ram_fd s)(fd \<mapsto> (i, off + length data)))"
    using assms(3) rf f(12) unfolding vfs_abs_def afs_op.simps
    by (auto simp only: lc Let_def option.sel option.case prod.case split: if_splits)
  define needed where "needed = fd_offset f + of_nat (length data)"
  have nd: "unat needed = off + length data"
    using r(2) f(7) by (simp add: needed_def unat_word_ariths unat_of_nat)
  have nd31: "unat needed < 2 ^ 31"
    unfolding nd by (rule r(2))
  obtain n1 where n1: "grow (ram_alloc k) needed n = Some n1" "unat needed \<le> unat (i_cap n1)" "length (i_bytes n1) = unat (i_cap n1)"
    "unat (i_size n) \<le> unat (i_cap n1)" "take (unat (i_size n)) (i_bytes n1) = ?c"
    "n1 = n\<lparr>i_bytes := i_bytes n1, i_cap := i_cap n1\<rparr>"
    by (rule grow_ok [OF assms(1) f(10,11) nd31])
  have n1f: "i_size n1 = i_size n" "i_type n1 = VFS_FILE" "i_used n1"
    using get_inode_SomeD [OF f(8)] f(9) by (subst n1(6), simp)+
  define n2 where "n2 = n1\<lparr>i_bytes := overwrite off data (i_bytes n1), i_size := (if i_size n1 < needed then needed else i_size n1)\<rparr>"
  have sz: "unat (i_size n2) = max (unat (i_size n)) (off + length data)"
    using nd n1f by (auto simp: n2_def word_less_nat_alt max_def)
  have n2: "i_used n2" "i_type n2 = VFS_FILE" "length (i_bytes n2) = unat (i_cap n2)" "unat (i_size n2) \<le> unat (i_cap n2)"
    using n1 n1f nd unfolding sz by (simp_all add: n2_def)
  have con: "take (unat (i_size n2)) (i_bytes n2) = take off ?c @ data @ drop (off + length data) ?c"
    using write_contents [OF r(1), of "i_bytes n1" data] n1 nd unfolding sz n1(5) by (simp add: n2_def)
  let ?t = "set_fd (nat fd) (f\<lparr>fd_offset := needed\<rparr>) s"
  have move: "ram_fd ?t = (ram_fd s)(fd \<mapsto> (i, off + length data))" "ram_file ?t = ram_file s" "vfs_ok ?t"
    using ram_fd_move [OF rf assms(2), of needed] unfolding f(3) [symmetric] nd by auto
  have it: "inodes ?t = inodes s"
    by (simp add: set_fd_def)
  note st = ram_set_file [OF move(3), unfolded it, OF f(8,9) n2, unfolded con move]
  have "vfs_write k fd data s = Some (to_int (length data), ?t\<lparr>inodes := (inodes s)[unat i := n2]\<rparr>)"
    using f(1,4,6,8,9) n1(1,2,4) n1f(1) nd
    unfolding vfs_write_def f(3) [symmetric] Let_def needed_def [symmetric] f(7) by (simp add: n2_def word_less_nat_alt)
  moreover have "to_int (length data) = int (length data)"
    using r(2) by (intro to_int_small) simp
  ultimately show ?thesis
    using st unfolding r(3,4) vfs_abs_def by simp
qed

lemma vfs_op_refines:
  "heap_serves k \<Longrightarrow> vfs_ok s \<Longrightarrow> afs_op op (vfs_abs s) = Some (r, a) \<Longrightarrow>
     \<exists>s'. vfs_op k op s = Some (r, s') \<and> vfs_ok s' \<and> vfs_abs s' = a"
  using read_refines write_refines seek_refines by (cases op) blast+

interpretation vfs_io: op_refinement "\<lambda>s. vfs_ok s \<and> heap_serves k" vfs_abs "vfs_op k" afs_op for k
  by unfold_locales (use vfs_op_refines in blast)

section \<open>Opening an existing file\<close>

lemma alloc_fd_spec:
  assumes "\<exists>f \<in> set (fd_table s). \<not> fd_used f"
  obtains i where "i < length (fd_table s)" "\<not> fd_used (fd_table s ! i)"
    "alloc_fd s = Some (i, set_fd i ((fd_table s ! i)\<lparr>fd_used := True, refcount := 1, fd_offset := 0, dir_idx := 0,
        fd_pipe := None, pipe_mode := 0, fat_fd := - 1\<rparr>) s)"
proof -
  obtain i where i: "first_idx (\<lambda>f. \<not> fd_used f) (fd_table s) = Some i"
    using assms first_idx_exists [of _ "fd_table s" "\<lambda>f. \<not> fd_used f"] by blast
  show thesis
    using that [of i] first_idx_less [OF i] first_idx_P [OF i] i by (simp add: alloc_fd_def)
qed

lemma open_ram:
  assumes "vfs_ok s" and "fat_subpath s path = None" and "ramfs_resolve_path path (inodes s) = uint ino"
    and "ramfs_get_inode ino (inodes s) = Some n" "i_type n = VFS_FILE" and "vfs_check_perm (cur_ids k) n 4"
    and "\<exists>f \<in> set (fd_table s). \<not> fd_used f"
  shows "\<exists>fd s1. vfs_open k path 0 s = Some (fd, s1) \<and> 0 \<le> fd \<and> vfs_ok s1 \<and> ram_fd s1 fd = Some (ino, 0) \<and> ram_file s1 = ram_file s"
proof -
  obtain i where i: "i < length (fd_table s)" "\<not> fd_used (fd_table s ! i)"
    "alloc_fd s = Some (i, set_fd i ((fd_table s ! i)\<lparr>fd_used := True, refcount := 1, fd_offset := 0, dir_idx := 0,
        fd_pipe := None, pipe_mode := 0, fat_fd := - 1\<rparr>) s)"
    by (rule alloc_fd_spec [OF assms(7)])
  define f where "f = (fd_table s ! i)\<lparr>fd_used := True, refcount := 1, fd_pipe := None, pipe_mode := 0, fat_fd := - 1,
        fd_inode := ino, fd_offset := 0, dir_idx := 0\<rparr>"
  have "open_inode k path 0 s = Some (uint ino, s)"
    using assms(3,4,6) by (simp add: open_inode_def)
  then have "vfs_open k path 0 s = Some (int i, set_fd i f s)"
    using assms(2) i by (simp add: vfs_open_def set_fd_def f_def)
  moreover have data: "ram_file (set_fd i f s) = ram_file s"
    by (auto simp: ram_file_def set_fd_def fun_eq_iff)
  moreover have "ram_fd (set_fd i f s) (int i) = Some (ino, 0)"
    using i(1) assms(1,4,5) data by (simp add: ram_fd_def valid_fd_def set_fd_def f_def vfs_ok_def ram_file_def)
  moreover have "vfs_ok (set_fd i f s)"
    using assms(1) by (simp add: vfs_ok_def set_fd_def)
  ultimately show ?thesis
    by (intro exI [of _ "int i"] exI [of _ "set_fd i f s"]) simp
qed

section \<open>Properties\<close>

definition sample_vfs :: vfs_state where
  "sample_vfs = vfs_init \<lparr>inodes = sample_fs, fd_table = [], pipes = replicate MAX_PIPES pipe_zero,
     fat = \<lparr>f_mount = mount_zero, file_table = replicate FAT_MAX_FILES file_zero, f_cache = sample_cache\<rparr>,
     fat_mpoint = [], fat_mounted_flag = False, v_calls = []\<rparr>"

definition sample_env :: kenv where
  "sample_env = \<lparr>ram_alloc = (\<lambda>n. Some (replicate (unat n) 0)), fat_alloc = (\<lambda>_ _. True), cur_ids = Some (5, 5)\<rparr>"

definition sample_opened :: vfs_state where
  "sample_opened = set_fd 0 (fd_zero\<lparr>fd_used := True, refcount := 1, fd_inode := 1, fat_fd := - 1\<rparr>) sample_vfs"

lemma sample_vfs_facts:
  "vfs_ok sample_vfs" "vfs_ok sample_opened" "heap_serves sample_env" "fd_table sample_vfs = replicate 64 fd_zero"
  "inodes sample_vfs = sample_fs" "fat_subpath sample_vfs path = None"
  using sample_fs_wf by (simp_all add: vfs_ok_def sample_vfs_def sample_opened_def vfs_init_def set_fd_def heap_serves_def
      sample_env_def VFS_MAX_FDS_def fat_subpath_def)

lemma sample_file: "ramfs_get_inode 1 sample_fs = Some (inode_zero\<lparr>i_used := True, i_type := VFS_FILE, i_mode := 0x1A4\<rparr>)"
  by code_simp

lemma sample_opened_abs: "ram_fd sample_opened 0 = Some (1, 0)" "ram_file sample_opened 1 = Some []"
  using sample_file
  by (simp_all add: ram_fd_def ram_file_def sample_opened_def sample_vfs_def vfs_init_def set_fd_def valid_fd_def VFS_MAX_FDS_def
      inode_zero_def fd_zero_def)

text \<open>
  C31. File input and output is right for any sequence of calls in which no write starts beyond the end
  of its file: on a well-formed state with memory left,
  reads, writes and seeks on the descriptors of RAM files return what the abstract files say and
  change exactly the bytes and positions the abstract operations change, also when
  several descriptors share a file.
\<close>
theorem vfs_io_refines:
  assumes "vfs_ok s" and "heap_serves k" and "run_ops afs_op ops (vfs_abs s) = Some (rs, a)"
  shows "\<exists>s'. run_ops (vfs_op k) ops s = Some (rs, s') \<and> vfs_abs s' = a \<and> vfs_ok s'"
  using vfs_io.run_sim [of s k ops rs a] assms by blast

theorem vfs_io_refines_witness:
  "\<exists>s'. run_ops (vfs_op sample_env) [FWrite 0 [1, 2, 3], FSeek 0 1 0, FRead 0 5] sample_opened =
     Some ([(3, []), (1, []), (2, [2, 3])], s') \<and> ram_file s' 1 = Some [1, 2, 3]"
proof -
  have "\<exists>fds. run_ops afs_op [FWrite 0 [1, 2, 3], FSeek 0 1 0, FRead 0 5] (vfs_abs sample_opened) =
      Some ([(3, []), (1, []), (2, [2, 3])], (ram_file sample_opened)(1 \<mapsto> [1, 2, 3]), fds)"
    using sample_opened_abs by (simp add: vfs_abs_def)
  then obtain fds where r: "run_ops afs_op [FWrite 0 [1, 2, 3], FSeek 0 1 0, FRead 0 5] (vfs_abs sample_opened) =
      Some ([(3, []), (1, []), (2, [2, 3])], (ram_file sample_opened)(1 \<mapsto> [1, 2, 3]), fds)" ..
  show ?thesis
    using vfs_io_refines [OF sample_vfs_facts(2,3) r] by (auto simp: vfs_abs_def)
qed

text \<open>
  C32. Permission to write is checked only when a file is opened with a flag that changes it. A task that may
  read a file but not write it is refused by an open that truncates, yet it can open
  the file without flags and then overwrite its beginning through the descriptor.
\<close>
theorem vfs_readonly_write:
  assumes "vfs_ok s" and "heap_serves k" and "fat_subpath s path = None"
    and "ramfs_resolve_path path (inodes s) = uint ino" and "ramfs_get_inode ino (inodes s) = Some n" and "i_type n = VFS_FILE"
    and "vfs_check_perm (cur_ids k) n 4" and "\<not> vfs_check_perm (cur_ids k) n 6"
    and "\<exists>f \<in> set (fd_table s). \<not> fd_used f" and "length data < 2 ^ 31"
  shows "vfs_open k path VFS_O_TRUNC s = Some (- 1, s) \<and>
    (\<exists>fd s1 s2. vfs_open k path 0 s = Some (fd, s1) \<and> 0 \<le> fd \<and> vfs_write k fd data s1 = Some (int (length data), s2) \<and>
       ram_file s2 ino = Some (data @ drop (length data) (the (ram_file s ino))))"
proof
  have "open_inode k path VFS_O_TRUNC s = Some (- 1, s)"
    using assms(4,5,8) by (simp add: open_inode_def)
  then show "vfs_open k path VFS_O_TRUNC s = Some (- 1, s)"
    using assms(3) by (simp add: vfs_open_def)
  obtain fd s1 where o: "vfs_open k path 0 s = Some (fd, s1)" "0 \<le> fd" "vfs_ok s1" "ram_fd s1 fd = Some (ino, 0)" "ram_file s1 = ram_file s"
    using open_ram [OF assms(1,3-7,9)] by blast
  let ?c = "the (ram_file s ino)"
  have "afs_op (FWrite fd data) (vfs_abs s1) = Some ((int (length data), []),
      (ram_file s)(ino \<mapsto> data @ drop (length data) ?c), (ram_fd s1)(fd \<mapsto> (ino, length data)))"
    using o(4,5) assms(10) by (simp add: vfs_abs_def Let_def)
  from write_refines [OF assms(2) o(3) this] obtain s2 where "vfs_write k fd data s1 = Some (int (length data), s2)"
      "ram_file s2 = (ram_file s)(ino \<mapsto> data @ drop (length data) ?c)"
    by (auto simp: vfs_abs_def)
  then show "\<exists>fd s1 s2. vfs_open k path 0 s = Some (fd, s1) \<and> 0 \<le> fd \<and> vfs_write k fd data s1 = Some (int (length data), s2) \<and>
       ram_file s2 ino = Some (data @ drop (length data) ?c)"
    using o(1,2) by auto
qed

theorem vfs_readonly_write_witness:
  "\<exists>fd s1 s2. vfs_open sample_env [slash, 97] 0 sample_vfs = Some (fd, s1) \<and>
     vfs_write sample_env fd [7] s1 = Some (1, s2) \<and> ram_file s2 1 = Some [7]"
proof -
  let ?n = "inode_zero\<lparr>i_used := True, i_type := VFS_FILE, i_mode := 0x1A4\<rparr>"
  have p: "vfs_check_perm (cur_ids sample_env) ?n 4" "\<not> vfs_check_perm (cur_ids sample_env) ?n 6"
    by (code_simp, code_simp)
  have "ramfs_resolve_path [slash, 97] (inodes sample_vfs) = uint (1 :: u32)"
    unfolding sample_vfs_facts(5) by code_simp
  moreover have "ramfs_get_inode 1 (inodes sample_vfs) = Some ?n"
    using sample_file by (simp add: sample_vfs_facts(5))
  moreover have "i_type ?n = VFS_FILE" "\<exists>f \<in> set (fd_table sample_vfs). \<not> fd_used f"
    by (simp_all add: sample_vfs_facts(4) fd_zero_def)
  ultimately show ?thesis
    using vfs_readonly_write [OF sample_vfs_facts(1,3,6) _ _ _ p, of "[slash, 97]" 1 "[7]"]
    by (auto simp: ram_file_def inode_zero_def)
qed

end
