(* ===== verification/Vmm.thy ===== *)
theory Vmm
  imports Pmm
begin

text \<open>
  The virtual memory manager \<^verbatim>\<open>mm/vmm.c\<close>: four-level page tables in physical memory, which the kernel
  reaches through its identity mapping. Memory is a function from the address of an
  8-byte word to the word; \<open>cr3_reg\<close> is the register \<^verbatim>\<open>CR3\<close>. The physical page allocator is part of the
  state. Invalidating a translation in the TLB has no counterpart in the model.
\<close>

unbundle bit_operations_syntax

section \<open>State and entries\<close>

record vm =
  vm_mem :: "u64 \<Rightarrow> u64"
  vm_pmm :: pmm_state
  boot_cr3 :: u64
  cr3_reg :: u64

definition VMM_PRESENT :: u64 where
  "VMM_PRESENT = 1"

definition VMM_WRITE :: u64 where
  "VMM_WRITE = 2"

definition VMM_USER :: u64 where
  "VMM_USER = 4"

definition VMM_HUGE :: u64 where
  "VMM_HUGE = 0x80"

definition present :: "u64 \<Rightarrow> bool" where
  "present e \<longleftrightarrow> e AND VMM_PRESENT \<noteq> 0"

definition huge :: "u64 \<Rightarrow> bool" where
  "huge e \<longleftrightarrow> e AND VMM_HUGE \<noteq> 0"

definition page_of :: "u64 \<Rightarrow> u64" where
  "page_of e = e AND NOT 0xFFF"

text \<open>Entry \<open>i\<close> of the table at address \<open>t\<close>.\<close>

definition slot :: "u64 \<Rightarrow> nat \<Rightarrow> u64" where
  "slot t i = t + 8 * of_nat i"

definition entry :: "vm \<Rightarrow> u64 \<Rightarrow> nat \<Rightarrow> u64" where
  "entry s t i = vm_mem s (slot t i)"

definition set_entry :: "u64 \<Rightarrow> nat \<Rightarrow> u64 \<Rightarrow> vm \<Rightarrow> vm" where
  "set_entry t i e s = s\<lparr>vm_mem := (vm_mem s)(slot t i := e)\<rparr>"

text \<open>All 512 words of a page, from a function of the index: the clearing, copying and filling loops.\<close>

definition fill_page :: "u64 \<Rightarrow> (nat \<Rightarrow> u64) \<Rightarrow> vm \<Rightarrow> vm" where
  "fill_page p f s = s\<lparr>vm_mem := (\<lambda>a. if a - p < PAGE_SIZE then f (unat (a - p) div 8) else vm_mem s a)\<rparr>"

definition alloc_page :: "vm \<Rightarrow> u64 \<times> vm" where
  "alloc_page s = (case pmm_alloc_page (vm_pmm s) of (p, m) \<Rightarrow> (p, s\<lparr>vm_pmm := m\<rparr>))"

definition free_page :: "u64 \<Rightarrow> vm \<Rightarrow> vm" where
  "free_page p s = s\<lparr>vm_pmm := pmm_free_page p (vm_pmm s)\<rparr>"

definition pml4_idx :: "u64 \<Rightarrow> nat" where
  "pml4_idx virt = unat (drop_bit 39 virt AND 0x1FF)"

definition pdpt_idx :: "u64 \<Rightarrow> nat" where
  "pdpt_idx virt = unat (drop_bit 30 virt AND 0x1FF)"

definition pd_idx :: "u64 \<Rightarrow> nat" where
  "pd_idx virt = unat (drop_bit 21 virt AND 0x1FF)"

definition pt_idx :: "u64 \<Rightarrow> nat" where
  "pt_idx virt = unat (drop_bit 12 virt AND 0x1FF)"

section \<open>Tables\<close>

text \<open>
  The search for a frame outside the huge page that is split: at most 16 attempts, with the
  rejected frames. The result 0 is \<^verbatim>\<open>NULL\<close>.
\<close>

fun alloc_outside :: "nat \<Rightarrow> u64 \<Rightarrow> u64 list \<Rightarrow> pmm_state \<Rightarrow> u64 \<times> u64 list \<times> pmm_state" where
  "alloc_outside 0 huge_phys rejected m = (0, rejected, m)"
| "alloc_outside (Suc n) huge_phys rejected m =
     (case pmm_alloc_page m of
        (new_pt, m1) \<Rightarrow>
          if new_pt = 0 then (0, rejected, m1)
          else if huge_phys \<le> new_pt \<and> new_pt < huge_phys + 0x200000
          then alloc_outside n huge_phys (rejected @ [new_pt]) m1
          else (new_pt, rejected, m1))"

definition split_huge :: "u64 \<Rightarrow> nat \<Rightarrow> u64 \<Rightarrow> vm \<Rightarrow> bool \<times> vm" where
  "split_huge table index flags s =
     (let e = entry s table index;
          huge_phys = e AND NOT 0x1FFFFF;
          huge_flags = (e AND 0x1F) AND NOT VMM_HUGE;
          (new_pt, rejected, m) = alloc_outside 16 huge_phys [] (vm_pmm s);
          s1 = s\<lparr>vm_pmm := fold pmm_free_page rejected m\<rparr>
      in if new_pt = 0 then (False, s1)
         else (True, set_entry table index (new_pt OR flags)
                       (fill_page new_pt (\<lambda>i. (huge_phys + of_nat i * PAGE_SIZE) OR huge_flags) s1)))"

definition new_table :: "u64 \<Rightarrow> nat \<Rightarrow> u64 \<Rightarrow> vm \<Rightarrow> bool \<times> vm" where
  "new_table table index flags s =
     (case alloc_page s of
        (page, s1) \<Rightarrow>
          if page = 0 then (False, s1)
          else (True, set_entry table index (page OR flags) (fill_page page (\<lambda>_. 0) s1)))"

definition get_or_create_table :: "u64 \<Rightarrow> nat \<Rightarrow> u64 \<Rightarrow> vm \<Rightarrow> u64 \<times> vm" where
  "get_or_create_table table index flags s =
     (let (ok, s1) = (if present (entry s table index)
                      then (if huge (entry s table index) then split_huge table index flags s else (True, s))
                      else new_table table index flags s)
      in (if ok then page_of (entry s1 table index) else 0, s1))"

definition vmm_init :: "vm \<Rightarrow> vm" where
  "vmm_init s = s\<lparr>boot_cr3 := page_of (cr3_reg s)\<rparr>"

definition vmm_get_boot_cr3 :: "vm \<Rightarrow> u64" where
  "vmm_get_boot_cr3 s = boot_cr3 s"

definition vmm_switch_address_space :: "u64 \<Rightarrow> vm \<Rightarrow> vm" where
  "vmm_switch_address_space pml4_phys s = s\<lparr>cr3_reg := pml4_phys\<rparr>"

definition get_pml4 :: "vm \<Rightarrow> u64" where
  "get_pml4 s = page_of (cr3_reg s)"

section \<open>Mapping and translation\<close>

definition vmm_map_page_in :: "u64 \<Rightarrow> u64 \<Rightarrow> u64 \<Rightarrow> u64 \<Rightarrow> vm \<Rightarrow> vm" where
  "vmm_map_page_in pml4 virt phys flags s =
     (let tbl_flags = (if flags AND VMM_USER \<noteq> 0 then VMM_PRESENT OR VMM_WRITE OR VMM_USER else VMM_PRESENT OR VMM_WRITE);
          (pdpt, s1) = get_or_create_table pml4 (pml4_idx virt) tbl_flags s
      in if pdpt = 0 then s1
         else
           let (pd, s2) = get_or_create_table pdpt (pdpt_idx virt) tbl_flags s1
           in if pd = 0 then s2
              else
                let (pt, s3) = get_or_create_table pd (pd_idx virt) tbl_flags s2
                in if pt = 0 then s3
                   else set_entry pt (pt_idx virt) (page_of phys OR flags) s3)"

definition vmm_map_page :: "u64 \<Rightarrow> u64 \<Rightarrow> u64 \<Rightarrow> vm \<Rightarrow> vm" where
  "vmm_map_page virt phys flags s = vmm_map_page_in (get_pml4 s) virt phys flags s"

definition vmm_unmap_page :: "u64 \<Rightarrow> vm \<Rightarrow> vm" where
  "vmm_unmap_page virt s =
     (let e4 = entry s (get_pml4 s) (pml4_idx virt) in
      if \<not> present e4 then s
      else
        let e3 = entry s (page_of e4) (pdpt_idx virt) in
        if \<not> present e3 then s
        else
          let e2 = entry s (page_of e3) (pd_idx virt) in
          if \<not> present e2 \<or> huge e2 then s
          else set_entry (page_of e2) (pt_idx virt) 0 s)"

definition vmm_get_physical_in :: "u64 \<Rightarrow> u64 \<Rightarrow> vm \<Rightarrow> u64" where
  "vmm_get_physical_in pml4 virt s =
     (let e4 = entry s pml4 (pml4_idx virt) in
      if \<not> present e4 then 0
      else
        let e3 = entry s (page_of e4) (pdpt_idx virt) in
        if \<not> present e3 then 0
        else if huge e3 then (e3 AND NOT 0x3FFFFFFF) OR (virt AND 0x3FFFFFFF)
        else
          let e2 = entry s (page_of e3) (pd_idx virt) in
          if \<not> present e2 then 0
          else if huge e2 then (e2 AND NOT 0x1FFFFF) OR (virt AND 0x1FFFFF)
          else
            let e1 = entry s (page_of e2) (pt_idx virt) in
            if \<not> present e1 then 0
            else page_of e1 OR (virt AND 0xFFF))"

definition vmm_get_physical :: "u64 \<Rightarrow> vm \<Rightarrow> u64" where
  "vmm_get_physical virt s = vmm_get_physical_in (get_pml4 s) virt s"

section \<open>Address spaces\<close>

text \<open>The copies of the four page directories; on failure the directories made so far are freed.\<close>

fun copy_dirs :: "u64 \<Rightarrow> u64 \<Rightarrow> nat list \<Rightarrow> vm \<Rightarrow> bool \<times> vm" where
  "copy_dirs boot_pdpt pdpt [] s = (True, s)"
| "copy_dirs boot_pdpt pdpt (i # is) s =
     (let e = entry s boot_pdpt i in
      if \<not> present e then copy_dirs boot_pdpt pdpt is s
      else
        (case alloc_page s of
           (pd_page, s1) \<Rightarrow>
             if pd_page = 0
             then (False, fold (\<lambda>j s. if present (entry s pdpt j) then free_page (page_of (entry s pdpt j)) s else s) [0..<i] s1)
             else
               let s2 = fill_page pd_page (\<lambda>k. entry s1 (page_of e) k) s1
               in copy_dirs boot_pdpt pdpt is (set_entry pdpt i (pd_page OR (e AND 0xFFF)) s2)))"

definition vmm_create_address_space :: "vm \<Rightarrow> u64 \<times> vm" where
  "vmm_create_address_space s =
     (case alloc_page s of
        (pml4, s1) \<Rightarrow>
          if pml4 = 0 then (0, s1)
          else
            let s2 = fill_page pml4 (\<lambda>_. 0) s1;
                e = entry s2 (boot_cr3 s2) 0
            in if \<not> present e then (0, free_page pml4 s2)
               else
                 (case alloc_page s2 of
                    (pdpt, s3) \<Rightarrow>
                      if pdpt = 0 then (0, free_page pml4 s3)
                      else
                        (case copy_dirs (page_of e) pdpt [0..<4] (fill_page pdpt (\<lambda>_. 0) s3) of
                           (ok, s4) \<Rightarrow>
                             if ok then (pml4, set_entry pml4 0 (pdpt OR (e AND 0xFFF)) s4)
                             else (0, free_page pml4 (free_page pdpt s4)))))"

text \<open>The virtual address of entry \<open>k\<close> of table \<open>j\<close> in directory \<open>i\<close> of the first 512 GiB.\<close>

definition vaddr_of :: "nat \<Rightarrow> nat \<Rightarrow> nat \<Rightarrow> u64" where
  "vaddr_of i j k = push_bit 30 (of_nat i) OR push_bit 21 (of_nat j) OR push_bit 12 (of_nat k)"

definition free_pt :: "nat \<Rightarrow> nat \<Rightarrow> u64 \<Rightarrow> vm \<Rightarrow> vm" where
  "free_pt i j pt s =
     free_page pt
       (fold (\<lambda>k s. let e = entry s pt k in
                     if present e \<and> page_of e \<noteq> vaddr_of i j k then free_page (page_of e) s else s) [0..<512] s)"

definition free_pd :: "nat \<Rightarrow> u64 \<Rightarrow> vm \<Rightarrow> vm" where
  "free_pd i pd s =
     free_page pd
       (fold (\<lambda>j s. let e = entry s pd j in
                     if present e \<and> \<not> huge e then free_pt i j (page_of e) s else s) [0..<512] s)"

definition vmm_destroy_address_space :: "u64 \<Rightarrow> vm \<Rightarrow> vm" where
  "vmm_destroy_address_space pml4 s =
     (if pml4 = 0 \<or> pml4 = boot_cr3 s then s
      else
        let e = entry s pml4 0 in
        if \<not> present e then free_page pml4 s
        else
          let pdpt = page_of e;
              s1 = fold (\<lambda>i s. let d = entry s pdpt i in if present d then free_pd i (page_of d) s else s) [0..<4] s
          in free_page pml4 (free_page pdpt s1))"

text \<open>The copy of one page table of the parent; \<open>False\<close> when a page could not be allocated.\<close>

fun clone_entries :: "nat \<Rightarrow> nat \<Rightarrow> u64 \<Rightarrow> u64 \<Rightarrow> nat list \<Rightarrow> vm \<Rightarrow> bool \<times> vm" where
  "clone_entries i j src_pt new_pt [] s = (True, s)"
| "clone_entries i j src_pt new_pt (k # ks) s =
     (let e = entry s src_pt k in
      if \<not> present e then clone_entries i j src_pt new_pt ks s
      else if page_of e = vaddr_of i j k
      then clone_entries i j src_pt new_pt ks (set_entry new_pt k e s)
      else
        (case alloc_page s of
           (new_page, s1) \<Rightarrow>
             if new_page = 0 then (False, s1)
             else
               let s2 = fill_page new_page (\<lambda>w. entry s1 (page_of e) w) s1
               in clone_entries i j src_pt new_pt ks (set_entry new_pt k (new_page OR (e AND 0xFFF)) s2)))"

fun clone_tables :: "nat \<Rightarrow> u64 \<Rightarrow> u64 \<Rightarrow> nat list \<Rightarrow> vm \<Rightarrow> bool \<times> vm" where
  "clone_tables i src_pd new_pd [] s = (True, s)"
| "clone_tables i src_pd new_pd (j # js) s =
     (let e = entry s src_pd j in
      if \<not> present e \<or> huge e then clone_tables i src_pd new_pd js s
      else
        (case alloc_page s of
           (new_pt, s1) \<Rightarrow>
             if new_pt = 0 then (False, s1)
             else
               (case clone_entries i j (page_of e) new_pt [0..<512] (fill_page new_pt (\<lambda>_. 0) s1) of
                  (ok, s2) \<Rightarrow>
                    if ok then clone_tables i src_pd new_pd js (set_entry new_pd j (new_pt OR (e AND 0xFFF)) s2)
                    else (False, s2))))"

fun clone_dirs :: "u64 \<Rightarrow> u64 \<Rightarrow> nat list \<Rightarrow> vm \<Rightarrow> bool \<times> vm" where
  "clone_dirs src_pdpt new_pdpt [] s = (True, s)"
| "clone_dirs src_pdpt new_pdpt (i # is) s =
     (let e = entry s src_pdpt i in
      if \<not> present e then clone_dirs src_pdpt new_pdpt is s
      else
        (case clone_tables i (page_of e) (page_of (entry s new_pdpt i)) [0..<512] s of
           (ok, s1) \<Rightarrow> if ok then clone_dirs src_pdpt new_pdpt is s1 else (False, s1)))"

definition vmm_clone_address_space :: "u64 \<Rightarrow> vm \<Rightarrow> u64 \<times> vm" where
  "vmm_clone_address_space src_pml4 s =
     (case vmm_create_address_space s of
        (new_pml4, s1) \<Rightarrow>
          if new_pml4 = 0 then (0, s1)
          else
            let e = entry s1 src_pml4 0 in
            if \<not> present e then (new_pml4, s1)
            else
              (case clone_dirs (page_of e) (page_of (entry s1 new_pml4 0)) [0..<4] s1 of
                 (ok, s2) \<Rightarrow>
                   if ok then (new_pml4, s2) else (0, vmm_destroy_address_space new_pml4 s2)))"

end
