(* ===== verification/VmmProps.thy ===== *)
theory VmmProps
  imports Vmm PmmInit
begin

text \<open>
  Page tables translate as they should. The tables of an address space form a tree in memory; the
  invariant says that they are pairwise distinct allocated frames. Getting or creating a
  table changes no translation, not even when it splits a 2 MiB page, and mapping a page changes the
  translation of exactly that page.
\<close>

unbundle bit_operations_syntax

section \<open>Words of a page\<close>

definition frame_base :: "u64 \<Rightarrow> bool" where
  "frame_base p \<longleftrightarrow> page_of p = p"

lemma mask_FFF: "(0xFFF :: u64) = mask 12"
  by (simp add: mask_eq_exp_minus_1)

lemma page_of_bit: "bit (page_of e) n \<longleftrightarrow> 12 \<le> n \<and> bit e n"
  unfolding page_of_def mask_FFF by (auto simp: bit_simps dest: bit_imp_le_length simp del: mask_numeral)

lemma frame_base_page_of: "frame_base (page_of e)"
  unfolding frame_base_def by (rule bit_word_eqI) (simp add: page_of_bit)

lemma frame_base_low: "frame_base p \<Longrightarrow> n < 12 \<Longrightarrow> \<not> bit p n"
  using page_of_bit [of p n] by (simp add: frame_base_def)

lemma small_bits:
  assumes "unat (d :: u64) < 4096" and "bit d n"
  shows "n < 12"
proof -
  have "take_bit 12 d = d"
    using assms(1) by (intro word_unat_eq_iff [THEN iffD2]) (simp add: unsigned_take_bit_eq take_bit_nat_eq_self)
  then show ?thesis
    using assms(2) by (metis bit_take_bit_iff)
qed

lemma page_plus:
  assumes "frame_base p" and "unat d < 4096"
  shows "page_of (p + d) = p" and "p + d = p OR d"
proof -
  show or: "p + d = p OR d"
    using frame_base_low [OF assms(1)] small_bits [OF assms(2)] by (intro disjunctive_add) auto
  show "page_of (p + d) = p"
    unfolding or using frame_base_low [OF assms(1)] small_bits [OF assms(2)]
    by (intro bit_word_eqI) (auto simp: page_of_bit bit_simps not_less [symmetric])
qed

lemma unat_slot: "i < 512 \<Longrightarrow> unat (8 * of_nat i :: u64) = 8 * i"
  by (simp add: unat_word_ariths unat_of_nat)

lemma page_of_slot: "frame_base p \<Longrightarrow> i < 512 \<Longrightarrow> page_of (slot p i) = p"
  unfolding slot_def by (rule page_plus(1)) (simp_all add: unat_slot)

lemma slot_inj:
  assumes "frame_base p" and "frame_base q" and "i < 512" and "j < 512"
  shows "slot p i = slot q j \<longleftrightarrow> p = q \<and> i = j"
proof
  assume eq: "slot p i = slot q j"
  then have pq: "p = q"
    using page_of_slot assms by metis
  then have "(8 * of_nat i :: u64) = 8 * of_nat j"
    using eq by (simp add: slot_def)
  then show "p = q \<and> i = j"
    using pq unat_slot assms(3,4) by (metis nat_mult_eq_cancel1 zero_less_numeral)
qed auto

lemma fill_page_slot:
  assumes "frame_base p" and "frame_base t" and "i < 512"
  shows "vm_mem (fill_page p f s) (slot t i) = (if t = p then f i else vm_mem s (slot t i))"
proof (cases "t = p")
  case True
  have "unat (slot p i - p) = 8 * i"
    using assms(3) by (simp add: slot_def unat_slot)
  then show ?thesis
    using True assms(3) by (simp add: fill_page_def word_less_nat_alt)
next
  case False
  have "\<not> slot t i - p < PAGE_SIZE"
  proof
    assume "slot t i - p < PAGE_SIZE"
    then have "unat (slot t i - p) < 4096"
      by (simp add: word_less_nat_alt)
    from page_plus(1) [OF assms(1) this] show False
      using False page_of_slot assms by simp
  qed
  then show ?thesis
    using False by (simp add: fill_page_def)
qed

lemma set_entry_slot:
  "frame_base p \<Longrightarrow> frame_base t \<Longrightarrow> i < 512 \<Longrightarrow> j < 512 \<Longrightarrow>
     vm_mem (set_entry p i e s) (slot t j) = (if t = p \<and> j = i then e else vm_mem s (slot t j))"
  using slot_inj [of t p j i] by (auto simp: set_entry_def)

lemma frame_addr_base: "frame_base (p * PAGE_SIZE)"
proof -
  have "p * PAGE_SIZE = push_bit 12 p"
    by (simp add: push_bit_eq_mult)
  then show ?thesis
    unfolding frame_base_def by (intro bit_word_eqI) (auto simp: page_of_bit bit_simps)
qed

lemma idx_less: "pml4_idx v < 512" "pdpt_idx v < 512" "pd_idx v < 512" "pt_idx v < 512"
proof -
  have "unat (w AND 0x1FF :: u64) < 512" for w
  proof -
    have "w AND 0x1FF = take_bit 9 w"
      by (simp add: take_bit_eq_mask mask_eq_exp_minus_1)
    then show ?thesis
      by (simp add: unsigned_take_bit_eq take_bit_nat_less_exp [of 9, simplified])
  qed
  then show "pml4_idx v < 512" "pdpt_idx v < 512" "pd_idx v < 512" "pt_idx v < 512"
    by (simp_all add: pml4_idx_def pdpt_idx_def pd_idx_def pt_idx_def)
qed

section \<open>The tree of tables\<close>

text \<open>The table at a path; the last index comes first.\<close>

fun tnode :: "(u64 \<Rightarrow> u64) \<Rightarrow> u64 \<Rightarrow> nat list \<Rightarrow> u64 option" where
  "tnode m r [] = Some r"
| "tnode m r (i # p) =
     (case tnode m r p of
        None \<Rightarrow> None
      | Some t \<Rightarrow> if present (m (slot t i)) \<and> \<not> huge (m (slot t i)) then Some (page_of (m (slot t i))) else None)"

definition tpath :: "nat list \<Rightarrow> bool" where
  "tpath p \<longleftrightarrow> length p \<le> 3 \<and> (\<forall>i \<in> set p. i < 512)"

text \<open>
  A well-formed address space: different paths lead to different tables, each in an allocated frame, and
  there are no large entries above the page directories.
\<close>

definition as_ok :: "u64 \<Rightarrow> vm \<Rightarrow> bool" where
  "as_ok r s \<longleftrightarrow> pmm_inv (vm_pmm s) \<and> frame_base r \<and>
     (\<forall>p q t. tpath p \<longrightarrow> tpath q \<longrightarrow> tnode (vm_mem s) r p = Some t \<longrightarrow> tnode (vm_mem s) r q = Some t \<longrightarrow> p = q) \<and>
     (\<forall>p t. tpath p \<longrightarrow> tnode (vm_mem s) r p = Some t \<longrightarrow> t \<noteq> 0 \<and> t div PAGE_SIZE \<notin> free_pages (vm_pmm s)) \<and>
     (\<forall>p t i. tpath p \<longrightarrow> length p \<le> 1 \<longrightarrow> tnode (vm_mem s) r p = Some t \<longrightarrow> i < 512 \<longrightarrow> \<not> huge (vm_mem s (slot t i)))"

lemma as_okD:
  assumes "as_ok r s"
  shows "pmm_inv (vm_pmm s)" and "frame_base r"
    and "tpath p \<Longrightarrow> tpath q \<Longrightarrow> tnode (vm_mem s) r p = Some t \<Longrightarrow> tnode (vm_mem s) r q = Some t \<Longrightarrow> p = q"
    and "tpath p \<Longrightarrow> tnode (vm_mem s) r p = Some t \<Longrightarrow> t \<noteq> 0 \<and> t div PAGE_SIZE \<notin> free_pages (vm_pmm s)"
    and "tpath p \<Longrightarrow> length p \<le> 1 \<Longrightarrow> tnode (vm_mem s) r p = Some t \<Longrightarrow> i < 512 \<Longrightarrow> \<not> huge (vm_mem s (slot t i))"
  using assms unfolding as_ok_def by (blast | simp)+

lemma as_okI:
  assumes "pmm_inv (vm_pmm s)" and "frame_base r"
    and "\<And>p q t. tpath p \<Longrightarrow> tpath q \<Longrightarrow> tnode (vm_mem s) r p = Some t \<Longrightarrow> tnode (vm_mem s) r q = Some t \<Longrightarrow> p = q"
    and "\<And>p t. tpath p \<Longrightarrow> tnode (vm_mem s) r p = Some t \<Longrightarrow> t \<noteq> 0 \<and> t div PAGE_SIZE \<notin> free_pages (vm_pmm s)"
    and "\<And>p t i. tpath p \<Longrightarrow> length p \<le> 1 \<Longrightarrow> tnode (vm_mem s) r p = Some t \<Longrightarrow> i < 512 \<Longrightarrow> \<not> huge (vm_mem s (slot t i))"
  shows "as_ok r s"
  unfolding as_ok_def using assms by blast

lemma tpath_Cons [simp]: "tpath (i # p) \<longleftrightarrow> i < 512 \<and> length p \<le> 2 \<and> tpath p"
  by (auto simp: tpath_def)

lemma tpath_Nil [simp]: "tpath []"
  by (simp add: tpath_def)

lemma tnode_base: "frame_base r \<Longrightarrow> tnode m r p = Some t \<Longrightarrow> frame_base t"
  by (cases p) (auto simp: frame_base_page_of split: option.splits if_splits)

lemma idx_path: "tpath [pml4_idx v]" "tpath [pdpt_idx v, pml4_idx v]" "tpath [pd_idx v, pdpt_idx v, pml4_idx v]"
  using idx_less by simp_all

text \<open>Translation, by way of the page directory of the address.\<close>

definition dir_lookup_page :: "(u64 \<Rightarrow> u64) \<Rightarrow> u64 \<Rightarrow> u64 \<Rightarrow> u64" where
  "dir_lookup_page m pd v =
     (let e = m (slot pd (pd_idx v)) in
      if \<not> present e then 0
      else if huge e then (e AND NOT 0x1FFFFF) OR (v AND 0x1FFFFF)
      else let e1 = m (slot (page_of e) (pt_idx v)) in if present e1 then page_of e1 OR (v AND 0xFFF) else 0)"

lemma get_physical_node:
  assumes "as_ok r s"
  shows "vmm_get_physical_in r v s =
    (case tnode (vm_mem s) r [pdpt_idx v, pml4_idx v] of None \<Rightarrow> 0 | Some pd \<Rightarrow> dir_lookup_page (vm_mem s) pd v)"
proof -
  let ?e4 = "vm_mem s (slot r (pml4_idx v))"
  have h4: "\<not> huge ?e4"
    using as_okD(5) [OF assms tpath_Nil _ _ idx_less(1), of r] by simp
  show ?thesis
  proof (cases "present ?e4")
    case True
    then have "tnode (vm_mem s) r [pml4_idx v] = Some (page_of ?e4)"
      using h4 by simp
    from as_okD(5) [OF assms idx_path(1) _ this idx_less(2)] have "\<not> huge (vm_mem s (slot (page_of ?e4) (pdpt_idx v)))"
      by simp
    then show ?thesis
      using True h4 unfolding vmm_get_physical_in_def entry_def dir_lookup_page_def Let_def tnode.simps
      by (simp only: option.case simp_thms if_True if_False split: if_split) blast
  qed (simp add: vmm_get_physical_in_def entry_def Let_def)
qed

section \<open>Linking a new table\<close>

text \<open>
  The table \<open>t\<close> at path \<open>p\<close> has no table at index \<open>i\<close>; the frame \<open>n\<close>, free until now, becomes
  this table, with the entries \<open>g\<close>.
\<close>

definition linked :: "u64 \<Rightarrow> nat list \<Rightarrow> nat \<Rightarrow> u64 \<Rightarrow> (nat \<Rightarrow> u64) \<Rightarrow> u64 \<Rightarrow> vm \<Rightarrow> vm \<Rightarrow> bool" where
  "linked r p i n g e s s' \<longleftrightarrow>
     n div PAGE_SIZE \<in> free_pages (vm_pmm s) \<and> n \<noteq> 0 \<and> frame_base n \<and> pmm_inv (vm_pmm s') \<and>
     free_pages (vm_pmm s') = free_pages (vm_pmm s) - {n div PAGE_SIZE} \<and>
     present e \<and> \<not> huge e \<and> page_of e = n \<and>
     (\<forall>u j. frame_base u \<longrightarrow> j < 512 \<longrightarrow> vm_mem s' (slot u j) =
        (if u = n then g j else if Some u = tnode (vm_mem s) r p \<and> j = i then e else vm_mem s (slot u j)))"

lemma linkedD:
  assumes "linked r p i n g e s s'"
  shows "n div PAGE_SIZE \<in> free_pages (vm_pmm s)" and "n \<noteq> 0" and "frame_base n" and "pmm_inv (vm_pmm s')"
    and "free_pages (vm_pmm s') = free_pages (vm_pmm s) - {n div PAGE_SIZE}"
    and "present e" and "\<not> huge e" and "page_of e = n"
    and "frame_base u \<Longrightarrow> j < 512 \<Longrightarrow> vm_mem s' (slot u j) =
        (if u = n then g j else if Some u = tnode (vm_mem s) r p \<and> j = i then e else vm_mem s (slot u j))"
  using assms unfolding linked_def by (blast | simp)+

lemma linked_fresh:
  assumes "as_ok r s" and "linked r p i n g e s s'" and "tpath q" and "tnode (vm_mem s) r q = Some u"
  shows "u \<noteq> n"
  using as_okD(4) [OF assms(1,3,4)] linkedD(1) [OF assms(2)] by auto

lemma linked_tnode:
  assumes ok: "as_ok r s" and l: "linked r p i n g e s s'" and p: "tpath (i # p)" "tnode (vm_mem s) r p = Some t"
    and new: "tnode (vm_mem s) r (i # p) = None" and g: "length p \<le> 1 \<longrightarrow> (\<forall>j < 512. g j = 0)"
    and "tpath q"
  shows "tnode (vm_mem s') r q = (if q = i # p then Some n else tnode (vm_mem s) r q)"
  using assms(7)
proof (induction q)
  case (Cons j q)
  then have j: "j < 512" "length q \<le> 2" "tpath q"
    by auto
  have IH: "tnode (vm_mem s') r q = (if q = i # p then Some n else tnode (vm_mem s) r q)"
    using Cons.IH j(3) .
  have tp: "tpath p"
    using p(1) by simp
  show ?case
  proof (cases "q = i # p")
    case True
    then have "length p \<le> 1"
      using j(2) by simp
    then have "vm_mem s' (slot n j) = 0"
      using linkedD(9) [OF l linkedD(3) [OF l] j(1)] g j(1) by simp
    then show ?thesis
      using True IH new by (simp add: present_def)
  next
    case False
    then have eq: "tnode (vm_mem s') r q = tnode (vm_mem s) r q"
      using IH by simp
    show ?thesis
    proof (cases "tnode (vm_mem s) r q")
      case None
      then show ?thesis
        using eq p(2) by auto
    next
      case (Some u)
      have un: "u \<noteq> n" "frame_base u"
        using linked_fresh [OF ok l j(3) Some] tnode_base [OF as_okD(2) [OF ok] Some] by auto
      have up: "u = t \<longleftrightarrow> q = p"
        using as_okD(3) [OF ok j(3) tp] Some p(2) by auto
      show ?thesis
        using Some eq linkedD(9) [OF l un(2) j(1)] un(1) up p(2) linkedD(6-8) [OF l] by auto
    qed
  qed
qed simp

lemma linked_ok:
  assumes ok: "as_ok r s" and l: "linked r p i n g e s s'" and p: "tpath (i # p)" "tnode (vm_mem s) r p = Some t"
    and new: "tnode (vm_mem s) r (i # p) = None" and g: "length p \<le> 1 \<longrightarrow> (\<forall>j < 512. g j = 0)"
  shows "as_ok r s'"
proof (rule as_okI)
  note tn = linked_tnode [OF ok l p new g]
  show "pmm_inv (vm_pmm s')" "frame_base r"
    using linkedD(4) [OF l] as_okD(2) [OF ok] by auto
  show "q1 = q2" if "tpath q1" "tpath q2" "tnode (vm_mem s') r q1 = Some u" "tnode (vm_mem s') r q2 = Some u" for q1 q2 u
    using that tn [OF that(1)] tn [OF that(2)] linked_fresh [OF ok l] as_okD(3) [OF ok that(1,2)] by (auto split: if_splits)
  show "u \<noteq> 0 \<and> u div PAGE_SIZE \<notin> free_pages (vm_pmm s')" if "tpath q" "tnode (vm_mem s') r q = Some u" for q u
    using that tn [OF that(1)] linkedD(2) [OF l] linkedD(5) [OF l] as_okD(4) [OF ok that(1), of u]
    by (auto split: if_splits)
  show "\<not> huge (vm_mem s' (slot u j))" if q: "tpath q" "length q \<le> 1" "tnode (vm_mem s') r q = Some u" "j < 512" for q u j
  proof (cases "q = i # p")
    case True
    then have "u = n" "length p \<le> 1"
      using q(2,3) tn [OF q(1)] by auto
    then show ?thesis
      using linkedD(9) [OF l linkedD(3) [OF l] q(4)] g q(4) by (simp add: huge_def)
  next
    case False
    then have u: "tnode (vm_mem s) r q = Some u"
      using q(3) tn [OF q(1)] by simp
    have ub: "u \<noteq> n" "frame_base u"
      using linked_fresh [OF ok l q(1) u] tnode_base [OF as_okD(2) [OF ok] u] by auto
    show ?thesis
      using linkedD(9) [OF l ub(2) q(4)] ub(1) linkedD(7) [OF l] as_okD(5) [OF ok q(1,2) u q(4)] by simp
  qed
qed

lemma dir_lookup_cong:
  assumes "m' (slot pd (pd_idx v)) = m (slot pd (pd_idx v))"
    and "present (m (slot pd (pd_idx v))) \<Longrightarrow> \<not> huge (m (slot pd (pd_idx v))) \<Longrightarrow>
      m' (slot (page_of (m (slot pd (pd_idx v)))) (pt_idx v)) = m (slot (page_of (m (slot pd (pd_idx v)))) (pt_idx v))"
  shows "dir_lookup_page m' pd v = dir_lookup_page m pd v"
  using assms unfolding dir_lookup_page_def Let_def by simp

text \<open>
  The new table changes no translation: it is empty, or it is the page table that replaces a large page
  (or nothing) with entries that translate the same.
\<close>

lemma linked_translation:
  assumes ok: "as_ok r s" and l: "linked r p i n g e s s'" and p: "tpath (i # p)" "tnode (vm_mem s) r p = Some t"
    and new: "tnode (vm_mem s) r (i # p) = None" and g: "length p \<le> 1 \<longrightarrow> (\<forall>j < 512. g j = 0)"
    and pt: "\<And>v. i # p = [pd_idx v, pdpt_idx v, pml4_idx v] \<Longrightarrow>
       (if present (g (pt_idx v)) then page_of (g (pt_idx v)) OR (v AND 0xFFF) else 0) = dir_lookup_page (vm_mem s) t v"
  shows "vmm_get_physical_in r v s' = vmm_get_physical_in r v s"
proof -
  let ?q = "[pdpt_idx v, pml4_idx v]"
  note tn = linked_tnode [OF ok l p new g]
  have ok': "as_ok r s'"
    by (rule linked_ok [OF ok l p new g])
  show ?thesis
  proof (cases "?q = i # p")
    case True
    then have "length p \<le> 1"
      by auto
    then have "vm_mem s' (slot n (pd_idx v)) = 0"
      using linkedD(9) [OF l linkedD(3) [OF l] idx_less(3)] g idx_less(3) [of v] by simp
    then show ?thesis
      unfolding get_physical_node [OF ok] get_physical_node [OF ok'] tn [OF idx_path(2)]
      using True new by (simp add: dir_lookup_page_def present_def)
  next
    case False
    then have same: "tnode (vm_mem s') r ?q = tnode (vm_mem s) r ?q"
      unfolding tn [OF idx_path(2)] by (rule if_not_P)
    show ?thesis
    proof (cases "tnode (vm_mem s) r ?q")
      case None
      then show ?thesis
        unfolding get_physical_node [OF ok] get_physical_node [OF ok'] same by simp
    next
      case (Some pd)
      have pd: "pd \<noteq> n" "frame_base pd"
        using linked_fresh [OF ok l idx_path(2) Some] tnode_base [OF as_okD(2) [OF ok] Some] by auto
      have at: "vm_mem s' (slot pd (pd_idx v)) = (if pd = t \<and> pd_idx v = i then e else vm_mem s (slot pd (pd_idx v)))"
        using linkedD(9) [OF l pd(2) idx_less(3)] pd(1) p(2) by auto
      have "dir_lookup_page (vm_mem s') pd v = dir_lookup_page (vm_mem s) pd v"
      proof (cases "pd = t \<and> pd_idx v = i")
        case True
        then have "i # p = [pd_idx v, pdpt_idx v, pml4_idx v]"
          using as_okD(3) [OF ok _ idx_path(2) p(2)] Some p(1) by auto
        then have "(if present (g (pt_idx v)) then page_of (g (pt_idx v)) OR (v AND 0xFFF) else 0) = dir_lookup_page (vm_mem s) t v"
          by (rule pt)
        moreover have "vm_mem s' (slot n (pt_idx v)) = g (pt_idx v)"
          using linkedD(9) [OF l linkedD(3) [OF l] idx_less(4)] by simp
        ultimately show ?thesis
          using True at linkedD(6-8) [OF l] unfolding dir_lookup_page_def [of "vm_mem s'"] Let_def by (simp split: if_splits)
      next
        case ne: False
        show ?thesis
        proof (rule dir_lookup_cong)
          show e2: "vm_mem s' (slot pd (pd_idx v)) = vm_mem s (slot pd (pd_idx v))"
            using at ne by auto
          let ?pt = "page_of (vm_mem s (slot pd (pd_idx v)))"
          assume "present (vm_mem s (slot pd (pd_idx v)))" "\<not> huge (vm_mem s (slot pd (pd_idx v)))"
          then have n3: "tnode (vm_mem s) r [pd_idx v, pdpt_idx v, pml4_idx v] = Some ?pt"
            using Some by simp
          have "?pt \<noteq> t"
            using as_okD(3) [OF ok _ idx_path(3) p(2)] n3 p(1) by force
          then show "vm_mem s' (slot ?pt (pt_idx v)) = vm_mem s (slot ?pt (pt_idx v))"
            using linkedD(9) [OF l frame_base_page_of idx_less(4)] linked_fresh [OF ok l idx_path(3) n3] p(2) by auto
        qed
      qed
      then show ?thesis
        unfolding get_physical_node [OF ok] get_physical_node [OF ok'] same using Some by simp
    qed
  qed
qed

section \<open>Creating and splitting\<close>

lemma present_bit: "present e \<longleftrightarrow> bit e 0"
  using word_and_push_bit_1 [of 0 e] by (simp add: present_def VMM_PRESENT_def)

lemma huge_bit: "huge e \<longleftrightarrow> bit e 7"
  using word_and_push_bit_1 [of 7 e] by (simp add: huge_def VMM_HUGE_def)

definition tbl_flags_ok :: "u64 \<Rightarrow> bool" where
  "tbl_flags_ok f \<longleftrightarrow> f = VMM_PRESENT OR VMM_WRITE \<or> f = VMM_PRESENT OR VMM_WRITE OR VMM_USER"

lemma tbl_entry:
  assumes "frame_base n" and "tbl_flags_ok f"
  shows "present (n OR f)" and "\<not> huge (n OR f)" and "page_of (n OR f) = n"
proof -
  have f: "f = 3 \<or> f = 7"
    using assms(2) by (auto simp: tbl_flags_ok_def VMM_PRESENT_def VMM_WRITE_def VMM_USER_def)
  then have b: "bit f 0" "\<not> bit f 7" "unat f < 4096"
    by auto
  show "present (n OR f)" "\<not> huge (n OR f)"
    using b frame_base_low [OF assms(1)] by (auto simp: present_bit huge_bit bit_simps)
  show "page_of (n OR f) = n"
    using page_plus [OF assms(1) b(3)] by simp
qed

lemma alloc_page_spec:
  assumes "pmm_inv (vm_pmm s)"
  obtains (none) s' where "alloc_page s = (0, s')" "s' = s"
  | (some) x m where "alloc_page s = (x * PAGE_SIZE, s\<lparr>vm_pmm := m\<rparr>)" "x \<in> free_pages (vm_pmm s)" "pmm_inv m"
      "free_pages m = free_pages (vm_pmm s) - {x}" "x * PAGE_SIZE \<noteq> 0" "x * PAGE_SIZE div PAGE_SIZE = x"
proof (cases "free_pages (vm_pmm s) = {}")
  case True
  then show thesis
    using none pmm.alloc_empty [OF assms] by (simp add: alloc_page_def)
next
  case False
  then obtain x m where x: "pmm_alloc_page (vm_pmm s) = (x * PAGE_SIZE, m)" "x \<in> free_pages (vm_pmm s)" "pmm_inv m"
      "free_pages m = free_pages (vm_pmm s) - {x}"
    using pmm.alloc_some [OF assms] by blast
  show thesis
    using some x pmm.frame_addr_nonzero [OF assms x(2)] pmm.frame_addr [OF assms] pmm.frames_range [OF assms x(2)]
    by (simp add: alloc_page_def)
qed

lemma new_table_linked:
  assumes ok: "as_ok r s" and p: "tpath (i # p)" "tnode (vm_mem s) r p = Some t" and f: "tbl_flags_ok f"
  shows "(new_table t i f s = (False, s) \<and> free_pages (vm_pmm s) = {}) \<or>
    (\<exists>n s'. new_table t i f s = (True, s') \<and> linked r p i n (\<lambda>_. 0) (n OR f) s s')"
proof (rule alloc_page_spec [OF as_okD(1) [OF ok]])
  fix s' assume "alloc_page s = (0, s')" "s' = s"
  moreover from this have "free_pages (vm_pmm s) = {}"
    using pmm.alloc_null_iff [OF as_okD(1) [OF ok]] by (simp add: alloc_page_def split: prod.splits)
  ultimately show ?thesis
    by (simp add: new_table_def)
next
  fix x m assume a: "alloc_page s = (x * PAGE_SIZE, s\<lparr>vm_pmm := m\<rparr>)" "x \<in> free_pages (vm_pmm s)" "pmm_inv m"
      "free_pages m = free_pages (vm_pmm s) - {x}" "x * PAGE_SIZE \<noteq> 0" "x * PAGE_SIZE div PAGE_SIZE = x"
  define n where "n = x * PAGE_SIZE"
  have n: "frame_base n"
    by (simp only: n_def frame_addr_base)
  have tb: "frame_base t"
    using tnode_base [OF as_okD(2) [OF ok] p(2)] .
  have i: "i < 512" "tpath p"
    using p(1) by auto
  have tn: "t \<noteq> n"
    using as_okD(4) [OF ok i(2) p(2)] a(2,6) by (auto simp: n_def)
  let ?s = "set_entry t i (n OR f) (fill_page n (\<lambda>_. 0) (s\<lparr>vm_pmm := m\<rparr>))"
  have "vm_mem ?s (slot u j) = (if u = n then 0 else if Some u = tnode (vm_mem s) r p \<and> j = i then n OR f else vm_mem s (slot u j))"
    if "frame_base u" "j < 512" for u j
    using set_entry_slot [OF tb that(1) i(1) that(2)] fill_page_slot [OF n that] tn p(2) by auto
  moreover have "vm_pmm ?s = m"
    by (simp add: set_entry_def fill_page_def)
  ultimately have "linked r p i n (\<lambda>_. 0) (n OR f) s ?s"
    using a n tbl_entry [OF n f] by (simp add: linked_def n_def)
  moreover have "new_table t i f s = (True, ?s)"
    using a(1,5) by (simp add: new_table_def n_def)
  ultimately show ?thesis
    by blast
qed

text \<open>The search for a frame gives back every frame it rejects.\<close>

lemma alloc_outside_spec:
  assumes "pmm_inv m" and "alloc_outside k h (map (\<lambda>x. x * PAGE_SIZE) xs) m = (n, rej, m1)"
    and "\<forall>x \<in> set xs. x \<noteq> 0 \<and> x < total_pages m"
  shows "pmm_inv (fold pmm_free_page rej m1) \<and>
    (n = 0 \<and> free_pages (fold pmm_free_page rej m1) = set xs \<union> free_pages m \<or>
     (\<exists>x. n = x * PAGE_SIZE \<and> n \<noteq> 0 \<and> x \<in> free_pages m \<and> n div PAGE_SIZE = x \<and>
        free_pages (fold pmm_free_page rej m1) = set xs \<union> (free_pages m - {x})))"
  using assms
proof (induction k arbitrary: xs m)
  case 0
  then show ?case
    using pmm.release_all [of m xs] by auto
next
  case (Suc k)
  show ?case
  proof (cases "free_pages m = {}")
    case True
    then show ?thesis
      using Suc.prems pmm.alloc_empty [of m] pmm.release_all [of m xs] by auto
  next
    case False
    then obtain x m' where x: "pmm_alloc_page m = (x * PAGE_SIZE, m')" "x \<in> free_pages m" "pmm_inv m'"
        "free_pages m' = free_pages m - {x}" "total_pages m' = total_pages m"
      using pmm.alloc_some [OF Suc.prems(1)] by blast
    have x0: "x * PAGE_SIZE \<noteq> 0" "x * PAGE_SIZE div PAGE_SIZE = x" "x \<noteq> 0" "x < total_pages m"
      using pmm.frame_addr_nonzero [OF Suc.prems(1) x(2)] pmm.frame_addr [OF Suc.prems(1)] pmm.frames_range [OF Suc.prems(1) x(2)]
      by auto
    show ?thesis
    proof (cases "h \<le> x * PAGE_SIZE \<and> x * PAGE_SIZE < h + 0x200000")
      case True
      then have r: "alloc_outside k h (map (\<lambda>x. x * PAGE_SIZE) (xs @ [x])) m' = (n, rej, m1)"
        using Suc.prems(2) x(1) x0(1) by simp
      have "\<forall>y \<in> set (xs @ [x]). y \<noteq> 0 \<and> y < total_pages m'"
        using Suc.prems(3) x0(3,4) x(5) by simp
      note IH = Suc.IH [OF x(3) r this]
      have u: "set (xs @ [x]) \<union> free_pages m' = set xs \<union> free_pages m"
        using x(2,4) by auto
      have w: "set (xs @ [x]) \<union> (free_pages m' - {y}) = set xs \<union> (free_pages m - {y})" if "y \<in> free_pages m'" for y
        using x(2,4) that by auto
      show ?thesis
        using IH w x(4) unfolding u by (metis Diff_iff)
    next
      case False
      then have eq: "n = x * PAGE_SIZE" "rej = map (\<lambda>x. x * PAGE_SIZE) xs" "m1 = m'"
        using Suc.prems(2) x(1) x0(1) by (auto split: if_splits)
      have "\<forall>y \<in> set xs. y \<noteq> 0 \<and> y < total_pages m'"
        using Suc.prems(3) x(5) by simp
      from pmm.release_all [OF x(3) this] show ?thesis
        unfolding eq x(4) using x0(1,2) x(2) by blast
    qed
  qed
qed

text \<open>The entries of the table that replaces a 2 MiB page translate as the page did.\<close>

lemma split_entry:
  fixes e v :: u64
  defines "g \<equiv> ((e AND NOT 0x1FFFFF) + of_nat (pt_idx v) * PAGE_SIZE) OR ((e AND 0x1F) AND NOT VMM_HUGE)"
  assumes "present e"
  shows "present g" and "page_of g OR (v AND 0xFFF) = (e AND NOT 0x1FFFFF) OR (v AND 0x1FFFFF)"
proof -
  have m: "(0x1FFFFF :: u64) = mask 21" "(0x1FF :: u64) = mask 9" "(0x1F :: u64) = mask 5"
    by (simp_all add: mask_eq_exp_minus_1)
  have h: "bit VMM_HUGE j \<longleftrightarrow> j = 7" for j
  proof -
    have eq: "VMM_HUGE = push_bit 7 1"
      by (simp add: VMM_HUGE_def)
    show ?thesis
      unfolding eq by (auto simp: bit_push_bit_iff bit_1_iff simp del: push_bit_of_1)
  qed
  have k: "(of_nat (pt_idx v) :: u64) * PAGE_SIZE = push_bit 12 (drop_bit 12 v AND mask 9)"
    by (simp add: pt_idx_def push_bit_eq_mult m(2))
  have or: "(e AND NOT (mask 21)) + push_bit 12 (drop_bit 12 v AND mask 9) = (e AND NOT (mask 21)) OR push_bit 12 (drop_bit 12 v AND mask 9)"
    by (rule disjunctive_add) (auto simp: bit_simps)
  have g: "g = ((e AND NOT (mask 21)) OR push_bit 12 (drop_bit 12 v AND mask 9)) OR ((e AND mask 5) AND NOT VMM_HUGE)"
    unfolding g_def k m(1,3) or ..
  show "present g"
    using assms(2) unfolding present_bit g by (simp add: bit_simps h)
  show "page_of g OR (v AND 0xFFF) = (e AND NOT 0x1FFFFF) OR (v AND 0x1FFFFF)"
    unfolding m(1) mask_FFF
  proof (rule bit_word_eqI)
    fix j assume "j < LENGTH(64)"
    then show "bit (page_of g OR (v AND mask 12)) j = bit ((e AND NOT (mask 21)) OR (v AND mask 21)) j"
      unfolding g by (cases "j < 12"; cases "j < 21") (auto simp: bit_simps page_of_bit h)
  qed
qed

lemma split_huge_linked:
  assumes ok: "as_ok r s" and p: "tpath (i # p)" "tnode (vm_mem s) r p = Some t" and f: "tbl_flags_ok f"
    and h: "present (entry s t i)" "huge (entry s t i)"
  defines "g \<equiv> \<lambda>k. ((entry s t i AND NOT 0x1FFFFF) + of_nat k * PAGE_SIZE) OR ((entry s t i AND 0x1F) AND NOT VMM_HUGE)"
  shows "(\<exists>m. split_huge t i f s = (False, s\<lparr>vm_pmm := m\<rparr>) \<and> pmm_inv m \<and> free_pages m = free_pages (vm_pmm s)) \<or>
    (\<exists>n s'. split_huge t i f s = (True, s') \<and> linked r p i n g (n OR f) s s')"
proof -
  obtain n rej m where a: "alloc_outside 16 (entry s t i AND NOT 0x1FFFFF) [] (vm_pmm s) = (n, rej, m)"
    using prod_cases3 by blast
  define m2 where "m2 = fold pmm_free_page rej m"
  note spec = alloc_outside_spec [OF as_okD(1) [OF ok], of 16 _ "[]", unfolded list.map(1), OF a, folded m2_def, simplified]
  have eq: "split_huge t i f s = (if n = 0 then (False, s\<lparr>vm_pmm := m2\<rparr>)
      else (True, set_entry t i (n OR f) (fill_page n g (s\<lparr>vm_pmm := m2\<rparr>))))"
    unfolding split_huge_def Let_def a by (simp add: g_def m2_def)
  show ?thesis
  proof (cases "n = 0")
    case True
    then show ?thesis
      using spec eq by auto
  next
    case False
    then obtain x where x: "n = x * PAGE_SIZE" "x \<in> free_pages (vm_pmm s)" "n div PAGE_SIZE = x"
        "free_pages m2 = free_pages (vm_pmm s) - {x}" "pmm_inv m2"
      using spec by blast
    have n: "frame_base n"
      by (simp only: x(1) frame_addr_base)
    have tb: "frame_base t"
      using tnode_base [OF as_okD(2) [OF ok] p(2)] .
    have i: "i < 512" "tpath p"
      using p(1) by auto
    have tn: "t \<noteq> n"
      using as_okD(4) [OF ok i(2) p(2)] x(2,3) by auto
    let ?s = "set_entry t i (n OR f) (fill_page n g (s\<lparr>vm_pmm := m2\<rparr>))"
    have "vm_mem ?s (slot u j) = (if u = n then g j else if Some u = tnode (vm_mem s) r p \<and> j = i then n OR f else vm_mem s (slot u j))"
      if "frame_base u" "j < 512" for u j
      using set_entry_slot [OF tb that(1) i(1) that(2)] fill_page_slot [OF n that] tn p(2) by auto
    moreover have "vm_pmm ?s = m2"
      by (simp add: set_entry_def fill_page_def)
    ultimately have "linked r p i n g (n OR f) s ?s"
      using x(2-5) n tbl_entry [OF n f] False by (simp add: linked_def)
    then show ?thesis
      using eq False by auto
  qed
qed

lemma as_ok_pmm:
  assumes "as_ok r s" and "pmm_inv m" and "free_pages m = free_pages (vm_pmm s)"
  shows "as_ok r (s\<lparr>vm_pmm := m\<rparr>)" and "vmm_get_physical_in r v (s\<lparr>vm_pmm := m\<rparr>) = vmm_get_physical_in r v s"
proof -
  show "as_ok r (s\<lparr>vm_pmm := m\<rparr>)"
    using assms by (simp add: as_ok_def)
  have "entry (s\<lparr>vm_pmm := m\<rparr>) = entry s"
    by (simp add: entry_def fun_eq_iff)
  then show "vmm_get_physical_in r v (s\<lparr>vm_pmm := m\<rparr>) = vmm_get_physical_in r v s"
    by (simp only: vmm_get_physical_in_def)
qed

lemma huge_level:
  assumes "as_ok r s" and "tpath (i # p)" and "tnode (vm_mem s) r p = Some t" and "huge (entry s t i)"
  shows "length p = 2"
  using as_okD(5) [OF assms(1) _ _ assms(3), of i] assms(2,4) by (cases "length p \<le> 1") (auto simp: entry_def)

text \<open>What a call of \<^verbatim>\<open>get_or_create_table\<close> guarantees.\<close>

definition table_made :: "u64 \<Rightarrow> nat list \<Rightarrow> u64 \<Rightarrow> vm \<Rightarrow> vm \<Rightarrow> bool" where
  "table_made r q u s s' \<longleftrightarrow> as_ok r s' \<and> (\<forall>v. vmm_get_physical_in r v s' = vmm_get_physical_in r v s) \<and>
     free_pages (vm_pmm s') \<subseteq> free_pages (vm_pmm s) \<and> card (free_pages (vm_pmm s)) \<le> Suc (card (free_pages (vm_pmm s'))) \<and>
     (u \<noteq> 0 \<longrightarrow> tnode (vm_mem s') r q = Some u) \<and>
     (\<forall>p t i. tpath p \<longrightarrow> length p \<le> 2 \<longrightarrow> tnode (vm_mem s') r p = Some t \<longrightarrow> i < 512 \<longrightarrow> huge (entry s' t i) \<longrightarrow>
        tnode (vm_mem s) r p = Some t \<and> entry s t i = entry s' t i)"

lemma linked_entry:
  assumes ok: "as_ok r s" and l: "linked r p i n g e s s'" and p: "tpath (i # p)" "tnode (vm_mem s) r p = Some t"
  shows "page_of (entry s' t i) = n"
proof -
  have "t \<noteq> n"
    using linked_fresh [OF ok l _ p(2)] p(1) by simp
  then show ?thesis
    using linkedD(9) [OF l tnode_base [OF as_okD(2) [OF ok] p(2)], of i] p linkedD(8) [OF l] by (simp add: entry_def)
qed

lemma linked_made:
  assumes ok: "as_ok r s" and l: "linked r p i n g e s s'" and p: "tpath (i # p)" "tnode (vm_mem s) r p = Some t"
    and new: "tnode (vm_mem s) r (i # p) = None" and g: "length p \<le> 1 \<longrightarrow> (\<forall>j < 512. g j = 0)"
    and pt: "\<And>v. i # p = [pd_idx v, pdpt_idx v, pml4_idx v] \<Longrightarrow>
       (if present (g (pt_idx v)) then page_of (g (pt_idx v)) OR (v AND 0xFFF) else 0) = dir_lookup_page (vm_mem s) t v"
  shows "table_made r (i # p) n s s'"
proof -
  have fin: "finite (free_pages (vm_pmm s))"
    by simp
  have "card (free_pages (vm_pmm s)) \<le> Suc (card (free_pages (vm_pmm s')))"
    unfolding linkedD(5) [OF l] using linkedD(1) [OF l] by (simp add: card_Suc_Diff1)
  moreover have "tnode (vm_mem s) r q = Some u \<and> entry s u j = entry s' u j"
    if q: "tpath q" "length q \<le> 2" "tnode (vm_mem s') r q = Some u" "j < 512" "huge (entry s' u j)" for q u j
  proof -
    have "u \<noteq> n"
    proof
      assume "u = n"
      then have "huge (g j)"
        using q(4,5) linkedD(9) [OF l linkedD(3) [OF l] q(4)] by (simp add: entry_def)
      then have "\<not> length p \<le> 1"
        using g q(4) by (auto simp: huge_def)
      then have "q \<noteq> i # p"
        using q(2) by auto
      then show False
        using q(3) linked_tnode [OF ok l p new g q(1)] linked_fresh [OF ok l q(1)] \<open>u = n\<close> by simp
    qed
    moreover have "frame_base u"
      using tnode_base [OF as_okD(2) [OF ok] q(3)] .
    ultimately show ?thesis
      using q linked_tnode [OF ok l p new g q(1)] linkedD(7) [OF l] linkedD(9) [OF l _ q(4), of u]
      by (auto simp: entry_def split: if_splits)
  qed
  ultimately show "table_made r (i # p) n s s'"
    using linked_ok [OF ok l p new g] linked_translation [OF ok l p new g pt] linked_tnode [OF ok l p new g p(1)] linkedD(5) [OF l]
    unfolding table_made_def by auto
qed

lemma get_or_create_spec:
  assumes ok: "as_ok r s" and p: "tpath (i # p)" "tnode (vm_mem s) r p = Some t" and f: "tbl_flags_ok f"
    and gc: "get_or_create_table t i f s = (u, s')"
  shows "table_made r (i # p) u s s'"
proof -
  let ?e = "entry s t i"
  consider (old) "present ?e" "\<not> huge ?e" | (split) "present ?e" "huge ?e" | (new) "\<not> present ?e"
    by blast
  then show ?thesis
  proof cases
    case old
    then have "u = page_of ?e" "s' = s"
      using gc by (auto simp: get_or_create_table_def)
    moreover have "tnode (vm_mem s) r (i # p) = Some (page_of ?e)"
      using old p(2) by (simp add: entry_def)
    ultimately show ?thesis
      using ok by (simp add: table_made_def)
  next
    case new
    then have none: "tnode (vm_mem s) r (i # p) = None"
      using p(2) by (simp add: entry_def)
    from new_table_linked [OF ok p f] show ?thesis
    proof (elim disjE conjE exE)
      assume "new_table t i f s = (False, s)"
      then show ?thesis
        using gc new ok by (simp add: get_or_create_table_def table_made_def)
    next
      fix n s1 assume n: "new_table t i f s = (True, s1)" "linked r p i n (\<lambda>_. 0) (n OR f) s s1"
      have "dir_lookup_page (vm_mem s) t v = 0" if "i # p = [pd_idx v, pdpt_idx v, pml4_idx v]" for v
        using that new by (simp add: dir_lookup_page_def entry_def)
      then have "table_made r (i # p) n s s1"
        using linked_made [OF ok n(2) p none] by (simp add: present_def)
      then show ?thesis
        using linked_entry [OF ok n(2) p] gc new n(1) by (simp add: get_or_create_table_def)
    qed
  next
    case split
    then have none: "tnode (vm_mem s) r (i # p) = None"
      using p(2) by (simp add: entry_def)
    have lp: "length p = 2"
      using huge_level [OF ok p split(2)] .
    from split_huge_linked [OF ok p f split] show ?thesis
    proof (elim disjE conjE exE)
      fix m assume m: "split_huge t i f s = (False, s\<lparr>vm_pmm := m\<rparr>)" "pmm_inv m" "free_pages m = free_pages (vm_pmm s)"
      then have "u = 0" "s' = s\<lparr>vm_pmm := m\<rparr>"
        using gc split by (simp_all add: get_or_create_table_def)
      then show ?thesis
        using as_ok_pmm [OF ok m(2,3)] m(3) by (simp add: table_made_def entry_def)
    next
      let ?g = "\<lambda>k. ((?e AND NOT 0x1FFFFF) + of_nat k * PAGE_SIZE) OR ((?e AND 0x1F) AND NOT VMM_HUGE)"
      fix n s1 assume n: "split_huge t i f s = (True, s1)" "linked r p i n ?g (n OR f) s s1"
      have pt: "(if present (?g (pt_idx v)) then page_of (?g (pt_idx v)) OR (v AND 0xFFF) else 0) = dir_lookup_page (vm_mem s) t v"
        if "i # p = [pd_idx v, pdpt_idx v, pml4_idx v]" for v
      proof -
        have "dir_lookup_page (vm_mem s) t v = (?e AND NOT 0x1FFFFF) OR (v AND 0x1FFFFF)"
          using that split unfolding dir_lookup_page_def entry_def Let_def by simp
        then show ?thesis
          using split_entry [OF split(1), of v] by simp
      qed
      have "length p \<le> 1 \<longrightarrow> (\<forall>j < 512. ?g j = 0)"
        using lp by simp
      from linked_made [OF ok n(2) p none this pt] show ?thesis
        using linked_entry [OF ok n(2) p] gc split n(1) by (simp add: get_or_create_table_def)
    qed
  qed
qed

section \<open>Mapping a page\<close>

text \<open>Two addresses in the same 4 KiB page of the 48-bit address space.\<close>

definition same_page :: "u64 \<Rightarrow> u64 \<Rightarrow> bool" where
  "same_page v w \<longleftrightarrow> pml4_idx v = pml4_idx w \<and> pdpt_idx v = pdpt_idx w \<and> pd_idx v = pd_idx w \<and> pt_idx v = pt_idx w"

lemma take_bit_eq_bits:
  shows "take_bit n (x :: u64) = take_bit n y \<longleftrightarrow> (\<forall>j < n. bit x j = bit y j)"
proof
  assume eq: "take_bit n x = take_bit n y"
  have "bit (take_bit n x) j = bit x j" "bit (take_bit n y) j = bit y j" if "j < n" for j
    using that by (simp_all add: bit_take_bit_iff)
  then show "\<forall>j < n. bit x j = bit y j"
    unfolding eq by blast
next
  assume "\<forall>j < n. bit x j = bit y j"
  then show "take_bit n x = take_bit n y"
    by (intro bit_word_eqI) (auto simp: bit_take_bit_iff)
qed

lemma same_page_iff: "same_page v w \<longleftrightarrow> take_bit 36 (drop_bit 12 v) = take_bit 36 (drop_bit 12 w)"
proof -
  have m: "x AND 0x1FF = take_bit 9 x" for x :: u64
    by (simp add: take_bit_eq_mask mask_eq_exp_minus_1)
  have b: "unat (drop_bit k v AND 0x1FF) = unat (drop_bit k w AND 0x1FF) \<longleftrightarrow> (\<forall>j < 9. bit v (k + j) = bit w (k + j))" for k
    unfolding m word_unat_eq_iff [symmetric] by (subst take_bit_eq_bits) (simp_all add: bit_drop_bit_eq)
  have "take_bit 36 (drop_bit 12 v) = take_bit 36 (drop_bit 12 w) \<longleftrightarrow> (\<forall>j < 36. bit v (12 + j) = bit w (12 + j))"
    by (subst take_bit_eq_bits) (simp_all add: bit_drop_bit_eq)
  also have "\<dots> \<longleftrightarrow> (\<forall>c < 4. \<forall>j < 9. bit v (12 + 9 * c + j) = bit w (12 + 9 * c + j))"
  proof (rule iffI; intro allI impI)
    fix j :: nat assume B: "\<forall>c < 4. \<forall>j < 9. bit v (12 + 9 * c + j) = bit w (12 + 9 * c + j)" and "j < 36"
    then have "j div 9 < 4" "j mod 9 < 9"
      by auto
    with B have "bit v (12 + 9 * (j div 9) + j mod 9) = bit w (12 + 9 * (j div 9) + j mod 9)"
      by blast
    then show "bit v (12 + j) = bit w (12 + j)"
      by (simp add: add.assoc)
  qed (simp add: add.assoc)
  also have "\<dots> \<longleftrightarrow> same_page v w"
  proof -
    have "(\<forall>c < (4 :: nat). P c) \<longleftrightarrow> P 3 \<and> P 2 \<and> P 1 \<and> P 0" for P
      by (auto simp: numeral_eq_Suc less_Suc_eq)
    then show ?thesis
      unfolding same_page_def pml4_idx_def pdpt_idx_def pd_idx_def pt_idx_def b by simp
  qed
  finally show ?thesis
    by blast
qed

lemma table_madeD:
  assumes "table_made r q u s s'"
  shows "as_ok r s'" and "vmm_get_physical_in r v s' = vmm_get_physical_in r v s"
    and "free_pages (vm_pmm s') \<subseteq> free_pages (vm_pmm s)" and "card (free_pages (vm_pmm s)) \<le> Suc (card (free_pages (vm_pmm s')))"
    and "u \<noteq> 0 \<Longrightarrow> tnode (vm_mem s') r q = Some u"
    and "tpath p \<Longrightarrow> length p \<le> 2 \<Longrightarrow> tnode (vm_mem s') r p = Some t \<Longrightarrow> i < 512 \<Longrightarrow> huge (entry s' t i) \<Longrightarrow>
        tnode (vm_mem s) r p = Some t \<and> entry s t i = entry s' t i"
  using assms unfolding table_made_def by (blast | simp)+

text \<open>With a free frame outside the large page that may have to be split, a table is always obtained.\<close>

definition outside :: "u64 \<Rightarrow> vm \<Rightarrow> bool" where
  "outside e s \<longleftrightarrow> (\<forall>x \<in> free_pages (vm_pmm s). \<not> (e AND NOT 0x1FFFFF \<le> x * PAGE_SIZE \<and> x * PAGE_SIZE < (e AND NOT 0x1FFFFF) + 0x200000))"

lemma get_or_create_succeeds:
  assumes ok: "as_ok r s" and p: "tpath (i # p)" "tnode (vm_mem s) r p = Some t" and f: "tbl_flags_ok f"
    and room: "free_pages (vm_pmm s) \<noteq> {}" "huge (entry s t i) \<longrightarrow> outside (entry s t i) s"
    and gc: "get_or_create_table t i f s = (u, s')"
  shows "u \<noteq> 0"
proof -
  let ?e = "entry s t i"
  consider (old) "present ?e" "\<not> huge ?e" | (split) "present ?e" "huge ?e" | (new) "\<not> present ?e"
    by blast
  then show ?thesis
  proof cases
    case old
    then have u: "u = page_of ?e" and node: "tnode (vm_mem s) r (i # p) = Some (page_of ?e)"
      using gc p(2) by (auto simp: get_or_create_table_def entry_def)
    show ?thesis
      unfolding u using as_okD(4) [OF ok p(1) node] by blast
  next
    case new
    then have none: "tnode (vm_mem s) r (i # p) = None"
      using p(2) by (simp add: entry_def)
    obtain n s1 where n: "new_table t i f s = (True, s1)" "linked r p i n (\<lambda>_. 0) (n OR f) s s1"
      using new_table_linked [OF ok p f] room(1) by blast
    then show ?thesis
      using linked_entry [OF ok n(2) p] gc new n(1) linkedD(2) [OF n(2)] by (simp add: get_or_create_table_def)
  next
    case split
    obtain x m where x: "pmm_alloc_page (vm_pmm s) = (x * PAGE_SIZE, m)" "x \<in> free_pages (vm_pmm s)"
      using pmm.alloc_some [OF as_okD(1) [OF ok] room(1)] by blast
    have x0: "x * PAGE_SIZE \<noteq> 0"
      using pmm.frame_addr_nonzero [OF as_okD(1) [OF ok] x(2)] .
    have "\<not> (?e AND NOT 0x1FFFFF \<le> x * PAGE_SIZE \<and> x * PAGE_SIZE < (?e AND NOT 0x1FFFFF) + 0x200000)"
      using room(2) split(2) x(2) unfolding outside_def by blast
    then have "alloc_outside (Suc 15) (?e AND NOT 0x1FFFFF) [] (vm_pmm s) = (x * PAGE_SIZE, [], m)"
      unfolding alloc_outside.simps x(1) using x0 by (simp only: prod.case if_False)
    then have a: "alloc_outside 16 (?e AND NOT 0x1FFFFF) [] (vm_pmm s) = (x * PAGE_SIZE, [], m)"
      by simp
    have "fst (split_huge t i f s)"
      unfolding split_huge_def Let_def a using x0 by simp
    moreover obtain n s1 where n: "split_huge t i f s = (True, s1)" "linked r p i n
        (\<lambda>k. ((?e AND NOT 0x1FFFFF) + of_nat k * PAGE_SIZE) OR ((?e AND 0x1F) AND NOT VMM_HUGE)) (n OR f) s s1"
      using split_huge_linked [OF ok p f split] calculation by fastforce
    then show ?thesis
      using linked_entry [OF ok n(2) p] gc split n(1) linkedD(2) [OF n(2)] by (simp add: get_or_create_table_def)
  qed
qed

text \<open>Writing an entry of a page table.\<close>

lemma leaf_tnode:
  assumes ok: "as_ok r s" and pt: "tpath p3" "length p3 = 3" "tnode (vm_mem s) r p3 = Some pt" and k: "k < 512" and "tpath q"
  shows "tnode (vm_mem (set_entry pt k e s)) r q = tnode (vm_mem s) r q"
  using assms(6)
proof (induction q)
  case (Cons j q)
  then have j: "j < 512" "length q \<le> 2" "tpath q" and IH: "tnode (vm_mem (set_entry pt k e s)) r q = tnode (vm_mem s) r q"
    by auto
  show ?case
  proof (cases "tnode (vm_mem s) r q")
    case (Some u)
    then have "u \<noteq> pt"
      using as_okD(3) [OF ok j(3) pt(1)] pt(2,3) j(2) by auto
    then show ?thesis
      using IH Some set_entry_slot [OF tnode_base tnode_base k j(1)] as_okD(2) [OF ok] pt(3) by simp
  qed (use IH in simp)
qed simp

lemma leaf_ok:
  assumes ok: "as_ok r s" and pt: "tpath p3" "length p3 = 3" "tnode (vm_mem s) r p3 = Some pt" and k: "k < 512"
  shows "as_ok r (set_entry pt k e s)"
proof (rule as_okI)
  note tn = leaf_tnode [OF ok pt k, where e = e]
  have pm: "vm_pmm (set_entry pt k e s) = vm_pmm s"
    by (simp add: set_entry_def)
  show "pmm_inv (vm_pmm (set_entry pt k e s))" "frame_base r"
    using as_okD(1,2) [OF ok] pm by auto
  show "p = q" if "tpath p" "tpath q" "tnode (vm_mem (set_entry pt k e s)) r p = Some t" "tnode (vm_mem (set_entry pt k e s)) r q = Some t" for p q t
    using that tn as_okD(3) [OF ok] by auto
  show "t \<noteq> 0 \<and> t div PAGE_SIZE \<notin> free_pages (vm_pmm (set_entry pt k e s))"
    if "tpath p" "tnode (vm_mem (set_entry pt k e s)) r p = Some t" for p t
    using that tn as_okD(4) [OF ok] pm by auto
  show "\<not> huge (vm_mem (set_entry pt k e s) (slot t i))"
    if q: "tpath p" "length p \<le> 1" "tnode (vm_mem (set_entry pt k e s)) r p = Some t" "i < 512" for p t i
  proof -
    have t: "tnode (vm_mem s) r p = Some t"
      using q(3) tn [OF q(1)] by simp
    then have "t \<noteq> pt"
      using as_okD(3) [OF ok q(1) pt(1)] pt(2,3) q(2) by auto
    then show ?thesis
      using set_entry_slot [OF tnode_base tnode_base k q(4)] as_okD(2) [OF ok] pt(3) t as_okD(5) [OF ok q(1,2) t q(4)] by simp
  qed
qed

lemma leaf_translation:
  assumes ok: "as_ok r s" and pt: "tnode (vm_mem s) r [pd_idx v, pdpt_idx v, pml4_idx v] = Some pt" and e: "present e"
  shows "vmm_get_physical_in r w (set_entry pt (pt_idx v) e s) =
    (if same_page w v then page_of e OR (w AND 0xFFF) else vmm_get_physical_in r w s)"
proof -
  let ?s = "set_entry pt (pt_idx v) e s" and ?q = "[pdpt_idx w, pml4_idx w]"
  have l3: "length [pd_idx v, pdpt_idx v, pml4_idx v] = 3"
    by simp
  note tn = leaf_tnode [OF ok idx_path(3) l3 pt idx_less(4) [of v], where e = e]
  have ok': "as_ok r ?s"
    by (rule leaf_ok [OF ok idx_path(3) l3 pt idx_less(4)])
  have ptb: "frame_base pt"
    using tnode_base [OF as_okD(2) [OF ok] pt] .
  show ?thesis
  proof (cases "tnode (vm_mem s) r ?q")
    case None
    have "\<not> same_page w v"
    proof
      assume "same_page w v"
      then have "tnode (vm_mem s) r [pdpt_idx v, pml4_idx v] = None"
        using None by (simp add: same_page_def del: tnode.simps)
      then show False
        using pt tnode.simps(2) [of "vm_mem s" r "pd_idx v" "[pdpt_idx v, pml4_idx v]"] by (simp del: tnode.simps)
    qed
    then show ?thesis
      unfolding get_physical_node [OF ok] get_physical_node [OF ok'] tn [OF idx_path(2)] using None by (simp del: tnode.simps)
  next
    case (Some pd)
    have pdb: "frame_base pd" "pd \<noteq> pt"
      using tnode_base [OF as_okD(2) [OF ok] Some] as_okD(3) [OF ok idx_path(2) idx_path(3) Some, of v] pt by auto
    have e2: "vm_mem ?s (slot pd (pd_idx w)) = vm_mem s (slot pd (pd_idx w))"
      using set_entry_slot [OF ptb pdb(1) idx_less(4,3)] pdb(2) by simp
    let ?e2 = "vm_mem s (slot pd (pd_idx w))"
    have n3: "tnode (vm_mem s) r [pd_idx w, pdpt_idx w, pml4_idx w] = (if present ?e2 \<and> \<not> huge ?e2 then Some (page_of ?e2) else None)"
      unfolding tnode.simps(2) [of _ _ "pd_idx w"] Some by simp
    have "dir_lookup_page (vm_mem ?s) pd w =
        (if same_page w v then page_of e OR (w AND 0xFFF) else dir_lookup_page (vm_mem s) pd w)"
    proof (cases "same_page w v")
      case True
      then have "[pd_idx w, pdpt_idx w, pml4_idx w] = [pd_idx v, pdpt_idx v, pml4_idx v]" "pt_idx w = pt_idx v"
        by (auto simp: same_page_def)
      then have "present ?e2" "\<not> huge ?e2" "page_of ?e2 = pt"
        using n3 pt by (auto split: if_splits)
      moreover have "vm_mem ?s (slot pt (pt_idx w)) = e"
        using set_entry_slot [OF ptb ptb idx_less(4,4)] \<open>pt_idx w = pt_idx v\<close> by simp
      ultimately show ?thesis
        using True e e2 unfolding dir_lookup_page_def Let_def by simp
    next
      case False
      have "dir_lookup_page (vm_mem ?s) pd w = dir_lookup_page (vm_mem s) pd w"
      proof (rule dir_lookup_cong)
        show "vm_mem ?s (slot pd (pd_idx w)) = ?e2"
          by (rule e2)
        assume "present ?e2" "\<not> huge ?e2"
        then have "tnode (vm_mem s) r [pd_idx w, pdpt_idx w, pml4_idx w] = Some (page_of ?e2)"
          using n3 by simp
        then have "page_of ?e2 = pt \<Longrightarrow> pt_idx w \<noteq> pt_idx v"
          using as_okD(3) [OF ok idx_path(3) idx_path(3) _ pt, of w] False by (auto simp: same_page_def)
        then show "vm_mem ?s (slot (page_of ?e2) (pt_idx w)) = vm_mem s (slot (page_of ?e2) (pt_idx w))"
          using set_entry_slot [OF ptb frame_base_page_of idx_less(4,4)] by auto
      qed
      then show ?thesis
        using False by simp
    qed
    then show ?thesis
      unfolding get_physical_node [OF ok] get_physical_node [OF ok'] tn [OF idx_path(2)] using Some by (simp del: tnode.simps)
  qed
qed

section \<open>Properties\<close>

declare tnode.simps(2) [simp del]

text \<open>Enough free frames to map the page of \<open>v\<close>: three, and none in the large page that covers it, if one does.\<close>

definition roomy :: "u64 \<Rightarrow> u64 \<Rightarrow> vm \<Rightarrow> bool" where
  "roomy r v s \<longleftrightarrow> 3 \<le> card (free_pages (vm_pmm s)) \<and>
     (\<forall>pd. tnode (vm_mem s) r [pdpt_idx v, pml4_idx v] = Some pd \<longrightarrow> huge (entry s pd (pd_idx v)) \<longrightarrow>
        outside (entry s pd (pd_idx v)) s)"

lemma outside_mono: "outside e s \<Longrightarrow> free_pages (vm_pmm s') \<subseteq> free_pages (vm_pmm s) \<Longrightarrow> outside e s'"
  unfolding outside_def by blast

lemma map_page_tables:
  assumes ok: "as_ok r s"
  obtains (none) s' where "vmm_map_page_in r v phys flags s = s'" "as_ok r s'"
      "\<And>w. vmm_get_physical_in r w s' = vmm_get_physical_in r w s" "\<not> roomy r v s"
  | (some) pt s3 where "vmm_map_page_in r v phys flags s = set_entry pt (pt_idx v) (page_of phys OR flags) s3" "as_ok r s3"
      "\<And>w. vmm_get_physical_in r w s3 = vmm_get_physical_in r w s" "tnode (vm_mem s3) r [pd_idx v, pdpt_idx v, pml4_idx v] = Some pt"
proof -
  define f where "f = (if flags AND VMM_USER \<noteq> 0 then VMM_PRESENT OR VMM_WRITE OR VMM_USER else VMM_PRESENT OR VMM_WRITE)"
  have f: "tbl_flags_ok f"
    by (simp add: f_def tbl_flags_ok_def)
  obtain t1 s1 where g1: "get_or_create_table r (pml4_idx v) f s = (t1, s1)"
    by (rule prod.exhaust)
  obtain t2 s2 where g2: "get_or_create_table t1 (pdpt_idx v) f s1 = (t2, s2)"
    by (rule prod.exhaust)
  obtain t3 s3 where g3: "get_or_create_table t2 (pd_idx v) f s2 = (t3, s3)"
    by (rule prod.exhaust)
  have eq: "vmm_map_page_in r v phys flags s =
      (if t1 = 0 then s1 else if t2 = 0 then s2 else if t3 = 0 then s3 else set_entry t3 (pt_idx v) (page_of phys OR flags) s3)"
    unfolding vmm_map_page_in_def Let_def f_def [symmetric] g1 prod.case g2 g3 by simp
  have r0: "tnode (vm_mem s) r [] = Some r"
    by simp
  note m1 = get_or_create_spec [OF ok idx_path(1) r0 f g1]
  have c1: "free_pages (vm_pmm s) \<noteq> {}" if "roomy r v s"
    using that by (auto simp: roomy_def)
  show thesis
  proof (cases "t1 = 0")
    case True
    have "\<not> roomy r v s"
      using get_or_create_succeeds [OF ok idx_path(1) r0 f c1 _ g1] as_okD(5) [OF ok tpath_Nil _ r0 idx_less(1)] True
      by (auto simp: entry_def)
    then show ?thesis
      using none [of s1] eq True table_madeD(1,2) [OF m1] by simp
  next
    case t1: False
    note n1 = table_madeD(5) [OF m1 t1]
    note m2 = get_or_create_spec [OF table_madeD(1) [OF m1] idx_path(2) n1 f g2]
    have c2: "free_pages (vm_pmm s1) \<noteq> {}" if "roomy r v s"
      using that table_madeD(4) [OF m1] by (auto simp: roomy_def)
    show ?thesis
    proof (cases "t2 = 0")
      case True
      have "\<not> roomy r v s"
        using get_or_create_succeeds [OF table_madeD(1) [OF m1] idx_path(2) n1 f c2 _ g2]
          as_okD(5) [OF table_madeD(1) [OF m1] idx_path(1) _ n1 idx_less(2)] True by (auto simp: entry_def)
      then show ?thesis
        using none [of s2] eq True t1 table_madeD(1,2) [OF m2] table_madeD(2) [OF m1] by simp
    next
      case t2: False
      note n2 = table_madeD(5) [OF m2 t2]
      note m3 = get_or_create_spec [OF table_madeD(1) [OF m2] idx_path(3) n2 f g3]
      have same: "vmm_get_physical_in r w s3 = vmm_get_physical_in r w s" for w
        using table_madeD(2) [OF m1] table_madeD(2) [OF m2] table_madeD(2) [OF m3] by simp
      have l2: "length [pdpt_idx v, pml4_idx v] \<le> 2"
        by simp
      show ?thesis
      proof (cases "t3 = 0")
        case True
        have "\<not> roomy r v s"
        proof
          assume room: "roomy r v s"
          have free: "free_pages (vm_pmm s2) \<noteq> {}"
            using room table_madeD(4) [OF m1] table_madeD(4) [OF m2] by (auto simp: roomy_def)
          have "outside (entry s2 t2 (pd_idx v)) s2" if h: "huge (entry s2 t2 (pd_idx v))"
          proof -
            have 1: "tnode (vm_mem s1) r [pdpt_idx v, pml4_idx v] = Some t2" "entry s1 t2 (pd_idx v) = entry s2 t2 (pd_idx v)"
              using table_madeD(6) [OF m2 idx_path(2) l2 n2 idx_less(3) h] by auto
            then have 2: "tnode (vm_mem s) r [pdpt_idx v, pml4_idx v] = Some t2" "entry s t2 (pd_idx v) = entry s2 t2 (pd_idx v)"
              using table_madeD(6) [OF m1 idx_path(2) l2 1(1) idx_less(3) [of v]] h by auto
            have "outside (entry s2 t2 (pd_idx v)) s"
              using room 2 h unfolding roomy_def by metis
            then show ?thesis
              using outside_mono table_madeD(3) [OF m1] table_madeD(3) [OF m2] by blast
          qed
          then show False
            using get_or_create_succeeds [OF table_madeD(1) [OF m2] idx_path(3) n2 f free _ g3] True by blast
        qed
        then show ?thesis
          using none [of s3] eq True t1 t2 table_madeD(1) [OF m3] same by simp
      next
        case False
        then show ?thesis
          using some [of t3 s3] eq t1 t2 table_madeD(1) [OF m3] table_madeD(5) [OF m3] same by simp
      qed
    qed
  qed
qed

text \<open>
  C33. Mapping a page is exact: in a well-formed address space with enough free frames, after
  \<^verbatim>\<open>vmm_map_page_in\<close> the addresses of the page translate to the given frame and every other address
  translates as before, also when tables had to be created or a 2 MiB page had to be split; the
  address space stays well-formed. Without enough frames the call does this or changes no translation.
\<close>
theorem vmm_map_page_correct:
  assumes "as_ok pml4 s" and "present flags" and "page_of flags = 0" and "s' = vmm_map_page_in pml4 virt phys flags s"
  shows "as_ok pml4 s' \<and>
    ((\<forall>w. vmm_get_physical_in pml4 w s' = (if same_page w virt then page_of phys OR (w AND 0xFFF) else vmm_get_physical_in pml4 w s)) \<or>
     (\<forall>w. vmm_get_physical_in pml4 w s' = vmm_get_physical_in pml4 w s) \<and> \<not> roomy pml4 virt s)"
proof -
  let ?e = "page_of phys OR flags"
  have e: "present ?e" "page_of ?e = page_of phys"
  proof -
    show "present ?e"
      using assms(2) by (simp add: present_bit bit_simps)
    have "\<not> bit flags n" if "12 \<le> n" for n
      using page_of_bit [of flags n] assms(3) that by simp
    then show "page_of ?e = page_of phys"
      by (intro bit_word_eqI) (auto simp: page_of_bit bit_simps)
  qed
  show ?thesis
  proof (rule map_page_tables [OF assms(1), of virt phys flags])
    fix s1 assume "vmm_map_page_in pml4 virt phys flags s = s1" "as_ok pml4 s1"
      "\<And>w. vmm_get_physical_in pml4 w s1 = vmm_get_physical_in pml4 w s" "\<not> roomy pml4 virt s"
    then show ?thesis
      using assms(4) by simp
  next
    fix pt s3 assume m: "vmm_map_page_in pml4 virt phys flags s = set_entry pt (pt_idx virt) ?e s3" "as_ok pml4 s3"
      "\<And>w. vmm_get_physical_in pml4 w s3 = vmm_get_physical_in pml4 w s"
      "tnode (vm_mem s3) pml4 [pd_idx virt, pdpt_idx virt, pml4_idx virt] = Some pt"
    have "as_ok pml4 s'"
      unfolding assms(4) m(1) by (rule leaf_ok [OF m(2) idx_path(3) _ m(4) idx_less(4)]) simp
    then show ?thesis
      using leaf_translation [OF m(2,4) e(1)] unfolding assms(4) m(1) m(3) e(2) by blast
  qed
qed

text \<open>An address space that consists of an empty top-level table in frame 1.\<close>

definition sample_vm :: vm where
  "sample_vm = \<lparr>vm_mem = (\<lambda>_. 0), vm_pmm = pmm_occupy 1 sample_pmm, boot_cr3 = 0x1000, cr3_reg = 0x1000\<rparr>"

lemma sample_vm_free: "pmm_inv (vm_pmm sample_vm)" "free_pages (vm_pmm sample_vm) = {p. 2 \<le> unat p \<and> unat p < 16}"
proof -
  have w: "pmm_wf sample_pmm" "0 \<notin> free_pages sample_pmm"
    using sample_pmm_props(1) by (auto simp: pmm_inv_def)
  note o = pmm_occupy_sets [OF w(1) sample_pmm_free] pmm_occupy_wf [OF w(1) sample_pmm_free]
  show "pmm_inv (vm_pmm sample_vm)"
    using o w by (simp add: sample_vm_def pmm_inv_def)
  show "free_pages (vm_pmm sample_vm) = {p. 2 \<le> unat p \<and> unat p < 16}"
  proof -
    have one: "p = 1 \<longleftrightarrow> unat p = 1" for p :: u64
      by (simp only: word_unat_eq_iff unat_1)
    have "{p :: u64. 1 \<le> unat p \<and> unat p < 16} - {1} = {p. 2 \<le> unat p \<and> unat p < 16}"
      by (rule set_eqI, unfold Diff_iff mem_Collect_eq singleton_iff one) linarith
    then show ?thesis
      using o(1) unfolding sample_pmm_props(3) by (simp add: sample_vm_def)
  qed
qed

lemma sample_vm_ok: "as_ok 0x1000 sample_vm"
proof -
  have n: "tnode (vm_mem sample_vm) 0x1000 p = Some t \<longleftrightarrow> p = [] \<and> t = 0x1000" for p t
    by (cases p) (auto simp: sample_vm_def present_def tnode.simps(2) split: option.splits)
  have "(0x1000 :: u64) div PAGE_SIZE = 1"
    by simp
  then show ?thesis
    unfolding as_ok_def n using sample_vm_free by (auto simp: frame_base_def page_of_def sample_vm_def huge_def)
qed

lemma sample_vm_roomy: "roomy 0x1000 v sample_vm"
proof -
  have n: "tnode (vm_mem sample_vm) 0x1000 [pdpt_idx v, pml4_idx v] = None"
    by (simp add: sample_vm_def present_def tnode.simps(2))
  have "{2, 3, 4} \<subseteq> free_pages (vm_pmm sample_vm)"
    unfolding sample_vm_free by auto
  from card_mono [OF _ this] show ?thesis
    unfolding roomy_def n by simp
qed

theorem vmm_map_page_correct_witness:
  "vmm_get_physical_in 0x1000 0x400123 (vmm_map_page_in 0x1000 0x400000 0x9000 7 sample_vm) = 0x9123"
proof -
  have "present 7" "page_of 7 = 0" "same_page 0x400123 0x400000" "page_of 0x9000 OR (0x400123 AND 0xFFF) = 0x9123"
    by (simp_all add: present_def VMM_PRESENT_def page_of_def same_page_def pml4_idx_def pdpt_idx_def pd_idx_def pt_idx_def)
  then show ?thesis
    using vmm_map_page_correct [OF sample_vm_ok, of 7 _ "0x400000" "0x9000"] sample_vm_roomy [of "0x400000"] by auto
qed

end
