(* ===== verification/Task.thy ===== *)
theory Task
  imports Vfs Vmm Vma
begin

text \<open>
  Tasks, \<^verbatim>\<open>task/task.c\<close> and the sending half of \<^verbatim>\<open>task/signal.c\<close>: the pool of 64 task structures, the
  circular run list, blocking and waking, signals, waiting, exit and kill. A pointer to a task is
  its index in the pool. The saved register frame that a task's \<open>rsp\<close> points to is kept in the task
  (\<open>t_frame\<close>). Blocks given to \<^verbatim>\<open>kfree\<close> are recorded in order in \<open>kfreed\<close>. The walks round the run
  list have the result \<open>None\<close> when they do not end or follow a null pointer.
\<close>

unbundle bit_operations_syntax

section \<open>Structures\<close>

definition MAX_TASKS :: nat where
  "MAX_TASKS = 64"

definition TASK_STACK_SIZE :: u64 where
  "TASK_STACK_SIZE = 4096"

definition PROC_MAX_FDS :: nat where
  "PROC_MAX_FDS = 16"

abbreviation OFD_NONE :: int where
  "OFD_NONE \<equiv> - 1"

abbreviation OFD_CONSOLE_IN :: int where
  "OFD_CONSOLE_IN \<equiv> - 2"

abbreviation OFD_CONSOLE_OUT :: int where
  "OFD_CONSOLE_OUT \<equiv> - 3"

definition MAX_SIGNALS :: nat where
  "MAX_SIGNALS = 12"

definition SIGKILL :: int where
  "SIGKILL = 1"

definition SIGPIPE :: int where
  "SIGPIPE = 5"

definition SIGTSTP :: int where
  "SIGTSTP = 7"

definition SIGSTOP :: int where
  "SIGSTOP = 8"

definition SIGCONT :: int where
  "SIGCONT = 9"

datatype task_state = TASK_UNUSED | TASK_READY | TASK_RUNNING | TASK_ZOMBIE | TASK_BLOCKED | TASK_STOPPED

text \<open>What a task can block on: a pipe, the end of another task, or the console.\<close>

datatype channel = Chan_pipe nat | Chan_task nat | Chan_console

record task =
  t_rsp :: u64
  t_frame :: "u64 list"
  pid :: u64
  ppid :: u64
  pgid :: u64
  uid :: u16
  gid :: u16
  t_name :: cstring
  t_state :: task_state
  stack_base :: u64
  ticks :: u64
  t_next :: "nat option"
  kstack_base :: u64
  kstack_top :: u64
  is_user :: bool
  cr3 :: u64
  elf_load_base :: u64
  elf_num_pages :: u64
  brk :: u64
  pending_signals :: u32
  signal_handlers :: "u64 list"
  exit_code :: int
  block_channel :: "channel option"
  vmas :: "vma list"
  mmap_brk :: u64
  ofd :: "int list"
  fpu_state :: "u8 list"
  fpu_used :: bool

record kernel =
  task_pool :: "task list"
  next_pid :: u64
  current :: "nat option"
  k_vfs :: vfs_state
  k_vm :: vm
  fpu_reg :: "u8 list"
  tss_rsp0 :: u64
  kfreed :: "u64 list"

definition task_zero :: task where
  "task_zero = \<lparr>t_rsp = 0, t_frame = [], pid = 0, ppid = 0, pgid = 0, uid = 0, gid = 0, t_name = [],
     t_state = TASK_UNUSED, stack_base = 0, ticks = 0, t_next = None, kstack_base = 0, kstack_top = 0,
     is_user = False, cr3 = 0, elf_load_base = 0, elf_num_pages = 0, brk = 0, pending_signals = 0,
     signal_handlers = replicate MAX_SIGNALS 0, exit_code = 0, block_channel = None,
     vmas = replicate VMA_MAX_PER_TASK \<lparr>v_start = 0, v_end = 0, v_flags = 0, v_type = 0, v_shm_id = 0, v_used = False\<rparr>,
     mmap_brk = 0, ofd = replicate PROC_MAX_FDS 0, fpu_state = replicate 512 0, fpu_used = False\<rparr>"

definition get_task :: "nat \<Rightarrow> kernel \<Rightarrow> task" where
  "get_task i k = task_pool k ! i"

definition set_task :: "nat \<Rightarrow> task \<Rightarrow> kernel \<Rightarrow> kernel" where
  "set_task i t k = k\<lparr>task_pool := (task_pool k)[i := t]\<rparr>"

definition kfree_block :: "u64 \<Rightarrow> kernel \<Rightarrow> kernel" where
  "kfree_block p k = k\<lparr>kfreed := kfreed k @ [p]\<rparr>"

definition task_current :: "kernel \<Rightarrow> nat option" where
  "task_current k = current k"

definition task_set_current :: "nat \<Rightarrow> kernel \<Rightarrow> kernel" where
  "task_set_current i k = k\<lparr>current := Some i\<rparr>"

definition task_get_list :: "kernel \<Rightarrow> nat option" where
  "task_get_list k = current k"

section \<open>The run list\<close>

text \<open>The task before \<open>t\<close> in the list, searched from \<open>p\<close>.\<close>

partial_function (option) find_prev :: "task list \<Rightarrow> nat \<Rightarrow> nat \<Rightarrow> nat option" where
  "find_prev pool t p =
     (if t_next (pool ! p) = Some t then Some p
      else case t_next (pool ! p) of None \<Rightarrow> None | Some q \<Rightarrow> find_prev pool t q)"

definition task_unlink :: "nat \<Rightarrow> kernel \<Rightarrow> kernel option" where
  "task_unlink t k =
     (if t_next (get_task t k) = Some t then Some k
      else case find_prev (task_pool k) t t of
             None \<Rightarrow> None
           | Some prev \<Rightarrow> Some (set_task prev ((get_task prev k)\<lparr>t_next := t_next (get_task t k)\<rparr>) k))"

definition alloc_task :: "cstring \<Rightarrow> kernel \<Rightarrow> (nat \<times> kernel) option" where
  "alloc_task name k =
     (case first_idx (\<lambda>t. t_state t = TASK_UNUSED) (task_pool k) of
        None \<Rightarrow> None
      | Some i \<Rightarrow>
          (let k1 = (if kstack_base (get_task i k) \<noteq> 0 then kfree_block (kstack_base (get_task i k)) k else k);
               t = task_zero\<lparr>pid := next_pid k, pgid := next_pid k, t_name := field_copy 32 name, t_state := TASK_READY,
                             ofd := replicate PROC_MAX_FDS OFD_NONE\<rparr>
           in Some (i, (set_task i t k1)\<lparr>next_pid := next_pid k + 1\<rparr>)))"

definition task_insert :: "nat \<Rightarrow> kernel \<Rightarrow> kernel" where
  "task_insert i k =
     (case current k of
        Some c \<Rightarrow>
          (let k1 = set_task i ((get_task i k)\<lparr>t_next := t_next (get_task c k)\<rparr>) k
           in set_task c ((get_task c k1)\<lparr>t_next := Some i\<rparr>) k1)
      | None \<Rightarrow> set_task i ((get_task i k)\<lparr>t_next := Some i\<rparr>) k)"

definition task_find :: "u64 \<Rightarrow> kernel \<Rightarrow> nat option" where
  "task_find p k = first_idx (\<lambda>t. pid t = p \<and> t_state t \<noteq> TASK_UNUSED) (task_pool k)"

definition task_active_count :: "kernel \<Rightarrow> nat" where
  "task_active_count k =
     length (filter (\<lambda>t. t_state t \<in> {TASK_READY, TASK_RUNNING, TASK_BLOCKED, TASK_STOPPED}) (task_pool k))"

section \<open>Blocking and waking\<close>

definition task_block :: "channel \<Rightarrow> kernel \<Rightarrow> kernel" where
  "task_block ch k =
     (case current k of
        None \<Rightarrow> k
      | Some c \<Rightarrow> set_task c ((get_task c k)\<lparr>t_state := TASK_BLOCKED, block_channel := Some ch\<rparr>) k)"

definition waits_on :: "channel \<Rightarrow> task \<Rightarrow> bool" where
  "waits_on ch t \<longleftrightarrow> t_state t = TASK_BLOCKED \<and> block_channel t = Some ch"

definition wake :: "task \<Rightarrow> task" where
  "wake t = t\<lparr>t_state := TASK_READY, block_channel := None\<rparr>"

text \<open>The walk round the list; \<open>one\<close> stops at the first task woken.\<close>

partial_function (option) wake_loop :: "bool \<Rightarrow> channel \<Rightarrow> nat \<Rightarrow> nat \<Rightarrow> task list \<Rightarrow> task list option" where
  "wake_loop one ch head t pool =
     (let pool1 = (if waits_on ch (pool ! t) then pool[t := wake (pool ! t)] else pool)
      in if one \<and> waits_on ch (pool ! t) then Some pool1
         else case t_next (pool ! t) of
                None \<Rightarrow> None
              | Some n \<Rightarrow> if n = head then Some pool1 else wake_loop one ch head n pool1)"

definition task_wake :: "bool \<Rightarrow> channel \<Rightarrow> kernel \<Rightarrow> kernel option" where
  "task_wake one ch k =
     (case current k of
        None \<Rightarrow> Some k
      | Some c \<Rightarrow> map_option (\<lambda>pool. k\<lparr>task_pool := pool\<rparr>) (wake_loop one ch c c (task_pool k)))"

definition task_wake_one :: "channel \<Rightarrow> kernel \<Rightarrow> kernel option" where
  "task_wake_one ch k = task_wake True ch k"

definition task_wake_all :: "channel \<Rightarrow> kernel \<Rightarrow> kernel option" where
  "task_wake_all ch k = task_wake False ch k"

definition task_stop :: "nat \<Rightarrow> kernel \<Rightarrow> kernel option" where
  "task_stop t k =
     (if t_state (get_task t k) = TASK_UNUSED \<or> t_state (get_task t k) = TASK_ZOMBIE then Some k
      else task_wake_all (Chan_task t) (set_task t ((get_task t k)\<lparr>t_state := TASK_STOPPED, block_channel := None\<rparr>) k))"

definition task_continue :: "nat \<Rightarrow> kernel \<Rightarrow> kernel" where
  "task_continue t k =
     (if t_state (get_task t k) \<noteq> TASK_STOPPED then k else set_task t ((get_task t k)\<lparr>t_state := TASK_READY\<rparr>) k)"

section \<open>Sending and registering signals\<close>

definition signal_bit :: "int \<Rightarrow> u32" where
  "signal_bit signum = push_bit (nat signum) 1"

definition signal_send :: "u64 \<Rightarrow> int \<Rightarrow> kernel \<Rightarrow> (int \<times> kernel) option" where
  "signal_send p signum k =
     (if signum < 1 \<or> int MAX_SIGNALS \<le> signum then Some (- 1, k)
      else case task_find p k of
        None \<Rightarrow> Some (- 1, k)
      | Some i \<Rightarrow>
          (let t = get_task i k in
           if \<not> is_user t then Some (- 1, k)
           else if signum = SIGCONT
           then Some (0, task_continue i
                  (set_task i (t\<lparr>pending_signals := pending_signals t AND NOT (signal_bit SIGTSTP OR signal_bit SIGSTOP)\<rparr>) k))
           else if signum = SIGSTOP \<or> signum = SIGTSTP \<and> signal_handlers t ! nat SIGTSTP = 0
           then map_option (\<lambda>k1. (0, k1)) (task_stop i k)
           else
             let t1 = t\<lparr>pending_signals := pending_signals t OR signal_bit signum\<rparr>
             in Some (0, set_task i (if t_state t1 = TASK_BLOCKED then wake t1 else t1) k)))"

definition signal_register :: "int \<Rightarrow> u64 \<Rightarrow> kernel \<Rightarrow> int \<times> kernel" where
  "signal_register signum handler k =
     (if signum < 1 \<or> int MAX_SIGNALS \<le> signum \<or> signum = SIGKILL \<or> signum = SIGSTOP then (- 1, k)
      else case current k of
        None \<Rightarrow> (- 1, k)
      | Some c \<Rightarrow>
          (0, set_task c ((get_task c k)\<lparr>signal_handlers := (signal_handlers (get_task c k))[nat signum := handler]\<rparr>) k))"

section \<open>The file system's calls into the scheduler\<close>

text \<open>The calls the file system has recorded are carried out, in order.\<close>

fun sched_calls :: "sched_call list \<Rightarrow> kernel \<Rightarrow> kernel option" where
  "sched_calls [] k = Some k"
| "sched_calls (Wake_one pi # cs) k = (case task_wake_one (Chan_pipe pi) k of None \<Rightarrow> None | Some k1 \<Rightarrow> sched_calls cs k1)"
| "sched_calls (Wake_all pi # cs) k = (case task_wake_all (Chan_pipe pi) k of None \<Rightarrow> None | Some k1 \<Rightarrow> sched_calls cs k1)"
| "sched_calls (Sigpipe # cs) k =
     (case current k of
        None \<Rightarrow> None
      | Some c \<Rightarrow> (case signal_send (pid (get_task c k)) SIGPIPE k of None \<Rightarrow> None | Some (r, k1) \<Rightarrow> sched_calls cs k1))"

definition in_vfs :: "vfs_state \<Rightarrow> kernel \<Rightarrow> kernel option" where
  "in_vfs v k = sched_calls (v_calls v) (k\<lparr>k_vfs := v\<lparr>v_calls := []\<rparr>\<rparr>)"

definition close_ofd :: "kenv \<Rightarrow> int \<Rightarrow> kernel \<Rightarrow> (int \<times> kernel) option" where
  "close_ofd ke fd k =
     (case vfs_close_fd ke fd (k_vfs k) of
        None \<Rightarrow> None
      | Some (r, v) \<Rightarrow> map_option (\<lambda>k1. (r, k1)) (in_vfs v k))"

section \<open>Exit, kill, wait and yield\<close>

fun close_slots :: "kenv \<Rightarrow> nat \<Rightarrow> nat list \<Rightarrow> kernel \<Rightarrow> kernel option" where
  "close_slots ke t [] k = Some k"
| "close_slots ke t (j # js) k =
     (case (if 0 \<le> ofd (get_task t k) ! j then map_option snd (close_ofd ke (ofd (get_task t k) ! j) k) else Some k) of
        None \<Rightarrow> None
      | Some k1 \<Rightarrow> close_slots ke t js (set_task t ((get_task t k1)\<lparr>ofd := (ofd (get_task t k1))[j := OFD_NONE]\<rparr>) k1))"

definition task_close_fds :: "kenv \<Rightarrow> nat \<Rightarrow> kernel \<Rightarrow> kernel option" where
  "task_close_fds ke t k = close_slots ke t [0..<PROC_MAX_FDS] k"

definition task_exit :: "kenv \<Rightarrow> kernel \<Rightarrow> kernel option" where
  "task_exit ke k =
     (case current k of
        None \<Rightarrow> None
      | Some c \<Rightarrow>
          (case task_close_fds ke c k of
             None \<Rightarrow> None
           | Some k1 \<Rightarrow>
               (let t = get_task c k1;
                    boot = vmm_get_boot_cr3 (k_vm k1);
                    k2 = (if cr3 t \<noteq> 0 \<and> cr3 t \<noteq> boot
                          then (set_task c (t\<lparr>cr3 := 0\<rparr>) k1)
                                 \<lparr>k_vm := vmm_destroy_address_space (cr3 t) (vmm_switch_address_space boot (k_vm k1))\<rparr>
                          else k1)
                in task_wake_all (Chan_task c) (set_task c ((get_task c k2)\<lparr>t_state := TASK_ZOMBIE\<rparr>) k2))))"

definition free_stacks :: "nat \<Rightarrow> kernel \<Rightarrow> kernel" where
  "free_stacks i k =
     (let k1 = (if stack_base (get_task i k) \<noteq> 0
                then set_task i ((get_task i k)\<lparr>stack_base := 0\<rparr>) (kfree_block (stack_base (get_task i k)) k) else k)
      in if kstack_base (get_task i k1) \<noteq> 0
         then set_task i ((get_task i k1)\<lparr>kstack_base := 0\<rparr>) (kfree_block (kstack_base (get_task i k1)) k1) else k1)"

definition task_kill :: "kenv \<Rightarrow> u64 \<Rightarrow> kernel \<Rightarrow> kernel option" where
  "task_kill ke p k =
     (case task_find p k of
        None \<Rightarrow> Some k
      | Some i \<Rightarrow>
          if current k = Some i \<or> p = 0 then Some k
          else case task_close_fds ke i k of
            None \<Rightarrow> None
          | Some k1 \<Rightarrow>
              (let t = get_task i k1;
                   k2 = (if cr3 t \<noteq> 0 \<and> cr3 t \<noteq> vmm_get_boot_cr3 (k_vm k1)
                         then (set_task i (t\<lparr>cr3 := 0\<rparr>) k1)\<lparr>k_vm := vmm_destroy_address_space (cr3 t) (k_vm k1)\<rparr>
                         else k1)
               in case task_wake_all (Chan_task i) k2 of
                    None \<Rightarrow> None
                  | Some k3 \<Rightarrow>
                      (case task_unlink i k3 of
                         None \<Rightarrow> None
                       | Some k4 \<Rightarrow>
                           let k5 = free_stacks i k4
                           in Some (set_task i ((get_task i k5)\<lparr>t_state := TASK_UNUSED\<rparr>) k5))))"

text \<open>A zombie child is removed and its exit code returned.\<close>

definition reap :: "nat \<Rightarrow> kernel \<Rightarrow> (int \<times> kernel) option" where
  "reap i k =
     (case task_unlink i k of
        None \<Rightarrow> None
      | Some k1 \<Rightarrow>
          (let k2 = (if kstack_base (get_task i k1) \<noteq> 0
                     then set_task i ((get_task i k1)\<lparr>kstack_base := 0\<rparr>) (kfree_block (kstack_base (get_task i k1)) k1) else k1)
           in Some (exit_code (get_task i k), set_task i ((get_task i k2)\<lparr>t_state := TASK_UNUSED\<rparr>) k2)))"

datatype wait_res = Wait_done int | Wait_blocked

definition task_waitpid :: "u64 \<Rightarrow> kernel \<Rightarrow> (wait_res \<times> kernel) option" where
  "task_waitpid child_pid k =
     (case task_find child_pid k of
        None \<Rightarrow> Some (Wait_done 0, k)
      | Some i \<Rightarrow>
          (case current k of
             None \<Rightarrow> None
           | Some c \<Rightarrow>
               if ppid (get_task i k) \<noteq> pid (get_task c k) then Some (Wait_done (- 1), k)
               else if t_state (get_task i k) = TASK_ZOMBIE then map_option (\<lambda>(r, k1). (Wait_done r, k1)) (reap i k)
               else if t_state (get_task i k) = TASK_STOPPED then Some (Wait_done (- 2), k)
               else Some (Wait_blocked, task_block (Chan_task i) k)))"

text \<open>What the call does once it has been woken.\<close>

definition task_waitpid_resume :: "u64 \<Rightarrow> kernel \<Rightarrow> (int \<times> kernel) option" where
  "task_waitpid_resume child_pid k =
     (case task_find child_pid k of
        None \<Rightarrow> Some (0, k)
      | Some i \<Rightarrow>
          if t_state (get_task i k) = TASK_STOPPED then Some (- 2, k)
          else if t_state (get_task i k) = TASK_ZOMBIE then reap i k
          else Some (0, k))"

text \<open>The next task in state \<open>READY\<close>, or the first one looked at when there is none.\<close>

partial_function (option) next_ready :: "task list \<Rightarrow> nat \<Rightarrow> nat \<Rightarrow> nat option" where
  "next_ready pool start t =
     (if t_state (pool ! t) = TASK_READY then Some t
      else case t_next (pool ! t) of
             None \<Rightarrow> None
           | Some n \<Rightarrow> if n = start then Some n else next_ready pool start n)"

text \<open>The switch itself is in assembly: the yielding task's frame stays on its stack.\<close>

definition task_yield :: "kernel \<Rightarrow> kernel option" where
  "task_yield k =
     (case current k of
        None \<Rightarrow> Some k
      | Some c \<Rightarrow>
          (case t_next (get_task c k) of
             None \<Rightarrow> Some k
           | Some start \<Rightarrow>
               (case next_ready (task_pool k) start start of
                  None \<Rightarrow> None
                | Some n \<Rightarrow>
                    if n = c \<or> t_state (get_task n k) \<noteq> TASK_READY then Some k
                    else
                      let k1 = set_task c ((get_task c k)\<lparr>t_state := TASK_READY\<rparr>) k
                      in Some ((set_task n ((get_task n k1)\<lparr>t_state := TASK_RUNNING\<rparr>) k1)\<lparr>current := Some n\<rparr>))))"

end
