(* ===== verification/TaskCreate.thy ===== *)
theory TaskCreate
  imports Task Bytes
begin

text \<open>
  The creation of tasks, in \<^verbatim>\<open>task/task.c\<close>: kernel tasks and threads, user tasks, user tasks of a loaded
  program with its arguments on the stack, and \<^verbatim>\<open>fork\<close>. The address \<^verbatim>\<open>kmalloc\<close> returns for the stack is
  the parameter \<open>ks\<close>, 0 when the heap is exhausted. A function returns the index of the task, \<open>None\<close> for
  \<^verbatim>\<open>NULL\<close>, and the kernel.
\<close>

unbundle bit_operations_syntax

section \<open>Frames and areas\<close>

definition USER_STACK_VADDR :: u64 where
  "USER_STACK_VADDR = 0x7FF000"

definition USER_STACK_TOP :: u64 where
  "USER_STACK_TOP = 0x800000"

definition STACK_GUARD_LOW :: u64 where
  "STACK_GUARD_LOW = 0x700000"

definition FPU_STATE_SIZE :: nat where
  "FPU_STATE_SIZE = 512"

definition fpu_init_state :: "u8 list" where
  "fpu_init_state = overwrite 24 (put_le32 0x1F80) (overwrite 0 (put_le16 0x037F) (replicate FPU_STATE_SIZE 0))"

text \<open>
  The frame of 22 words from the lowest address: \<^verbatim>\<open>r15\<close> to \<^verbatim>\<open>r8\<close>, \<^verbatim>\<open>rbp\<close>, \<^verbatim>\<open>rdi\<close>, \<^verbatim>\<open>rsi\<close>, \<^verbatim>\<open>rdx\<close>, \<^verbatim>\<open>rcx\<close>, \<^verbatim>\<open>rbx\<close>,
  \<^verbatim>\<open>rax\<close>, the interrupt number, the error code, and \<^verbatim>\<open>rip\<close>, \<^verbatim>\<open>cs\<close>, \<^verbatim>\<open>rflags\<close>, \<^verbatim>\<open>rsp\<close>, \<^verbatim>\<open>ss\<close>.
\<close>

definition kernel_frame :: "u64 \<Rightarrow> u64 \<Rightarrow> u64 list" where
  "kernel_frame rip rsp = replicate 17 0 @ [rip, 0x08, 0x200, rsp, 0x10]"

definition user_frame :: "u64 \<Rightarrow> u64 \<Rightarrow> u64 \<Rightarrow> u64 \<Rightarrow> u64 list" where
  "user_frame rip rsp rdi rsi = replicate 9 0 @ [rdi, rsi] @ replicate 6 0 @ [rip, 0x1B, 0x200, rsp, 0x23]"

definition FRAME_BYTES :: u64 where
  "FRAME_BYTES = 176"

definition stack_vma :: "vma list \<Rightarrow> vma list" where
  "stack_vma vs = snd (vma_add vs STACK_GUARD_LOW USER_STACK_TOP (0x01 OR 0x02 OR 0x10) 2)"

definition std_fds :: "int list \<Rightarrow> int list" where
  "std_fds fds = fds[0 := OFD_CONSOLE_IN, 1 := OFD_CONSOLE_OUT, 2 := OFD_CONSOLE_OUT]"

definition unuse :: "nat \<Rightarrow> kernel \<Rightarrow> kernel" where
  "unuse i k = set_task i ((get_task i k)\<lparr>t_state := TASK_UNUSED\<rparr>) k"

section \<open>Kernel tasks\<close>

definition task_create :: "cstring \<Rightarrow> u64 option \<Rightarrow> u64 \<Rightarrow> kernel \<Rightarrow> nat option \<times> kernel" where
  "task_create name ep ks k =
     (case alloc_task name k of
        None \<Rightarrow> (None, k)
      | Some (i, k1) \<Rightarrow>
          (case ep of
             None \<Rightarrow> (Some i, task_insert i (set_task i ((get_task i k1)\<lparr>stack_base := 0, t_rsp := 0\<rparr>) k1))
           | Some e \<Rightarrow>
               if ks = 0 then (None, unuse i (set_task i ((get_task i k1)\<lparr>stack_base := 0\<rparr>) k1))
               else (Some i, task_insert i (set_task i ((get_task i k1)
                       \<lparr>stack_base := ks, t_frame := kernel_frame e (ks + TASK_STACK_SIZE),
                        t_rsp := ks + TASK_STACK_SIZE - FRAME_BYTES\<rparr>) k1))))"

definition kthread_create :: "u64 \<Rightarrow> cstring \<Rightarrow> u64 \<Rightarrow> u64 \<Rightarrow> u64 \<Rightarrow> kernel \<Rightarrow> nat option \<times> kernel" where
  "kthread_create trampoline name fn arg ks k =
     (case alloc_task name k of
        None \<Rightarrow> (None, k)
      | Some (i, k1) \<Rightarrow>
          if ks = 0 then (None, unuse i (set_task i ((get_task i k1)\<lparr>stack_base := 0\<rparr>) k1))
          else (Some i, task_insert i (set_task i ((get_task i k1)
                  \<lparr>stack_base := ks, t_frame := (kernel_frame trampoline (ks + TASK_STACK_SIZE))[3 := fn, 2 := arg],
                   t_rsp := ks + TASK_STACK_SIZE - FRAME_BYTES\<rparr>) k1)))"

text \<open>The trampoline: the thread's function runs from \<^verbatim>\<open>r12\<close> on \<^verbatim>\<open>r13\<close>, then the task exits.\<close>

definition kthread_trampoline :: "(u64 \<Rightarrow> u64 \<Rightarrow> kernel \<Rightarrow> kernel option) \<Rightarrow> kenv \<Rightarrow> u64 list \<Rightarrow> kernel \<Rightarrow> kernel option" where
  "kthread_trampoline run ke frame k =
     (case run (frame ! 3) (frame ! 2) k of None \<Rightarrow> None | Some k1 \<Rightarrow> task_exit ke k1)"

section \<open>User tasks\<close>

text \<open>A cleared page mapped as the user stack of the address space; 0 when there is no frame.\<close>

definition user_stack :: "u64 \<Rightarrow> vm \<Rightarrow> u64 \<times> vm" where
  "user_stack root v =
     (case alloc_page v of
        (p, v1) \<Rightarrow>
          if p = 0 then (0, v1)
          else (p, vmm_map_page_in root USER_STACK_VADDR p (VMM_PRESENT OR VMM_WRITE OR VMM_USER) (fill_page p (\<lambda>i. 0) v1)))"

definition parent_pid :: "kernel \<Rightarrow> u64" where
  "parent_pid k = (case current k of None \<Rightarrow> 0 | Some c \<Rightarrow> pid (get_task c k))"

definition task_create_user :: "cstring \<Rightarrow> u64 \<Rightarrow> u64 \<Rightarrow> kernel \<Rightarrow> nat option \<times> kernel" where
  "task_create_user name ep ks k =
     (case alloc_task name k of
        None \<Rightarrow> (None, k)
      | Some (i, k1) \<Rightarrow>
          (case vmm_create_address_space (k_vm k1) of
             (root, v1) \<Rightarrow>
               let k2 = (set_task i ((get_task i k1)\<lparr>is_user := True, ppid := parent_pid k1, cr3 := root\<rparr>) k1)\<lparr>k_vm := v1\<rparr>
               in if root = 0 then (None, unuse i k2)
                  else case user_stack root v1 of
                    (p, v2) \<Rightarrow>
                      if p = 0 then (None, unuse i (k2\<lparr>k_vm := vmm_destroy_address_space root v2\<rparr>))
                      else if ks = 0 then (None, unuse i (k2\<lparr>k_vm := vmm_destroy_address_space root v2\<rparr>))
                      else (Some i, task_insert i (set_task i ((get_task i k2)
                              \<lparr>kstack_base := ks, kstack_top := ks + TASK_STACK_SIZE, t_frame := user_frame ep USER_STACK_TOP 0 0,
                               vmas := stack_vma vma_init_list, mmap_brk := MMAP_BASE, fpu_state := fpu_init_state,
                               fpu_used := True, ofd := std_fds (ofd (get_task i k2)),
                               t_rsp := ks + TASK_STACK_SIZE - FRAME_BYTES\<rparr>) (k2\<lparr>k_vm := v2\<rparr>)))))"

section \<open>Arguments\<close>

definition le64 :: "u8 list \<Rightarrow> nat \<Rightarrow> u64" where
  "le64 bs i = word_cat (le32 bs (i + 4)) (le32 bs i)"

definition put_le64 :: "u64 \<Rightarrow> u8 list" where
  "put_le64 w = put_le32 (ucast w) @ put_le32 (ucast (drop_bit 32 w))"

text \<open>The strings, copied downwards from the end of the page; \<open>None\<close> when one would start before the page.\<close>

fun push_strings :: "cstring list \<Rightarrow> nat \<Rightarrow> u8 list \<Rightarrow> (nat \<times> u64 list \<times> u8 list) option" where
  "push_strings [] off pg = Some (off, [], pg)"
| "push_strings (s # ss) off pg =
     (case push_strings ss off pg of
        None \<Rightarrow> None
      | Some (off1, vs, pg1) \<Rightarrow>
          if off1 < length s + 1 then None
          else (let off2 = off1 - (length s + 1)
                in Some (off2, (USER_STACK_VADDR + of_nat off2) # vs, overwrite off2 (s @ [0]) pg1)))"

fun push_ptrs :: "u64 list \<Rightarrow> nat \<Rightarrow> u8 list \<Rightarrow> (nat \<times> u8 list) option" where
  "push_ptrs [] off pg = Some (off, pg)"
| "push_ptrs (v # vs) off pg =
     (case push_ptrs vs off pg of
        None \<Rightarrow> None
      | Some (off1, pg1) \<Rightarrow> if off1 < 8 then None else Some (off1 - 8, overwrite (off1 - 8) (put_le64 v) pg1))"

record arg_layout =
  a_rsp :: u64
  a_rdi :: u64
  a_rsi :: u64
  a_page :: "u8 list"

definition push_args :: "cstring list \<Rightarrow> u8 list \<Rightarrow> arg_layout option" where
  "push_args argv pg =
     (if argv = [] then Some \<lparr>a_rsp = USER_STACK_TOP, a_rdi = 0, a_rsi = 0, a_page = pg\<rparr>
      else
        let args = take 32 argv in
        case push_strings args 4096 pg of
          None \<Rightarrow> None
        | Some (off, vs, pg1) \<Rightarrow>
            (let al = off - off mod 8 in
             if al < 8 then None
             else
               case push_ptrs vs (al - 8) (overwrite (al - 8) (put_le64 0) pg1) of
                 None \<Rightarrow> None
               | Some (off2, pg2) \<Rightarrow>
                   Some \<lparr>a_rsp = USER_STACK_VADDR + ((of_nat off2 - 8) AND NOT 15), a_rdi = of_nat (length args),
                         a_rsi = USER_STACK_VADDR + of_nat off2, a_page = pg2\<rparr>))"

definition load_page :: "u64 \<Rightarrow> vm \<Rightarrow> u8 list" where
  "load_page p v = concat (map (\<lambda>i. put_le64 (entry v p i)) [0..<512])"

definition store_page :: "u64 \<Rightarrow> u8 list \<Rightarrow> vm \<Rightarrow> vm" where
  "store_page p bs v = fill_page p (\<lambda>i. le64 bs (8 * i)) v"

definition elf_vmas :: "u64 \<Rightarrow> u64 \<Rightarrow> u64 \<Rightarrow> vma list" where
  "elf_vmas base npages heap =
     stack_vma (snd (vma_add (snd (vma_add vma_init_list base (base + npages * PAGE_SIZE) (0x01 OR 0x02 OR 0x04) 3))
                  heap (heap + 16 * PAGE_SIZE) (0x01 OR 0x02) 1))"

definition task_create_user_elf ::
    "cstring \<Rightarrow> u64 \<Rightarrow> u64 \<Rightarrow> u64 \<Rightarrow> u64 \<Rightarrow> cstring list \<Rightarrow> u64 \<Rightarrow> kernel \<Rightarrow> (nat option \<times> kernel) option" where
  "task_create_user_elf name ep base npages root argv ks k =
     (case alloc_task name k of
        None \<Rightarrow> Some (None, k)
      | Some (i, k1) \<Rightarrow>
          (let k2 = set_task i ((get_task i k1)\<lparr>is_user := True, ppid := parent_pid k1, cr3 := root,
                      elf_load_base := base, elf_num_pages := npages, brk := base + npages * 4096\<rparr>) k1
           in case user_stack root (k_vm k2) of
             (p, v2) \<Rightarrow>
               if p = 0 \<or> ks = 0 then Some (None, unuse i (k2\<lparr>k_vm := v2\<rparr>))
               else
                 case push_args argv (load_page p v2) of
                   None \<Rightarrow> None
                 | Some a \<Rightarrow>
                     let t = get_task i k2 in
                     Some (Some i, task_insert i (set_task i (t
                       \<lparr>kstack_base := ks, kstack_top := ks + TASK_STACK_SIZE,
                        t_frame := user_frame ep (a_rsp a) (a_rdi a) (a_rsi a), vmas := elf_vmas base npages (brk t),
                        mmap_brk := MMAP_BASE, fpu_state := fpu_init_state, fpu_used := True, ofd := std_fds (ofd t),
                        t_rsp := ks + TASK_STACK_SIZE - FRAME_BYTES\<rparr>) (k2\<lparr>k_vm := store_page p (a_page a) v2\<rparr>)))))"

section \<open>Fork\<close>

definition fork_fds :: "int list \<Rightarrow> vfs_state \<Rightarrow> vfs_state" where
  "fork_fds fds v = fold (\<lambda>fd v. if 0 \<le> fd then vfs_fd_addref fd v else v) fds v"

definition fork_frame :: "u64 list \<Rightarrow> u64 list" where
  "fork_frame regs = regs[14 := 0, 15 := 0, 16 := 0]"

definition task_fork :: "u64 list \<Rightarrow> u64 \<Rightarrow> kernel \<Rightarrow> nat option \<times> kernel" where
  "task_fork regs ks k =
     (case current k of
        None \<Rightarrow> (None, k)
      | Some c \<Rightarrow>
          (let par = get_task c k in
           if \<not> is_user par \<or> cr3 par = 0 then (None, k)
           else
             case alloc_task (t_name par) k of
               None \<Rightarrow> (None, k)
             | Some (i, k1) \<Rightarrow>
                 (case vmm_clone_address_space (cr3 par) (k_vm k1) of
                    (root, v1) \<Rightarrow>
                      let k2 = (set_task i ((get_task i k1)\<lparr>is_user := True, ppid := pid par, pgid := pgid par, uid := uid par,
                                  gid := gid par, cr3 := root\<rparr>) k1)\<lparr>k_vm := v1\<rparr>
                      in if root = 0 then (None, unuse i k2)
                         else
                           let k3 = (set_task i ((get_task i k2)\<lparr>elf_load_base := elf_load_base par, elf_num_pages := elf_num_pages par,
                                       brk := brk par, vmas := vma_copy (vmas par), mmap_brk := mmap_brk par, ofd := ofd par,
                                       fpu_state := fpu_state par, fpu_used := fpu_used par\<rparr>) k2)
                                      \<lparr>k_vfs := fork_fds (ofd par) (k_vfs k2)\<rparr>
                           in if ks = 0 then (None, unuse i (k3\<lparr>k_vm := vmm_destroy_address_space root v1\<rparr>))
                              else (Some i, task_insert i (set_task i ((get_task i k3)\<lparr>kstack_base := ks,
                                      kstack_top := ks + TASK_STACK_SIZE, t_frame := fork_frame regs,
                                      t_rsp := ks + TASK_STACK_SIZE - FRAME_BYTES\<rparr>) k3)))))"

end
