(* ===== verification/Sched.thy ===== *)
theory Sched
  imports TaskCreate
begin

text \<open>
  The scheduler, \<^verbatim>\<open>task/sched.c\<close>, and the delivery of signals, \<^verbatim>\<open>task/signal.c\<close>. The timer interrupt passes
  the stack pointer of the interrupted context and the frame found there. Accesses to the user stack go
  through the page tables of the address space that is loaded, and have the result \<open>None\<close> where they
  would fault.
\<close>

unbundle bit_operations_syntax

section \<open>User memory\<close>

definition user_store :: "u64 \<Rightarrow> u64 \<Rightarrow> vm \<Rightarrow> vm option" where
  "user_store va w v =
     (let pa = vmm_get_physical va v
      in if va AND 7 \<noteq> 0 \<or> pa = 0 then None else Some (v\<lparr>vm_mem := (vm_mem v)(pa := w)\<rparr>))"

definition user_load :: "u64 \<Rightarrow> vm \<Rightarrow> u64 option" where
  "user_load va v =
     (let pa = vmm_get_physical va v in if va AND 7 \<noteq> 0 \<or> pa = 0 then None else Some (vm_mem v pa))"

section \<open>Delivery of signals\<close>

definition elf_unload_page :: "u64 \<Rightarrow> vm \<Rightarrow> vm" where
  "elf_unload_page va v =
     (let pa = vmm_get_physical va v; v1 = vmm_unmap_page va v in if pa \<noteq> 0 then free_page pa v1 else v1)"

definition elf_unload :: "u64 \<Rightarrow> u64 \<Rightarrow> vm \<Rightarrow> vm" where
  "elf_unload base n v = fold (\<lambda>i. elf_unload_page (base + of_nat i * PAGE_SIZE)) [0..<unat n] v"

text \<open>The default action and \<^verbatim>\<open>SIGKILL\<close>.\<close>

definition signal_terminate :: "nat \<Rightarrow> kernel \<Rightarrow> kernel option" where
  "signal_terminate i k =
     (let t = get_task i k;
          k1 = (if 0 < elf_num_pages t
                then (set_task i (t\<lparr>elf_load_base := 0, elf_num_pages := 0\<rparr>) k)
                       \<lparr>k_vm := elf_unload (elf_load_base t) (elf_num_pages t) (k_vm k)\<rparr>
                else k);
          k2 = free_stacks i k1
      in case find_prev (task_pool k2) i i of
           None \<Rightarrow> None
         | Some prev \<Rightarrow>
             let k3 = (if prev \<noteq> i then set_task prev ((get_task prev k2)\<lparr>t_next := t_next (get_task i k2)\<rparr>) k2 else k2)
             in Some (set_task i ((get_task i k3)\<lparr>t_state := TASK_UNUSED\<rparr>) k3))"

text \<open>The handler is entered through the saved frame, with what \<^verbatim>\<open>sigreturn\<close> needs on the user stack.\<close>

definition signal_enter :: "nat \<Rightarrow> nat \<Rightarrow> u64 \<Rightarrow> kernel \<Rightarrow> kernel option" where
  "signal_enter i sig handler k =
     (let t = get_task i k; fr = t_frame t; sp = fr ! 20 in
      case user_store (sp - 8) (of_nat sig) (k_vm k) of
        None \<Rightarrow> None
      | Some v1 \<Rightarrow>
          (case user_store (sp - 16) (fr ! 19) v1 of
             None \<Rightarrow> None
           | Some v2 \<Rightarrow>
               (case user_store (sp - 24) (fr ! 17) v2 of
                  None \<Rightarrow> None
                | Some v3 \<Rightarrow>
                    Some ((set_task i (t\<lparr>t_frame := fr[17 := handler, 20 := sp - 24, 9 := of_nat sig]\<rparr>) k)\<lparr>k_vm := v3\<rparr>))))"

definition first_pending :: "u32 \<Rightarrow> nat option" where
  "first_pending p = map_option (\<lambda>j. j + 1) (first_idx (bit p) [1..<MAX_SIGNALS])"

definition signal_deliver :: "nat \<Rightarrow> kernel \<Rightarrow> kernel option" where
  "signal_deliver i k =
     (let t = get_task i k in
      if pending_signals t = 0 \<or> \<not> is_user t then Some k
      else
        case first_pending (pending_signals t) of
          None \<Rightarrow> Some k
        | Some sig \<Rightarrow>
            let k1 = set_task i (t\<lparr>pending_signals := pending_signals t AND NOT (signal_bit (int sig))\<rparr>) k in
            if int sig = SIGKILL then signal_terminate i k1
            else if signal_handlers t ! sig = 0 then signal_terminate i k1
            else signal_enter i sig (signal_handlers t ! sig) k1)"

definition signal_return :: "u64 list \<Rightarrow> vm \<Rightarrow> u64 list option" where
  "signal_return regs v =
     (case user_load (regs ! 20) v of
        None \<Rightarrow> None
      | Some rip \<Rightarrow>
          (case user_load (regs ! 20 + 8) v of
             None \<Rightarrow> None
           | Some fl \<Rightarrow> Some (regs[17 := rip, 19 := fl, 20 := regs ! 20 + 24])))"

section \<open>The scheduler\<close>

definition sched_init :: "cstring \<Rightarrow> cstring \<Rightarrow> u64 \<Rightarrow> u64 \<Rightarrow> kernel \<Rightarrow> kernel option" where
  "sched_init kernel_name idle_name idle_entry ks k =
     (case task_create kernel_name None 0 k of
        (None, k1) \<Rightarrow> None
      | (Some i, k1) \<Rightarrow>
          Some (snd (task_create idle_name (Some idle_entry) ks
                  (task_set_current i (set_task i ((get_task i k1)\<lparr>t_state := TASK_RUNNING\<rparr>) k1)))))"

definition cr3_of :: "task \<Rightarrow> vm \<Rightarrow> u64" where
  "cr3_of t v = (if cr3 t \<noteq> 0 then cr3 t else vmm_get_boot_cr3 v)"

text \<open>The context switch: the outgoing task \<open>c\<close> is put back, the incoming task \<open>n\<close> becomes current.\<close>

definition switch_out :: "bool \<Rightarrow> u8 list \<Rightarrow> task \<Rightarrow> task" where
  "switch_out cur_alive fpu t =
     (let t1 = (if cur_alive \<and> t_state t = TASK_RUNNING then t\<lparr>t_state := TASK_READY\<rparr> else t)
      in if cur_alive \<and> fpu_used t1 then t1\<lparr>fpu_state := fpu\<rparr> else t1)"

definition switch_in :: "nat \<Rightarrow> nat \<Rightarrow> kernel \<Rightarrow> kernel" where
  "switch_in c n k =
     (let t = get_task n k;
          k1 = (if fpu_used t then k\<lparr>fpu_reg := fpu_state t\<rparr> else k);
          k2 = (if is_user t then k1\<lparr>tss_rsp0 := kstack_top t\<rparr> else k1);
          next_cr3 = cr3_of t (k_vm k2)
      in if next_cr3 \<noteq> cr3_of (get_task c k2) (k_vm k2)
         then k2\<lparr>k_vm := vmm_switch_address_space next_cr3 (k_vm k2)\<rparr> else k2)"

definition switch_tasks :: "bool \<Rightarrow> nat \<Rightarrow> nat \<Rightarrow> kernel \<Rightarrow> kernel" where
  "switch_tasks cur_alive c n k =
     (let k1 = set_task c (switch_out cur_alive (fpu_reg k) (get_task c k)) k
      in switch_in c n (task_set_current n (set_task n ((get_task n k1)\<lparr>t_state := TASK_RUNNING\<rparr>) k1)))"

definition schedule_from_irq :: "u64 \<Rightarrow> u64 list \<Rightarrow> kernel \<Rightarrow> (u64 \<times> kernel) option" where
  "schedule_from_irq old_rsp frame k =
     (case current k of
        None \<Rightarrow> Some (old_rsp, k)
      | Some c \<Rightarrow>
          (case t_next (get_task c k) of
             None \<Rightarrow> Some (old_rsp, k)
           | Some start \<Rightarrow>
               (let cur_alive = t_state (get_task c k) \<in> {TASK_RUNNING, TASK_READY, TASK_BLOCKED};
                    k1 = (if cur_alive
                          then set_task c ((get_task c k)\<lparr>t_rsp := old_rsp, t_frame := frame, ticks := ticks (get_task c k) + 1\<rparr>) k
                          else k)
                in case next_ready (task_pool k1) start start of
                     None \<Rightarrow> None
                   | Some n \<Rightarrow>
                       if t_state (get_task n k1) \<noteq> TASK_READY then Some (old_rsp, k1)
                       else
                         let k2 = switch_tasks cur_alive c n k1; t = get_task n k2 in
                         if pending_signals t \<noteq> 0 \<and> is_user t
                         then (case signal_deliver n k2 of
                                 None \<Rightarrow> None
                               | Some k3 \<Rightarrow>
                                   Some (if t_state (get_task n k3) = TASK_UNUSED then old_rsp else t_rsp (get_task n k3), k3))
                         else Some (t_rsp t, k2))))"

end
