(* ===== verification/SchedRing.thy ===== *)
theory SchedRing
  imports Sched
begin

text \<open>
  The run list as a ring. The walks of \<^verbatim>\<open>task/task.c\<close> and \<^verbatim>\<open>task/sched.c\<close> round the list are related to a
  list of indices in scheduling order, and every operation is shown to keep the ring.
\<close>

section \<open>Paths\<close>

text \<open>The \<open>next\<close> pointers lead through \<open>xs\<close> and on to \<open>y\<close>.\<close>

fun walk :: "task list \<Rightarrow> nat list \<Rightarrow> nat \<Rightarrow> bool" where
  "walk pool [] y = True"
| "walk pool (x # xs) y \<longleftrightarrow> t_next (pool ! x) = Some (hd (xs @ [y])) \<and> walk pool xs y"

lemma walk_append: "walk pool (xs @ ys) z \<longleftrightarrow> walk pool xs (hd (ys @ [z])) \<and> walk pool ys z"
  by (induction xs) (auto simp: hd_append)

lemma walk_last: "walk pool xs y \<Longrightarrow> xs \<noteq> [] \<Longrightarrow> t_next (pool ! last xs) = Some y"
  by (induction xs) auto

lemma walk_cong: "(\<And>i. i \<in> set xs \<Longrightarrow> t_next (q ! i) = t_next (p ! i)) \<Longrightarrow> walk q xs y = walk p xs y"
  by (induction xs) auto

lemma walk_rotate: "walk pool (xs @ ys) (hd (xs @ ys)) \<Longrightarrow> walk pool (ys @ xs) (hd (ys @ xs))"
  by (cases xs; cases ys) (auto simp: walk_append hd_append)

lemma next_ready_walk:
  assumes "walk pool xs start" "xs \<noteq> []" "start \<notin> set (tl xs)"
  shows "next_ready pool start (hd xs) =
    Some (case find (\<lambda>i. t_state (pool ! i) = TASK_READY) xs of None \<Rightarrow> start | Some n \<Rightarrow> n)"
  using assms
proof (induction xs)
  case (Cons x xs)
  then show ?case
    by (cases xs) (auto simp: next_ready.simps [of pool start x] split: list.splits)
qed simp

lemma find_prev_walk:
  assumes "walk pool xs t" "xs \<noteq> []" "t \<notin> set (tl xs)"
  shows "find_prev pool t (hd xs) = Some (last xs)"
  using assms
proof (induction xs)
  case (Cons x xs)
  then show ?case
    by (cases xs) (auto simp: find_prev.simps [of pool t x] split: list.splits)
qed simp

lemma first_idx_pointwise:
  "length xs = length ys \<Longrightarrow> (\<And>i. i < length ys \<Longrightarrow> P (xs ! i) = Q (ys ! i)) \<Longrightarrow> first_idx P xs = first_idx Q ys"
proof (induction xs ys rule: list_induct2)
  case (Cons x xs y ys)
  have "P x = Q y" using Cons.prems [of 0] by simp
  moreover have "first_idx P xs = first_idx Q ys" using Cons.IH Cons.prems [of "Suc i" for i] by simp
  ultimately show ?case by simp
qed simp

section \<open>Waking\<close>

definition woken :: "channel \<Rightarrow> task list \<Rightarrow> task list \<Rightarrow> bool" where
  "woken ch p q \<longleftrightarrow> length q = length p \<and>
     (\<forall>i. q ! i = p ! i \<or> i < length p \<and> waits_on ch (p ! i) \<and> q ! i = wake (p ! i))"

lemma wake_sel [simp]: "t_next (wake t) = t_next t" "t_state (wake t) = TASK_READY"
  "pid (wake t) = pid t" "ofd (wake t) = ofd t" "\<not> waits_on ch (wake t)"
  by (simp_all add: wake_def waits_on_def)

lemma wake_loop_walk:
  assumes "walk pool xs head" "xs \<noteq> []" "head \<notin> set (tl xs)" "distinct xs" "set xs \<subseteq> {..<length pool}"
  shows "\<exists>q. wake_loop one ch head (hd xs) pool = Some q \<and> woken ch pool q \<and>
    (\<not> one \<longrightarrow> (\<forall>i \<in> set xs. \<not> waits_on ch (q ! i)))"
  using assms
proof (induction xs arbitrary: pool)
  case (Cons x xs)
  define p1 where "p1 = (if waits_on ch (pool ! x) then pool[x := wake (pool ! x)] else pool)"
  have x: "x < length pool" using Cons.prems by simp
  have w1: "woken ch pool p1" "\<not> waits_on ch (p1 ! x)" "t_next (p1 ! i) = t_next (pool ! i)" "length p1 = length pool" for i
    using x by (auto simp: woken_def p1_def nth_list_update)
  have nx: "t_next (pool ! x) = Some (hd (xs @ [head]))" using Cons.prems by simp
  show ?case
  proof (cases "one \<and> waits_on ch (pool ! x) \<or> xs = []")
    case True
    then show ?thesis using w1 nx by (auto simp: wake_loop.simps [of one ch head x] p1_def Let_def)
  next
    case False
    have step: "wake_loop one ch head x pool = wake_loop one ch head (hd xs) p1"
      using False nx Cons.prems(3) by (cases xs) (auto simp: wake_loop.simps [of one ch head x pool] p1_def Let_def)
    have "walk p1 xs head" using Cons.prems(1) walk_cong [of xs p1 pool] w1(3) by simp
    then obtain q where q: "wake_loop one ch head (hd xs) p1 = Some q" "woken ch p1 q"
        "\<not> one \<longrightarrow> (\<forall>i \<in> set xs. \<not> waits_on ch (q ! i))"
      using Cons.IH [of p1] Cons.prems False w1(4) by (cases xs) auto
    have "woken ch pool q"
      using w1(1) q(2) by (auto simp: woken_def) (metis wake_sel(5))+
    moreover have "\<not> waits_on ch (q ! x)" using q(2) w1(2) by (metis woken_def)
    ultimately show ?thesis using step q by auto
  qed
qed simp

section \<open>The ring\<close>

definition live :: "kernel \<Rightarrow> nat set" where
  "live k = {i. i < length (task_pool k) \<and> t_state (get_task i k) \<noteq> TASK_UNUSED}"

text \<open>
  The used tasks are exactly the members of \<open>rs\<close>, the \<open>next\<close> pointers lead round \<open>rs\<close>, and the current
  task points to its first member.
\<close>

definition runq_ok :: "kernel \<Rightarrow> nat list \<Rightarrow> bool" where
  "runq_ok k rs \<longleftrightarrow> rs \<noteq> [] \<and> distinct rs \<and> set rs = live k \<and> walk (task_pool k) rs (hd rs) \<and>
     (\<exists>c. current k = Some c \<and> c < length (task_pool k) \<and> t_next (get_task c k) = Some (hd rs))"

definition alive :: "kernel \<Rightarrow> bool" where
  "alive k \<longleftrightarrow> (\<exists>c. current k = Some c \<and> c \<in> live k)"

text \<open>Changes that leave the ring alone and leave the tasks of \<open>xs\<close> ready.\<close>

definition mild :: "nat set \<Rightarrow> kernel \<Rightarrow> kernel \<Rightarrow> bool" where
  "mild xs k k' \<longleftrightarrow> current k' = current k \<and> length (task_pool k') = length (task_pool k) \<and>
     (\<forall>i. t_next (get_task i k') = t_next (get_task i k) \<and> pid (get_task i k') = pid (get_task i k) \<and>
          (t_state (get_task i k') = TASK_UNUSED \<longleftrightarrow> t_state (get_task i k) = TASK_UNUSED) \<and>
          (i \<in> xs \<longrightarrow> t_state (get_task i k) = TASK_READY \<longrightarrow> t_state (get_task i k') = TASK_READY))"

lemma mild_refl [simp, intro]: "mild xs k k"
  by (simp add: mild_def)

lemma mild_trans [trans]: "mild xs k k1 \<Longrightarrow> mild xs k1 k2 \<Longrightarrow> mild xs k k2"
  by (simp add: mild_def)

lemma mild_live: "mild xs k k' \<Longrightarrow> live k' = live k"
  by (auto simp: mild_def live_def)

lemma mild_alive: "mild xs k k' \<Longrightarrow> alive k \<Longrightarrow> alive k'"
  by (simp add: alive_def mild_live) (simp add: mild_def)

lemma mild_current: "mild xs k k' \<Longrightarrow> current k' = current k"
  by (simp add: mild_def)

lemma mild_task_find: "mild xs k k' \<Longrightarrow> task_find p k' = task_find p k"
  unfolding task_find_def mild_def get_task_def
  by (rule first_idx_pointwise) simp_all

lemma mild_ready: "mild xs k k' \<Longrightarrow> i \<in> xs \<Longrightarrow> t_state (get_task i k) = TASK_READY \<Longrightarrow> t_state (get_task i k') = TASK_READY"
  by (simp add: mild_def)

lemma mild_ring: "mild xs k k' \<Longrightarrow> runq_ok k rs \<Longrightarrow> runq_ok k' rs"
  using mild_live [of xs k k'] walk_cong [of rs "task_pool k'" "task_pool k" "hd rs"]
  by (auto simp: runq_ok_def mild_def get_task_def)

lemma get_set_task [simp]: "i < length (task_pool k) \<Longrightarrow> get_task i (set_task i t k) = t"
  by (simp add: get_task_def set_task_def)

lemma get_set_task_other [simp]: "j \<noteq> i \<Longrightarrow> get_task i (set_task j t k) = get_task i k"
  by (simp add: get_task_def set_task_def)

lemma set_task_sel [simp]: "current (set_task i t k) = current k" "length (task_pool (set_task i t k)) = length (task_pool k)"
  "k_vfs (set_task i t k) = k_vfs k" "k_vm (set_task i t k) = k_vm k"
  by (simp_all add: set_task_def)

lemma kfree_block_sel [simp]: "task_pool (kfree_block p k) = task_pool k" "current (kfree_block p k) = current k"
  "k_vfs (kfree_block p k) = k_vfs k" "k_vm (kfree_block p k) = k_vm k"
  by (simp_all add: kfree_block_def)

lemma get_task_upd [simp]: "get_task i (k\<lparr>k_vfs := v\<rparr>) = get_task i k" "get_task i (k\<lparr>k_vm := m\<rparr>) = get_task i k"
  "get_task i (k\<lparr>fpu_reg := f\<rparr>) = get_task i k" "get_task i (k\<lparr>tss_rsp0 := a\<rparr>) = get_task i k"
  "get_task i (k\<lparr>current := c\<rparr>) = get_task i k" "get_task i (kfree_block p k) = get_task i k"
  "get_task i (k\<lparr>next_pid := n\<rparr>) = get_task i k" "get_task i (k\<lparr>kfreed := l\<rparr>) = get_task i k"
  by (simp_all add: get_task_def kfree_block_def)

lemma get_set_task_if: "get_task i (set_task j t k) = (if i = j \<and> j < length (task_pool k) then t else get_task i k)"
  by (cases "j < length (task_pool k)") (auto simp: get_task_def set_task_def nth_list_update not_less list_update_beyond)

lemma mild_set_task:
  assumes "t_next t = t_next (get_task i k)" "pid t = pid (get_task i k)"
    "t_state t = TASK_UNUSED \<longleftrightarrow> t_state (get_task i k) = TASK_UNUSED"
    "i \<in> xs \<Longrightarrow> t_state (get_task i k) = TASK_READY \<Longrightarrow> t_state t = TASK_READY"
  shows "mild xs k (set_task i t k)"
  using assms by (auto simp: mild_def get_set_task_if)

lemma mild_upd [simp]: "mild xs k (k'\<lparr>k_vfs := v\<rparr>) = mild xs k k'" "mild xs k (k'\<lparr>k_vm := m\<rparr>) = mild xs k k'"
  "mild xs k (kfree_block p k') = mild xs k k'"
  by (simp_all add: mild_def kfree_block_def get_task_def)

section \<open>Operations that leave the ring alone\<close>

lemma mild_task_block: "current k = Some c \<Longrightarrow> c \<notin> xs \<Longrightarrow> c \<in> live k \<Longrightarrow> mild xs k (task_block ch k)"
  by (auto simp: task_block_def live_def intro!: mild_set_task)

lemma mild_woken: "woken ch (task_pool k) q \<Longrightarrow> mild xs k (k\<lparr>task_pool := q\<rparr>)"
  unfolding woken_def mild_def get_task_def by (auto simp: waits_on_def) (metis wake_sel task_state.distinct)+

lemma runq_ok_walk:
  assumes "runq_ok k rs" "i \<in> set rs"
  obtains xs where "walk (task_pool k) xs i" "hd xs = i" "xs \<noteq> []" "i \<notin> set (tl xs)" "distinct xs" "set xs = live k"
proof -
  obtain as bs where rs: "rs = as @ i # bs" using assms(2) by (auto simp: in_set_conv_decomp)
  have "walk (task_pool k) (as @ i # bs) (hd (as @ i # bs))" using assms(1) rs by (simp add: runq_ok_def)
  from walk_rotate [OF this] show ?thesis
    using that [of "i # bs @ as"] assms(1) rs by (auto simp: runq_ok_def)
qed

lemma task_wake_ring:
  assumes "runq_ok k rs" "alive k"
  shows "\<exists>k'. task_wake one ch k = Some k' \<and> mild xs k k' \<and> (\<not> one \<longrightarrow> (\<forall>i \<in> live k. \<not> waits_on ch (get_task i k')))"
proof -
  obtain c where c: "current k = Some c" "c \<in> set rs" using assms by (auto simp: alive_def runq_ok_def)
  obtain ys where ys: "walk (task_pool k) ys c" "hd ys = c" "ys \<noteq> []" "c \<notin> set (tl ys)" "distinct ys" "set ys = live k"
    using runq_ok_walk [OF assms(1) c(2)] by blast
  obtain q where "wake_loop one ch c c (task_pool k) = Some q" "woken ch (task_pool k) q"
      "\<not> one \<longrightarrow> (\<forall>i \<in> set ys. \<not> waits_on ch (q ! i))"
    using wake_loop_walk [of "task_pool k" ys c one ch] ys by (auto simp: live_def)
  then show ?thesis using mild_woken [of ch k q xs] ys(6) c(1) by (auto simp: task_wake_def get_task_def)
qed

lemma mild_task_wake: "runq_ok k rs \<Longrightarrow> alive k \<Longrightarrow> task_wake one ch k = Some k' \<Longrightarrow> mild xs k k'"
  using task_wake_ring [of k rs one ch xs] by auto

lemma mild_task_stop: "runq_ok k rs \<Longrightarrow> alive k \<Longrightarrow> i \<notin> xs \<Longrightarrow> task_stop i k = Some k' \<Longrightarrow> mild xs k k'"
proof -
  assume a: "runq_ok k rs" "alive k" "i \<notin> xs" "task_stop i k = Some k'"
  define k1 where "k1 = set_task i ((get_task i k)\<lparr>t_state := TASK_STOPPED, block_channel := None\<rparr>) k"
  show "mild xs k k'"
  proof (cases "t_state (get_task i k) = TASK_UNUSED \<or> t_state (get_task i k) = TASK_ZOMBIE")
    case True
    then show ?thesis using a(4) by (auto simp: task_stop_def)
  next
    case False
    have m: "mild xs k k1" unfolding k1_def by (rule mild_set_task) (use False a(3) in auto)
    have "task_wake False (Chan_task i) k1 = Some k'" using a(4) False by (simp add: task_stop_def task_wake_all_def k1_def)
    from mild_task_wake [OF mild_ring [OF m a(1)] mild_alive [OF m a(2)] this] m show ?thesis by (rule mild_trans [rotated])
  qed
qed

lemma mild_task_continue: "mild xs k (task_continue i k)"
  by (auto simp: task_continue_def intro!: mild_set_task)

text \<open>A signal that is not sent as a stop to one of \<open>xs\<close>.\<close>

lemma mild_signal_send:
  assumes "runq_ok k rs" "alive k" "signal_send p s k = Some (r, k')" "\<And>i. task_find p k = Some i \<Longrightarrow> i \<in> xs \<Longrightarrow> s \<noteq> SIGSTOP \<and> s \<noteq> SIGTSTP"
  shows "mild xs k k'"
proof (cases "task_find p k")
  case (Some i)
  let ?t = "get_task i k"
  have m1: "mild xs k (set_task i (?t\<lparr>pending_signals := w\<rparr>) k)" for w by (rule mild_set_task) simp_all
  have m2: "mild xs k (set_task i (if t_state ?t = TASK_BLOCKED then wake (?t\<lparr>pending_signals := w\<rparr>) else ?t\<lparr>pending_signals := w\<rparr>) k)" for w
    by (rule mild_set_task) (auto simp: wake_def)
  show ?thesis
    using assms(3) Some m1 m2 mild_task_stop [OF assms(1,2), of i xs] assms(4) [OF Some]
      mild_trans [OF m1 mild_task_continue]
    by (auto simp: signal_send_def Let_def split: if_splits)
qed (use assms(3) in \<open>auto simp: signal_send_def split: if_splits\<close>)

lemma mild_signal_register: "signal_register s h k = (r, k') \<Longrightarrow> mild xs k k'"
  by (auto simp: signal_register_def split: if_splits option.splits intro!: mild_set_task)

lemma mild_sched_calls: "runq_ok k rs \<Longrightarrow> alive k \<Longrightarrow> sched_calls cs k = Some k' \<Longrightarrow> mild xs k k'"
proof (induction cs k rule: sched_calls.induct)
  case (2 pi cs k)
  then obtain k1 where k1: "task_wake True (Chan_pipe pi) k = Some k1" "sched_calls cs k1 = Some k'"
    by (auto simp: task_wake_one_def split: option.splits)
  have m: "mild xs k k1" using mild_task_wake 2(2,3) k1(1) by blast
  show ?case using mild_trans [OF m 2(1) [of k1]] k1 mild_ring [OF m 2(2)] mild_alive [OF m 2(3)] by (simp add: task_wake_one_def)
next
  case (3 pi cs k)
  then obtain k1 where k1: "task_wake False (Chan_pipe pi) k = Some k1" "sched_calls cs k1 = Some k'"
    by (auto simp: task_wake_all_def split: option.splits)
  have m: "mild xs k k1" using mild_task_wake 3(2,3) k1(1) by blast
  show ?case using mild_trans [OF m 3(1) [of k1]] k1 mild_ring [OF m 3(2)] mild_alive [OF m 3(3)] by (simp add: task_wake_all_def)
next
  case (4 cs k)
  then obtain c r k1 where k1: "current k = Some c" "signal_send (pid (get_task c k)) SIGPIPE k = Some (r, k1)" "sched_calls cs k1 = Some k'"
    by (auto split: option.splits)
  have m: "mild xs k k1" by (rule mild_signal_send [OF 4(2,3) k1(2)]) (simp add: SIGPIPE_def SIGSTOP_def SIGTSTP_def)
  show ?case using mild_trans [OF m 4(1) [of c "(r, k1)" r k1]] k1 mild_ring [OF m 4(2)] mild_alive [OF m 4(3)] by simp
qed auto

lemma mild_in_vfs: "runq_ok k rs \<Longrightarrow> alive k \<Longrightarrow> in_vfs v k = Some k' \<Longrightarrow> mild xs k k'"
proof -
  assume a: "runq_ok k rs" "alive k" "in_vfs v k = Some k'"
  let ?k = "k\<lparr>k_vfs := v\<lparr>v_calls := []\<rparr>\<rparr>"
  have m: "mild xs k ?k" by simp
  show "mild xs k k'"
    using mild_trans [OF m mild_sched_calls [OF mild_ring [OF m a(1)] mild_alive [OF m a(2)]]] a(3) by (simp add: in_vfs_def)
qed

lemma mild_close_ofd: "runq_ok k rs \<Longrightarrow> alive k \<Longrightarrow> close_ofd ke fd k = Some (r, k') \<Longrightarrow> mild xs k k'"
  using mild_in_vfs by (auto simp: close_ofd_def split: option.splits)

lemma mild_close_slots: "runq_ok k rs \<Longrightarrow> alive k \<Longrightarrow> close_slots ke t js k = Some k' \<Longrightarrow> mild xs k k'"
proof (induction js arbitrary: k)
  case (Cons j js)
  then obtain k1 where k1: "(if 0 \<le> ofd (get_task t k) ! j then map_option snd (close_ofd ke (ofd (get_task t k) ! j) k) else Some k) = Some k1"
      "close_slots ke t js (set_task t ((get_task t k1)\<lparr>ofd := (ofd (get_task t k1))[j := OFD_NONE]\<rparr>) k1) = Some k'"
    by (simp split: option.splits)
  have "mild xs k k1"
    using k1(1) mild_close_ofd [OF Cons.prems(1,2)] by (auto split: if_splits)
  also have "mild xs k1 (set_task t ((get_task t k1)\<lparr>ofd := (ofd (get_task t k1))[j := OFD_NONE]\<rparr>) k1)" (is "mild xs k1 ?k2")
    by (rule mild_set_task) simp_all
  finally have m: "mild xs k ?k2" .
  show ?case using mild_trans [OF m Cons.IH [OF mild_ring [OF m Cons.prems(1)] mild_alive [OF m Cons.prems(2)] k1(2)]] .
qed simp

lemma mild_close_fds: "runq_ok k rs \<Longrightarrow> alive k \<Longrightarrow> task_close_fds ke t k = Some k' \<Longrightarrow> mild xs k k'"
  using mild_close_slots by (auto simp: task_close_fds_def)

lemma mild_task_exit:
  assumes "runq_ok k rs" "current k = Some c" "c \<in> live k" "c \<notin> xs" "task_exit ke k = Some k'"
  shows "mild xs k k'"
proof -
  have al: "alive k" using assms by (simp add: alive_def)
  obtain k1 where k1: "task_close_fds ke c k = Some k1" using assms(2,5) by (auto simp: task_exit_def split: option.splits)
  define t where "t = get_task c k1"
  define k2 where "k2 = (if cr3 t \<noteq> 0 \<and> cr3 t \<noteq> vmm_get_boot_cr3 (k_vm k1)
      then (set_task c (t\<lparr>cr3 := 0\<rparr>) k1)\<lparr>k_vm := vmm_destroy_address_space (cr3 t) (vmm_switch_address_space (vmm_get_boot_cr3 (k_vm k1)) (k_vm k1))\<rparr>
      else k1)"
  have ex: "task_wake False (Chan_task c) (set_task c ((get_task c k2)\<lparr>t_state := TASK_ZOMBIE\<rparr>) k2) = Some k'"
    using assms(5) unfolding task_exit_def assms(2) option.case k1 Let_def task_wake_all_def k2_def t_def .
  have m1: "mild xs k k1" by (rule mild_close_fds [OF assms(1) al k1])
  have "mild xs k1 (set_task c (t\<lparr>cr3 := 0\<rparr>) k1)" by (rule mild_set_task) (simp_all add: t_def)
  then have m2: "mild xs k k2" using m1 mild_trans unfolding k2_def by auto
  have "c \<in> live k2" using mild_live [OF m2] assms(3) by simp
  then have "mild xs k2 (set_task c ((get_task c k2)\<lparr>t_state := TASK_ZOMBIE\<rparr>) k2)"
    using assms(4) by (intro mild_set_task) (auto simp: live_def)
  from mild_trans [OF m2 this] have m3: "mild xs k (set_task c ((get_task c k2)\<lparr>t_state := TASK_ZOMBIE\<rparr>) k2)" .
  from mild_trans [OF m3 mild_task_wake [OF mild_ring [OF m3 assms(1)] mild_alive [OF m3 al] ex]] show ?thesis .
qed

section \<open>Leaving the ring\<close>

text \<open>Task \<open>i\<close> is unlinked and its structure released; the others keep their order.\<close>

definition dropped :: "nat \<Rightarrow> kernel \<Rightarrow> kernel \<Rightarrow> bool" where
  "dropped i k k' \<longleftrightarrow> current k' = current k \<and> length (task_pool k') = length (task_pool k) \<and>
     t_state (get_task i k') = TASK_UNUSED \<and>
     (\<exists>p. find_prev (task_pool k) i i = Some p \<and>
       (\<forall>j. t_next (get_task j k') = (if j = p then t_next (get_task i k) else t_next (get_task j k)))) \<and>
     (\<forall>j. j \<noteq> i \<longrightarrow> t_state (get_task j k') = t_state (get_task j k))"

lemma walk_drop:
  assumes "walk p (as @ i # bs) (hd (as @ i # bs))" "distinct (as @ i # bs)" "as @ bs \<noteq> []"
    "\<And>j. t_next (q ! j) = (if j = last (bs @ as) then t_next (p ! i) else t_next (p ! j))"
  shows "walk q (as @ bs) (hd (as @ bs))"
proof -
  obtain us l where cs: "bs @ as = us @ [l]" using assms(3) by (metis Nil_is_append_conv rev_exhaust)
  have r: "walk p (i # us @ [l]) i" using walk_rotate [OF assms(1)] cs by simp
  have d: "distinct (us @ [l])" using assms(2) unfolding cs [symmetric] by auto
  have nx: "t_next (p ! i) = Some (hd (us @ [l]))" using r by (cases us) auto
  have "walk q us l" using r d by (subst walk_cong [where p = p]) (auto simp: assms(4) cs walk_append)
  moreover have "t_next (q ! l) = Some (hd (us @ [l]))" using assms(4) [of l] nx cs by simp
  ultimately have "walk q (bs @ as) (hd (bs @ as))" unfolding cs by (simp add: walk_append)
  from walk_rotate [OF this] show ?thesis .
qed

lemma find_prev_ring:
  assumes "runq_ok k (as @ i # bs)"
  shows "find_prev (task_pool k) i i = Some (last (i # bs @ as))"
proof -
  have "walk (task_pool k) (i # bs @ as) i" using assms walk_rotate [of "task_pool k" as "i # bs"] by (simp add: runq_ok_def)
  from find_prev_walk [OF this] show ?thesis using assms by (auto simp: runq_ok_def)
qed

lemma dropped_ring:
  assumes "runq_ok k (as @ i # bs)" "dropped i k k'" "as @ bs \<noteq> []" "current k = Some c" "c \<noteq> i" "c \<in> live k"
  shows "runq_ok k' (as @ bs)" "alive k'"
proof -
  let ?l = "last (bs @ as)"
  have l: "find_prev (task_pool k) i i = Some ?l" using find_prev_ring [OF assms(1)] assms(3) by (auto simp: last_append)
  then have nx: "\<And>j. t_next (get_task j k') = (if j = ?l then t_next (get_task i k) else t_next (get_task j k))"
    using assms(2) unfolding dropped_def by auto
  have rk: "distinct (as @ i # bs)" "set (as @ i # bs) = live k" "walk (task_pool k) (as @ i # bs) (hd (as @ i # bs))"
      "t_next (get_task c k) = Some (hd (as @ i # bs))"
    using assms(1,4) by (auto simp: runq_ok_def)
  have w: "walk (task_pool k') (as @ bs) (hd (as @ bs))"
    using walk_drop [OF rk(3,1) assms(3)] nx by (simp add: get_task_def)
  have lv: "live k' = live k - {i}" using assms(2) by (auto simp: dropped_def live_def)
  have hdn: "t_next (get_task c k') = Some (hd (as @ bs))"
  proof (cases "as = []")
    case True
    have "walk (task_pool k) (i # bs) i" using rk(3) True by simp
    moreover have "c \<in> set bs" using assms(5,6) rk(2) True by auto
    ultimately have "c = last bs"
    proof -
      obtain us vs where bs: "bs = us @ c # vs" using \<open>c \<in> set bs\<close> by (auto simp: in_set_conv_decomp)
      have "t_next (get_task c k) = Some (hd (vs @ [i]))" using rk(3) True bs by (simp add: walk_append get_task_def)
      then have "vs = []" using rk(1,4) True bs by (cases vs) auto
      then show ?thesis using bs by simp
    qed
    then show ?thesis using nx [of c] True assms(3) rk(3) by (cases bs) (auto simp: get_task_def)
  next
    case False
    have "c \<noteq> ?l \<or> t_next (get_task i k) = t_next (get_task c k)"
    proof (rule disjCI)
      assume "\<not> t_next (get_task i k) = t_next (get_task c k)"
      show "c \<noteq> ?l"
      proof
        assume "c = ?l"
        have "walk (task_pool k) (i # bs @ as) i" using walk_rotate [OF rk(3)] by simp
        then have "walk (task_pool k) as i" by (simp add: walk_append)
        then have "t_next (get_task ?l k) = Some i" using walk_last False by (simp add: get_task_def)
        then show False using \<open>c = ?l\<close> rk(1,4) False by (cases as) auto
      qed
    qed
    then show ?thesis using nx [of c] rk(4) False by auto
  qed
  show "runq_ok k' (as @ bs)"
    using w lv rk(1,2) assms(2,3,4,6) hdn by (auto simp: runq_ok_def dropped_def live_def)
  show "alive k'" using lv assms(2,4,5,6) by (auto simp: alive_def dropped_def)
qed

lemma ring_current_last:
  assumes "runq_ok k rs" "current k = Some c" "c \<in> live k"
  shows "c = last rs"
proof -
  have "c \<in> set rs" using assms by (simp add: runq_ok_def)
  then obtain us vs where rs: "rs = us @ c # vs" by (auto simp: in_set_conv_decomp)
  have "t_next (get_task c k) = Some (hd (vs @ [hd rs]))" using assms(1) rs by (simp add: runq_ok_def walk_append get_task_def)
  moreover have "t_next (get_task c k) = Some (hd rs)" "distinct rs" using assms(1,2) by (auto simp: runq_ok_def)
  ultimately have "vs = []" using rs by (cases vs; cases us) auto
  then show ?thesis using rs by simp
qed

text \<open>Changes of other fields.\<close>

definition same_sched :: "kernel \<Rightarrow> kernel \<Rightarrow> bool" where
  "same_sched k k' \<longleftrightarrow> current k' = current k \<and> length (task_pool k') = length (task_pool k) \<and>
     (\<forall>i. t_next (get_task i k') = t_next (get_task i k) \<and> t_state (get_task i k') = t_state (get_task i k))"

lemma same_sched_refl [simp, intro]: "same_sched k k"
  by (simp add: same_sched_def)

lemma same_sched_trans [trans]: "same_sched k k1 \<Longrightarrow> same_sched k1 k2 \<Longrightarrow> same_sched k k2"
  by (simp add: same_sched_def)

lemma same_sched_set_task:
  "t_next t = t_next (get_task i k) \<Longrightarrow> t_state t = t_state (get_task i k) \<Longrightarrow> same_sched k (set_task i t k)"
  by (auto simp: same_sched_def get_set_task_if)

lemma same_sched_upd [simp]: "same_sched k (k'\<lparr>k_vfs := v\<rparr>) = same_sched k k'" "same_sched k (k'\<lparr>k_vm := m\<rparr>) = same_sched k k'"
  "same_sched k (kfree_block p k') = same_sched k k'" "same_sched k (k'\<lparr>fpu_reg := f\<rparr>) = same_sched k k'"
  "same_sched k (k'\<lparr>tss_rsp0 := a\<rparr>) = same_sched k k'"
  by (simp_all add: same_sched_def kfree_block_def get_task_def)

lemma same_sched_free: "same_sched k (set_task i ((get_task i k)\<lparr>stack_base := 0\<rparr>) (kfree_block p k))"
  "same_sched k (set_task i ((get_task i k)\<lparr>kstack_base := 0\<rparr>) (kfree_block p k))"
  by (rule same_sched_trans [OF _ same_sched_set_task]; simp)+

lemma same_sched_free_stacks: "same_sched k (free_stacks i k)"
proof -
  define k1 where "k1 = (if stack_base (get_task i k) \<noteq> 0
    then set_task i ((get_task i k)\<lparr>stack_base := 0\<rparr>) (kfree_block (stack_base (get_task i k)) k) else k)"
  have "same_sched k k1" using same_sched_free by (simp add: k1_def)
  also have "same_sched k1 (free_stacks i k)" using same_sched_free [of k1] unfolding free_stacks_def Let_def k1_def [symmetric] by simp
  finally show ?thesis .
qed

lemma dropped_unlink:
  assumes "runq_ok k (as @ i # bs)" "as @ bs \<noteq> []" "task_unlink i k = Some k1" "same_sched k1 k2"
  shows "dropped i k (set_task i ((get_task i k2)\<lparr>t_state := TASK_UNUSED\<rparr>) k2)"
proof -
  have p: "find_prev (task_pool k) i i = Some (last (bs @ as))" using find_prev_ring [OF assms(1)] assms(2) by (auto simp: last_append)
  have "last (bs @ as) \<in> set (bs @ as)" using assms(2) by (intro last_in_set) auto
  moreover have "set (as @ i # bs) = live k" "distinct (as @ i # bs)" using assms(1) by (auto simp: runq_ok_def)
  ultimately have l: "i < length (task_pool k)" "last (bs @ as) < length (task_pool k)" "last (bs @ as) \<noteq> i"
    by (auto simp: live_def)
  obtain y ys where y: "bs @ as = y # ys" using assms(2) by (cases "bs @ as") auto
  have "walk (task_pool k) (i # bs @ as) i" using assms(1) walk_rotate [of "task_pool k" as "i # bs"] by (simp add: runq_ok_def)
  then have "t_next (get_task i k) = Some y" unfolding y by (simp add: get_task_def)
  moreover have "y \<in> set (bs @ as)" unfolding y by simp
  ultimately have "t_next (get_task i k) \<noteq> Some i" using assms(1) by (auto simp: runq_ok_def)
  then have "k1 = set_task (last (bs @ as)) ((get_task (last (bs @ as)) k)\<lparr>t_next := t_next (get_task i k)\<rparr>) k"
    using assms(3) p by (simp add: task_unlink_def)
  then show ?thesis
    using assms(4) l p unfolding dropped_def same_sched_def by (auto simp: get_set_task_if)
qed

lemma task_unlink_ring: "runq_ok k rs \<Longrightarrow> i \<in> set rs \<Longrightarrow> \<exists>k1. task_unlink i k = Some k1"
  using find_prev_ring by (fastforce simp: task_unlink_def in_set_conv_decomp)

section \<open>Entering the ring\<close>

text \<open>The free structure \<open>i\<close> is taken and linked in behind the current task.\<close>

definition inserted :: "nat \<Rightarrow> kernel \<Rightarrow> kernel \<Rightarrow> bool" where
  "inserted i k k' \<longleftrightarrow> current k' = current k \<and> length (task_pool k') = length (task_pool k) \<and>
     i < length (task_pool k) \<and> i \<notin> live k \<and> t_state (get_task i k') \<noteq> TASK_UNUSED \<and>
     (\<exists>c. current k = Some c \<and> t_next (get_task i k') = t_next (get_task c k) \<and> t_next (get_task c k') = Some i \<and>
       (\<forall>j. j \<noteq> i \<and> j \<noteq> c \<longrightarrow> t_next (get_task j k') = t_next (get_task j k))) \<and>
     (\<forall>j. j \<noteq> i \<longrightarrow> t_state (get_task j k') = t_state (get_task j k))"

lemma inserted_ring:
  assumes "runq_ok k rs" "alive k" "inserted i k k'"
  shows "runq_ok k' (i # rs)" "alive k'"
proof -
  obtain c where c: "current k = Some c" "c \<in> live k" using assms(2) by (auto simp: alive_def)
  have nx: "t_next (get_task i k') = Some (hd rs)" "t_next (get_task c k') = Some i"
      "\<And>j. j \<noteq> i \<Longrightarrow> j \<noteq> c \<Longrightarrow> t_next (get_task j k') = t_next (get_task j k)"
    using assms(1,3) c(1) by (auto simp: inserted_def runq_ok_def)
  have rk: "rs \<noteq> []" "distinct rs" "set rs = live k" "walk (task_pool k) rs (hd rs)" using assms(1) by (auto simp: runq_ok_def)
  have i: "i \<notin> set rs" "i < length (task_pool k)" using rk(3) assms(3) by (auto simp: inserted_def)
  have cl: "c = last rs" by (rule ring_current_last [OF assms(1) c])
  obtain us where us: "rs = us @ [c]" using rk(1) cl by (metis append_butlast_last_id)
  have "t_next (task_pool k' ! j) = t_next (task_pool k ! j)" if "j \<in> set us" for j
    using nx(3) [of j] that us i(1) rk(2) by (auto simp: get_task_def)
  then have "walk (task_pool k') us c" using rk(4) us walk_cong [of us "task_pool k'" "task_pool k" c] by (simp add: walk_append)
  then have "walk (task_pool k') rs i" using nx(2) us by (simp add: walk_append get_task_def)
  moreover have lv: "live k' = insert i (live k)" using assms(3) by (auto simp: inserted_def live_def)
  ultimately show "runq_ok k' (i # rs)"
    using rk i c nx assms(3) by (auto simp: runq_ok_def inserted_def live_def get_task_def)
  show "alive k'" using lv c assms(3) by (auto simp: alive_def inserted_def)
qed

text \<open>A free structure is written and stays free.\<close>

definition spoiled :: "nat \<Rightarrow> kernel \<Rightarrow> kernel \<Rightarrow> bool" where
  "spoiled i k k' \<longleftrightarrow> current k' = current k \<and> length (task_pool k') = length (task_pool k) \<and>
     i \<notin> live k \<and> i \<notin> live k' \<and> (\<forall>j. j \<noteq> i \<longrightarrow> t_next (get_task j k') = t_next (get_task j k) \<and> t_state (get_task j k') = t_state (get_task j k))"

lemma spoiled_ring:
  assumes "runq_ok k rs" "alive k" "spoiled i k k'"
  shows "runq_ok k' rs" "alive k'"
proof -
  have i: "i \<notin> set rs" using assms by (auto simp: runq_ok_def spoiled_def)
  have lv: "live k' = live k" using assms(3) by (auto simp: spoiled_def live_def)
  have "walk (task_pool k') rs (hd rs) = walk (task_pool k) rs (hd rs)"
    by (rule walk_cong) (use i assms(3) in \<open>auto simp: spoiled_def get_task_def\<close>)
  then show "runq_ok k' rs" using assms lv i by (auto simp: runq_ok_def spoiled_def alive_def)
  show "alive k'" using lv assms by (auto simp: alive_def spoiled_def)
qed

end
