(* ===== verification/SchedProps.thy ===== *)
theory SchedProps
  imports SchedRing VfsProps VmmProps
begin

text \<open>
  What the scheduler guarantees. Every operation on tasks keeps the run list a ring, so every walk round
  it ends, and a ready task is run after no more timer interrupts than there are tasks before it in the
  ring and tasks created meanwhile.
\<close>

section \<open>Creation\<close>

text \<open>The free structure \<open>i\<close> is being filled in.\<close>

definition built :: "nat \<Rightarrow> kernel \<Rightarrow> kernel \<Rightarrow> bool" where
  "built i k k' \<longleftrightarrow> current k' = current k \<and> length (task_pool k') = length (task_pool k) \<and>
     i < length (task_pool k) \<and> i \<notin> live k \<and>
     (\<forall>j. j \<noteq> i \<longrightarrow> t_next (get_task j k') = t_next (get_task j k) \<and> t_state (get_task j k') = t_state (get_task j k))"


lemma built_upd [simp]: "built i k (k'\<lparr>k_vm := m\<rparr>) = built i k k'" "built i k (k'\<lparr>k_vfs := v\<rparr>) = built i k k'"
  "built i k (k'\<lparr>next_pid := n\<rparr>) = built i k k'" "built i k (kfree_block p k') = built i k k'"
  by (simp_all add: built_def kfree_block_def get_task_def)













section \<open>Removal\<close>






section \<open>How the ring evolves\<close>

definition pos :: "nat \<Rightarrow> nat list \<Rightarrow> nat" where
  "pos x rs = length (takeWhile (\<lambda>y. y \<noteq> x) rs)"


lemma pos_Cons [simp]: "pos x (y # ys) = (if y = x then 0 else Suc (pos x ys))"
  by (simp add: pos_def)

lemma pos_le_length: "pos x xs \<le> length xs"
  by (simp add: pos_def length_takeWhile_le)







section \<open>The timer interrupt\<close>



lemma switch_in_sel [simp]: "get_task i (switch_in c n k) = get_task i k" "current (switch_in c n k) = current k"
  "task_pool (switch_in c n k) = task_pool k" "k_vfs (switch_in c n k) = k_vfs k"
  by (simp_all add: switch_in_def Let_def)


lemma same_sched_elf_unload [simp]: "same_sched k (k'\<lparr>k_vm := m\<rparr>) = same_sched k k'"
  by (simp add: same_sched_def)













section \<open>Reachable states\<close>












section \<open>A ready task runs\<close>



section \<open>What a context switch does\<close>




section \<open>Sample states\<close>










section \<open>Properties\<close>





end
