(* ===== verification/SchedSwitch.thy ===== *)
theory SchedSwitch
  imports SchedProps
begin

text \<open>
  What a context switch preserves, and two cases in which the switch loses state: a task that was
  stopped while it ran, and a task structure that is reused after a signal terminated its owner.
\<close>

section \<open>One timer interrupt\<close>


text \<open>What the machine needs to go on with a task.\<close>

definition context_of :: "task \<Rightarrow> u64 \<times> u64 list \<times> u8 list \<times> bool \<times> bool \<times> u64 \<times> u64" where
  "context_of t = (t_rsp t, t_frame t, fpu_state t, fpu_used t, is_user t, kstack_top t, cr3 t)"

lemma context_of_get_set [simp]:
  "context_of (get_task j (set_task i (t\<lparr>t_next := x\<rparr>) k)) = context_of (get_task j (set_task i t k))"
  "context_of (get_task j (set_task i (t\<lparr>t_state := s\<rparr>) k)) = context_of (get_task j (set_task i t k))"
  by (simp_all add: get_set_task_if context_of_def)

lemma set_get_task [simp]: "set_task i (get_task i k) k = k"
  by (simp add: set_task_def get_task_def)








section \<open>A ring of one\<close>




section \<open>A sample exchange of two tasks\<close>





















section \<open>Properties\<close>







end
