(* ===== verification/ElfLoader.thy ===== *)
theory ElfLoader
  imports TaskCreate
begin

text \<open>
  The program loader, \<^verbatim>\<open>fs/elf_loader.c\<close>: an executable is read from the file system, its loadable segments
  are copied into fresh frames and the frames are mapped into an address space. Whether the two heap
  buffers can be allocated are parameters. The loader trusts the numbers in the file: where they make it
  access memory outside its buffers the result is \<open>None\<close>.
\<close>

unbundle bit_operations_syntax

section \<open>Headers\<close>

record elf_info =
  ei_entry :: u64
  load_base :: u64
  ei_pages :: u64

definition EHDR_SIZE :: nat where
  "EHDR_SIZE = 64"

definition PHDR_SIZE :: nat where
  "PHDR_SIZE = 56"

definition ELF_MAGIC :: u32 where
  "ELF_MAGIC = 0x464C457F"

definition elf_valid :: "u8 list \<Rightarrow> bool" where
  "elf_valid buf \<longleftrightarrow> le32 buf 0 = ELF_MAGIC \<and> buf ! 4 = 2 \<and> le16 buf 16 = 2 \<and> le16 buf 18 = 62"

record phdr =
  p_type :: u32
  p_offset :: u64
  p_vaddr :: u64
  p_filesz :: u64
  p_memsz :: u64

text \<open>Program header \<open>i\<close> of the file; \<open>None\<close> when it lies outside the buffer.\<close>

definition read_phdr :: "u8 list \<Rightarrow> nat \<Rightarrow> phdr option" where
  "read_phdr buf i =
     (let off = unat (le64 buf 32 + of_nat (i * unat (le16 buf 54))) in
      if length buf < off + PHDR_SIZE then None
      else Some \<lparr>p_type = le32 buf off, p_offset = le64 buf (off + 8), p_vaddr = le64 buf (off + 16),
                 p_filesz = le64 buf (off + 32), p_memsz = le64 buf (off + 40)\<rparr>)"

fun read_phdrs :: "u8 list \<Rightarrow> nat list \<Rightarrow> phdr list option" where
  "read_phdrs buf [] = Some []"
| "read_phdrs buf (i # is) =
     (case read_phdr buf i of
        None \<Rightarrow> None
      | Some p \<Rightarrow> map_option (Cons p) (read_phdrs buf is))"

text \<open>The page range of the loadable segments.\<close>

definition seg_range :: "phdr \<Rightarrow> u64 \<times> u64 \<Rightarrow> u64 \<times> u64" where
  "seg_range p = (\<lambda>(lo, hi).
     if p_type p \<noteq> 1 \<or> p_memsz p = 0 then (lo, hi)
     else (let s = p_vaddr p AND NOT 0xFFF; e = (p_vaddr p + p_memsz p + 0xFFF) AND NOT 0xFFF
           in (if s < lo then s else lo, if hi < e then e else hi)))"

definition elf_range :: "phdr list \<Rightarrow> u64 \<times> u64" where
  "elf_range ps = fold seg_range ps (- 1, 0)"

section \<open>Pages\<close>

text \<open>Cleared frames, or those already taken when memory runs out.\<close>

fun alloc_pages :: "nat \<Rightarrow> vm \<Rightarrow> bool \<times> u64 list \<times> vm" where
  "alloc_pages 0 v = (True, [], v)"
| "alloc_pages (Suc n) v =
     (case alloc_page v of
        (p, v1) \<Rightarrow>
          if p = 0 then (False, [], v1)
          else case alloc_pages n (fill_page p (\<lambda>i. 0) v1) of (ok, ps, v2) \<Rightarrow> (ok, p # ps, v2))"

definition put_byte :: "u64 \<Rightarrow> u8 \<Rightarrow> vm \<Rightarrow> vm" where
  "put_byte pa b v =
     (let a = pa AND NOT 7; k = 8 * unat (pa AND 7)
      in v\<lparr>vm_mem := (vm_mem v)(a := (vm_mem v a AND NOT (push_bit k 0xFF)) OR push_bit k (ucast b))\<rparr>)"

text \<open>The bytes \<open>off\<close> to the end of a segment.\<close>

fun copy_seg :: "u8 list \<Rightarrow> u64 \<Rightarrow> u64 list \<Rightarrow> phdr \<Rightarrow> nat list \<Rightarrow> vm \<Rightarrow> vm option" where
  "copy_seg buf lo pages p [] v = Some v"
| "copy_seg buf lo pages p (off # offs) v =
     (let va = p_vaddr p + of_nat off;
          idx = unat ((va - lo) div PAGE_SIZE);
          src = unat (p_offset p + of_nat off)
      in if length pages \<le> idx \<or> length buf \<le> src then None
         else copy_seg buf lo pages p offs (put_byte (pages ! idx + (va AND 0xFFF)) (buf ! src) v))"

fun copy_segs :: "u8 list \<Rightarrow> u64 \<Rightarrow> u64 list \<Rightarrow> phdr list \<Rightarrow> vm \<Rightarrow> vm option" where
  "copy_segs buf lo pages [] v = Some v"
| "copy_segs buf lo pages (p # ps) v =
     (if p_type p \<noteq> 1 \<or> p_filesz p = 0 then copy_segs buf lo pages ps v
      else case copy_seg buf lo pages p [0..<unat (p_filesz p)] v of
             None \<Rightarrow> None
           | Some v1 \<Rightarrow> copy_segs buf lo pages ps v1)"

fun map_pages :: "u64 \<Rightarrow> u64 \<Rightarrow> u64 list \<Rightarrow> vm \<Rightarrow> vm" where
  "map_pages root va [] v = v"
| "map_pages root va (p # ps) v =
     map_pages root (va + PAGE_SIZE) ps (vmm_map_page_in root va p (VMM_PRESENT OR VMM_WRITE OR VMM_USER) v)"

section \<open>Loading\<close>

partial_function (option) read_all :: "kenv \<Rightarrow> int \<Rightarrow> nat \<Rightarrow> u8 list \<Rightarrow> vfs_state \<Rightarrow> (u8 list \<times> vfs_state) option" where
  "read_all ke fd sz acc s =
     (if length acc < sz
      then (case vfs_read ke fd (of_nat (sz - length acc)) s of
              None \<Rightarrow> None
            | Some (n, bs, s1) \<Rightarrow> if n \<le> 0 then Some (acc, s1) else read_all ke fd sz (acc @ bs) s1)
      else Some (acc, s))"

text \<open>The file as it was read, \<open>None\<close> inside when it cannot be read completely.\<close>

definition read_file :: "kenv \<Rightarrow> bool \<Rightarrow> cstring \<Rightarrow> vfs_state \<Rightarrow> (u8 list option \<times> vfs_state) option" where
  "read_file ke km path s =
     (case vfs_stat_op ke path s of
        None \<Rightarrow> None
      | Some (None, s1) \<Rightarrow> Some (None, s1)
      | Some (Some st, s1) \<Rightarrow>
          if unat (st_size st) < EHDR_SIZE \<or> \<not> km then Some (None, s1)
          else case vfs_open ke path 0 s1 of
            None \<Rightarrow> None
          | Some (fd, s2) \<Rightarrow>
              if fd < 0 then Some (None, s2)
              else case read_all ke fd (unat (st_size st)) [] s2 of
                None \<Rightarrow> None
              | Some (buf, s3) \<Rightarrow>
                  (case vfs_close ke fd s3 of
                     None \<Rightarrow> None
                   | Some (r, s4) \<Rightarrow> Some (if length buf < unat (st_size st) then None else Some buf, s4)))"

definition load_image :: "bool \<Rightarrow> u64 \<Rightarrow> u8 list \<Rightarrow> vm \<Rightarrow> (elf_info option \<times> vm) option" where
  "load_image km root buf v =
     (if \<not> elf_valid buf then Some (None, v)
      else case read_phdrs buf [0..<unat (le16 buf 56)] of
        None \<Rightarrow> None
      | Some ps \<Rightarrow>
          (case elf_range ps of
             (lo, hi) \<Rightarrow>
               if hi \<le> lo \<or> \<not> km then Some (None, v)
               else
                 let n = (hi - lo) div PAGE_SIZE in
                 case alloc_pages (unat n) v of
                   (ok, pages, v1) \<Rightarrow>
                     if \<not> ok then Some (None, fold free_page pages v1)
                     else case copy_segs buf lo pages ps v1 of
                       None \<Rightarrow> None
                     | Some v2 \<Rightarrow> Some (Some \<lparr>ei_entry = le64 buf 24, load_base = lo, ei_pages = n\<rparr>, map_pages root lo pages v2)))"

definition elf_load :: "kenv \<Rightarrow> bool \<Rightarrow> bool \<Rightarrow> cstring \<Rightarrow> u64 \<Rightarrow> kernel \<Rightarrow> (elf_info option \<times> kernel) option" where
  "elf_load ke km1 km2 path root k =
     (case read_file ke km1 path (k_vfs k) of
        None \<Rightarrow> None
      | Some (None, s) \<Rightarrow> Some (None, k\<lparr>k_vfs := s\<rparr>)
      | Some (Some buf, s) \<Rightarrow>
          map_option (\<lambda>(r, v). (r, k\<lparr>k_vfs := s, k_vm := v\<rparr>)) (load_image km2 root buf (k_vm k)))"

end
