(* ===== verification/Console.thy ===== *)
theory Console
  imports Task RingBuffer
begin

text \<open>
  The console, \<^verbatim>\<open>kernel/console.c\<close>: line editing, the buffer of completed lines, the keys that send signals
  to the foreground task, and reading, which may block. What is echoed is recorded in order. The line
  buffer is the list of the characters typed so far.
\<close>

definition LINE_MAX :: nat where
  "LINE_MAX = 256"

definition READY_BUF_SIZE :: nat where
  "READY_BUF_SIZE = 1024"

definition SIGINT :: int where
  "SIGINT = 6"

datatype echo_event = Echo u8 | Echo_backspace

record console =
  fg_pid :: u64
  line_buf :: "u8 list"
  ready_buf :: "u32 ring"
  console_eof :: bool
  echoed :: "echo_event list"

definition ready_push :: "u8 \<Rightarrow> console \<Rightarrow> console" where
  "ready_push c s = s\<lparr>ready_buf := ring_write READY_BUF_SIZE [c] (ready_buf s)\<rparr>"

definition ready_reset :: "u32 ring \<Rightarrow> u32 ring" where
  "ready_reset r = r\<lparr>rg_head := 0, rg_tail := 0, rg_count := 0\<rparr>"

definition console_init :: "console \<Rightarrow> console" where
  "console_init s = s\<lparr>fg_pid := 0, line_buf := [], ready_buf := ready_reset (ready_buf s), console_eof := False\<rparr>"

definition console_set_fg :: "u64 \<Rightarrow> console \<Rightarrow> console" where
  "console_set_fg p s = s\<lparr>fg_pid := p, line_buf := [], ready_buf := ready_reset (ready_buf s), console_eof := False\<rparr>"

definition console_clear_fg :: "console \<Rightarrow> console" where
  "console_clear_fg s = s\<lparr>fg_pid := 0, line_buf := []\<rparr>"

definition console_get_fg :: "console \<Rightarrow> u64" where
  "console_get_fg s = fg_pid s"

definition console_echo :: "u8 list \<Rightarrow> console \<Rightarrow> console" where
  "console_echo cs s = s\<lparr>echoed := echoed s @ map Echo cs\<rparr>"

text \<open>A key that signals the foreground task and is echoed with a caret.\<close>

definition console_signal :: "int \<Rightarrow> u8 \<Rightarrow> console \<Rightarrow> kernel \<Rightarrow> (console \<times> kernel) option" where
  "console_signal signum letter s k =
     (if fg_pid s = 0 then Some (s, k)
      else map_option (\<lambda>(r, k1). ((console_echo [94, letter, 10] s)\<lparr>line_buf := []\<rparr>, k1)) (signal_send (fg_pid s) signum k))"

definition console_key_handler :: "u8 \<Rightarrow> console \<Rightarrow> kernel \<Rightarrow> (console \<times> kernel) option" where
  "console_key_handler c s k =
     (if c = 0x03 then console_signal SIGINT 67 s k
      else if c = 0x1A then console_signal SIGTSTP 90 s k
      else if c = 0x04
      then (if line_buf s = [] then map_option (\<lambda>k1. (s\<lparr>console_eof := True\<rparr>, k1)) (task_wake_all Chan_console k) else Some (s, k))
      else if c = 0x08
      then Some (if line_buf s \<noteq> [] then s\<lparr>line_buf := butlast (line_buf s), echoed := echoed s @ [Echo_backspace]\<rparr> else s, k)
      else if c = 0x0A
      then (let s1 = fold ready_push (line_buf s @ [10]) (console_echo [10] s)
            in map_option (\<lambda>k1. (s1\<lparr>line_buf := []\<rparr>, k1)) (task_wake_all Chan_console k))
      else if 0x80 \<le> c then Some (s, k)
      else if 32 \<le> c \<and> c \<le> 126 \<and> length (line_buf s) < LINE_MAX - 1
      then Some (console_echo [c] (s\<lparr>line_buf := line_buf s @ [c]\<rparr>), k)
      else Some (s, k))"

datatype con_rres = CData "u8 list" | CBlocked

text \<open>A read, and what it does when it was woken: with a signal pending it gives up.\<close>

definition console_take :: "int \<Rightarrow> console \<Rightarrow> u8 list \<times> console" where
  "console_take count s =
     (case ring_read READY_BUF_SIZE (nat count) (ready_buf s) of (cs, r) \<Rightarrow> (cs, s\<lparr>ready_buf := r\<rparr>))"

definition console_read :: "int \<Rightarrow> console \<Rightarrow> kernel \<Rightarrow> con_rres \<times> console \<times> kernel" where
  "console_read count s k =
     (if rg_count (ready_buf s) = 0 \<and> \<not> console_eof s then (CBlocked, s, task_block Chan_console k)
      else case console_take count s of (cs, s1) \<Rightarrow> (CData cs, s1, k))"

definition console_read_resume :: "int \<Rightarrow> console \<Rightarrow> kernel \<Rightarrow> con_rres option \<times> console \<times> kernel" where
  "console_read_resume count s k =
     (case current k of
        None \<Rightarrow> (None, s, k)
      | Some c \<Rightarrow>
          if pending_signals (get_task c k) \<noteq> 0 then (None, s, k)
          else case console_read count s k of (r, s1, k1) \<Rightarrow> (Some r, s1, k1))"

end
