(* ===== verification/Env.thy ===== *)
theory Env
  imports Vfs
begin

text \<open>
  Environment variables, the working directory and path names, \<^verbatim>\<open>kernel/env.c\<close>. A character field holds the
  string in it. Path normalisation is shown equal to a reference definition by components.
\<close>

section \<open>Environment variables\<close>

definition ENV_MAX_VARS :: nat where
  "ENV_MAX_VARS = 64"

definition ENV_KEY_MAX :: nat where
  "ENV_KEY_MAX = 32"

definition ENV_VAL_MAX :: nat where
  "ENV_VAL_MAX = 128"

record env_entry =
  env_key :: cstring
  env_value :: cstring
  env_used :: bool

record env_state =
  env_table :: "env_entry list"
  current_cwd :: cstring

definition env_get :: "cstring \<Rightarrow> env_state \<Rightarrow> cstring option" where
  "env_get key s =
     map_option (\<lambda>i. env_value (env_table s ! i)) (first_idx (\<lambda>e. env_used e \<and> env_key e = key) (env_table s))"

definition env_set :: "cstring \<Rightarrow> cstring \<Rightarrow> env_state \<Rightarrow> int \<times> env_state" where
  "env_set key val s =
     (if ENV_KEY_MAX \<le> length key \<or> ENV_VAL_MAX \<le> length val then (- 1, s)
      else case first_idx (\<lambda>e. env_used e \<and> env_key e = key) (env_table s) of
        Some i \<Rightarrow> (0, s\<lparr>env_table := (env_table s)[i := (env_table s ! i)\<lparr>env_value := val\<rparr>]\<rparr>)
      | None \<Rightarrow>
          (case first_idx (\<lambda>e. \<not> env_used e) (env_table s) of
             Some i \<Rightarrow> (0, s\<lparr>env_table := (env_table s)[i := \<lparr>env_key = key, env_value = val, env_used = True\<rparr>]\<rparr>)
           | None \<Rightarrow> (- 1, s)))"

definition env_unset :: "cstring \<Rightarrow> env_state \<Rightarrow> int \<times> env_state" where
  "env_unset key s =
     (case first_idx (\<lambda>e. env_used e \<and> env_key e = key) (env_table s) of
        Some i \<Rightarrow> (0, s\<lparr>env_table := (env_table s)[i := (env_table s ! i)\<lparr>env_used := False\<rparr>]\<rparr>)
      | None \<Rightarrow> (- 1, s))"

definition env_count :: "env_state \<Rightarrow> nat" where
  "env_count s = length (filter env_used (env_table s))"

definition env_key_at :: "int \<Rightarrow> env_state \<Rightarrow> cstring option" where
  "env_key_at index s =
     (let es = filter env_used (env_table s)
      in if 0 \<le> index \<and> index < int (length es) then Some (env_key (es ! nat index)) else None)"

definition env_val_at :: "int \<Rightarrow> env_state \<Rightarrow> cstring option" where
  "env_val_at index s =
     (let es = filter env_used (env_table s)
      in if 0 \<le> index \<and> index < int (length es) then Some (env_value (es ! nat index)) else None)"

text \<open>\<^verbatim>\<open>PATH=/bin\<close>, \<^verbatim>\<open>HOME=/\<close> and \<^verbatim>\<open>SHELL=plantos\<close>.\<close>

definition env_init :: "env_state \<Rightarrow> env_state" where
  "env_init s =
     (let s0 = s\<lparr>env_table := replicate ENV_MAX_VARS \<lparr>env_key = [], env_value = [], env_used = False\<rparr>\<rparr>;
          s1 = snd (env_set [80, 65, 84, 72] [47, 98, 105, 110] s0);
          s2 = snd (env_set [72, 79, 77, 69] [47] s1);
          s3 = snd (env_set [83, 72, 69, 76, 76] [112, 108, 97, 110, 116, 111, 115] s2)
      in s3\<lparr>current_cwd := [47]\<rparr>)"

section \<open>Paths\<close>

abbreviation dot :: cstring where
  "dot \<equiv> [46]"

abbreviation dotdot :: cstring where
  "dotdot \<equiv> [46, 46]"

text \<open>The absolute path, cut to the size of the local buffer.\<close>

definition absolute :: "cstring \<Rightarrow> cstring \<Rightarrow> cstring" where
  "absolute cwd input =
     (if input \<noteq> [] \<and> hd input = slash then field_copy VFS_PATH_MAX input
      else field_copy VFS_PATH_MAX (cwd @ (if 1 < length cwd then [slash] else []) @ input))"

text \<open>The components kept so far and the rest of the path; at most 64 components are kept.\<close>

function path_loop :: "cstring list \<Rightarrow> cstring \<Rightarrow> cstring list" where
  "path_loop st p =
     (let q = dropWhile (\<lambda>c. c = slash) p;
          comp = takeWhile (\<lambda>c. c \<noteq> slash) q;
          rest = dropWhile (\<lambda>c. c \<noteq> slash) q
      in if q = [] then st
         else if comp = dot then path_loop st rest
         else if comp = dotdot then path_loop (butlast st) (tl rest)
         else if 64 \<le> length st + 1 then st @ [comp]
         else path_loop (st @ [comp]) (tl rest))"
  by pat_completeness auto
termination
proof -
  have "length (dropWhile (\<lambda>c. c \<noteq> slash) (dropWhile (\<lambda>c. c = slash) p)) < length p"
    if ne: "dropWhile (\<lambda>c. c = slash) p \<noteq> []" for p :: cstring
  proof -
    obtain x xs where q: "dropWhile (\<lambda>c. c = slash) p = x # xs" using ne by (meson list.exhaust)
    have x: "x \<noteq> slash" using hd_dropWhile [OF ne] q by simp
    have "length (x # xs) \<le> length p" using length_dropWhile_le [of "\<lambda>c. c = slash" p] q(1) by simp
    then show ?thesis using q x length_dropWhile_le [of "\<lambda>c. c \<noteq> slash" xs] by simp
  qed
  then show ?thesis by (relation "measure (\<lambda>(st, p). length p)") (auto simp: less_imp_diff_less)
qed

declare path_loop.simps [simp del]

text \<open>The path is put together again; a component that does not fit ends it.\<close>

fun path_join :: "nat \<Rightarrow> cstring \<Rightarrow> cstring list \<Rightarrow> cstring" where
  "path_join outsize out [] = out"
| "path_join outsize out (c # cs) =
     (if int (length out) < int outsize - 2
      then (if int outsize - 1 \<le> int (length out + 1 + length c) then out @ [slash]
            else path_join outsize (out @ slash # c) cs)
      else out)"

definition path_resolve :: "cstring \<Rightarrow> cstring \<Rightarrow> nat \<Rightarrow> cstring" where
  "path_resolve cwd input outsize =
     (let comps = path_loop [] (absolute cwd input) in if comps = [] then [slash] else path_join outsize [] comps)"

definition cwd_get :: "env_state \<Rightarrow> cstring" where
  "cwd_get s = current_cwd s"

definition cwd_set :: "kenv \<Rightarrow> cstring \<Rightarrow> env_state \<Rightarrow> vfs_state \<Rightarrow> (int \<times> env_state \<times> vfs_state) option" where
  "cwd_set k path s v =
     (let resolved = path_resolve (current_cwd s) path VFS_PATH_MAX in
      if resolved = [slash] then Some (0, s\<lparr>current_cwd := resolved\<rparr>, v)
      else case vfs_stat_op k resolved v of
             None \<Rightarrow> None
           | Some (None, v1) \<Rightarrow> Some (- 1, s, v1)
           | Some (Some st, v1) \<Rightarrow>
               if st_type st \<noteq> VFS_DIR then Some (- 1, s, v1) else Some (0, s\<lparr>current_cwd := resolved\<rparr>, v1))"

text \<open>Whether a path names a file.\<close>

definition is_file :: "kenv \<Rightarrow> cstring \<Rightarrow> vfs_state \<Rightarrow> (bool \<times> vfs_state) option" where
  "is_file k path v =
     (case vfs_stat_op k path v of
        None \<Rightarrow> None
      | Some (None, v1) \<Rightarrow> Some (False, v1)
      | Some (Some st, v1) \<Rightarrow> Some (st_type st = VFS_FILE, v1))"

text \<open>The directories of a search path; a candidate that does not fit the local buffer has no result.\<close>

function lookup_loop :: "kenv \<Rightarrow> cstring \<Rightarrow> nat \<Rightarrow> cstring \<Rightarrow> vfs_state \<Rightarrow> (cstring option \<times> vfs_state) option" where
  "lookup_loop k name sz p v =
     (if p = [] then Some (None, v)
      else
        let dir = takeWhile (\<lambda>c. c \<noteq> 58) p; rest = tl (dropWhile (\<lambda>c. c \<noteq> 58) p) in
        if dir = [] then lookup_loop k name sz rest v
        else
          let cand = dir @ (if List.last dir \<noteq> slash then [slash] else []) @ name in
          if VFS_PATH_MAX \<le> length cand then None
          else case is_file k cand v of
                 None \<Rightarrow> None
               | Some (True, v1) \<Rightarrow> Some (Some (field_copy sz cand), v1)
               | Some (False, v1) \<Rightarrow> lookup_loop k name sz rest v1)"
  by pat_completeness auto
termination
proof -
  have "length (tl (dropWhile (\<lambda>c. c \<noteq> 58) p)) < length p" if "p \<noteq> []" for p :: cstring
    using that length_dropWhile_le [of "\<lambda>c. c \<noteq> 58" p] by (cases p) auto
  then show ?thesis by (relation "measure (\<lambda>(k, name, sz, p, v). length p)") auto
qed

declare lookup_loop.simps [simp del]

definition path_lookup :: "kenv \<Rightarrow> cstring \<Rightarrow> nat \<Rightarrow> env_state \<Rightarrow> vfs_state \<Rightarrow> (cstring option \<times> vfs_state) option" where
  "path_lookup k name sz s v =
     (if name \<noteq> [] \<and> (hd name = slash \<or> hd name = 46)
      then (let resolved = path_resolve (current_cwd s) name sz
            in map_option (\<lambda>(b, v1). (if b then Some resolved else None, v1)) (is_file k resolved v))
      else lookup_loop k name sz
             (field_copy ENV_VAL_MAX (case env_get [80, 65, 84, 72] s of None \<Rightarrow> [47, 98, 105, 110] | Some p \<Rightarrow> p)) v)"

section \<open>The reference definition of a normal path\<close>

text \<open>The parts of a path between the slashes.\<close>

fun parts :: "cstring \<Rightarrow> cstring list" where
  "parts [] = [[]]"
| "parts (c # cs) = (if c = slash then [] # parts cs else (c # hd (parts cs)) # tl (parts cs))"

definition norm_step :: "cstring list \<Rightarrow> cstring \<Rightarrow> cstring list" where
  "norm_step st c = (if c = [] \<or> c = dot then st else if c = dotdot then butlast st else st @ [c])"

definition path_norm :: "cstring \<Rightarrow> cstring list" where
  "path_norm p = foldl norm_step [] (parts p)"

definition render :: "cstring list \<Rightarrow> cstring" where
  "render cs = (if cs = [] then [slash] else concat (map (\<lambda>c. slash # c) cs))"

text \<open>The name a call means: absolute, or relative to the working directory.\<close>

definition full_path :: "cstring \<Rightarrow> cstring \<Rightarrow> cstring" where
  "full_path cwd input =
     (if input \<noteq> [] \<and> hd input = slash then input else cwd @ (if 1 < length cwd then [slash] else []) @ input)"

lemma parts_ne [simp]: "parts p \<noteq> []"
  by (cases p) auto

lemma parts_unfold:
  "parts p = takeWhile (\<lambda>c. c \<noteq> slash) p #
     (let r = dropWhile (\<lambda>c. c \<noteq> slash) p in if r = [] then [] else parts (tl r))"
  by (induction p) (auto simp: Let_def)

lemma norm_step_Nil [simp]: "norm_step st [] = st"
  by (simp add: norm_step_def)

lemma foldl_parts_skip: "foldl norm_step st (parts (dropWhile (\<lambda>c. c = slash) p)) = foldl norm_step st (parts p)"
  by (induction p) auto

lemma length_parts_skip: "length (parts (dropWhile (\<lambda>c. c = slash) p)) \<le> length (parts p)"
  by (induction p) auto

lemma path_loop_norm: "length st + length (parts p) < 64 \<Longrightarrow> path_loop st p = foldl norm_step st (parts p)"
proof (induction st p rule: path_loop.induct)
  case (1 st p)
  define q where "q = dropWhile (\<lambda>c. c = slash) p"
  define comp where "comp = takeWhile (\<lambda>c. c \<noteq> slash) q"
  define rest where "rest = dropWhile (\<lambda>c. c \<noteq> slash) q"
  have fq: "foldl norm_step st (parts p) = foldl norm_step st (parts q)" by (simp add: q_def foldl_parts_skip)
  have len: "length (parts q) \<le> length (parts p)" by (simp add: q_def length_parts_skip)
  have pq: "parts q = comp # (if rest = [] then [] else parts (tl rest))"
    using parts_unfold [of q, unfolded Let_def, folded comp_def rest_def] .
  have r0: "rest \<noteq> [] \<Longrightarrow> hd rest = slash" using hd_dropWhile [of "\<lambda>c. c \<noteq> slash" q] by (simp add: rest_def)
  have key: "foldl norm_step st (parts p) = foldl norm_step (norm_step st comp) (parts (tl rest))"
    unfolding fq pq by simp
  have rst: "foldl norm_step st' (parts rest) = foldl norm_step st' (parts (tl rest))" for st' using r0 by (cases rest) auto
  have cne: "q \<noteq> [] \<Longrightarrow> comp \<noteq> []" using hd_dropWhile [of "\<lambda>c. c = slash" p] by (simp add: comp_def q_def takeWhile_eq_Nil_iff)
  have lr: "length (parts (tl rest)) \<le> length (parts q)" "rest \<noteq> [] \<Longrightarrow> length (parts (tl rest)) < length (parts q)"
      "length (parts rest) \<le> length (parts q)"
    using pq r0 by (cases rest; simp)+
  note IH = 1(1-3) [OF q_def comp_def rest_def]
  note st = path_loop.simps [of st p, unfolded Let_def, folded q_def, folded comp_def, folded rest_def]
  consider "q = []" | "q \<noteq> []" "comp = dot" | "q \<noteq> []" "comp = dotdot" | "q \<noteq> []" "comp \<noteq> dot" "comp \<noteq> dotdot" by blast
  then show ?case
  proof cases
    case 1
    then show ?thesis using st fq by simp
  next
    case 2
    then have "path_loop st rest = foldl norm_step st (parts rest)" using IH(1) "1.prems" len lr by simp
    moreover have "path_loop st p = path_loop st rest" using st 2 by simp
    ultimately show ?thesis unfolding key rst using 2 by (simp add: norm_step_def)
  next
    case 3
    then have "path_loop (butlast st) (tl rest) = foldl norm_step (butlast st) (parts (tl rest))"
      using IH(2) "1.prems" len lr by simp
    moreover have "path_loop st p = path_loop (butlast st) (tl rest)" using st 3 by simp
    ultimately show ?thesis unfolding key using 3 by (simp add: norm_step_def)
  next
    case 4
    have l64: "length st + 1 < 64" using "1.prems" by (cases "parts p") auto
    have ns: "norm_step st comp = st @ [comp]" using 4 cne by (simp add: norm_step_def)
    have "path_loop (st @ [comp]) (tl rest) = foldl norm_step (st @ [comp]) (parts (tl rest))"
    proof (cases "rest = []")
      case True
      then show ?thesis by (simp add: path_loop.simps [of _ "[]"])
    next
      case False
      then show ?thesis using IH(3) 4 l64 "1.prems" len lr(2) by simp
    qed
    moreover have "path_loop st p = path_loop (st @ [comp]) (tl rest)" using st 4 l64 by simp
    ultimately show ?thesis unfolding key ns by simp
  qed
qed

lemma path_join_fits:
  "length (out @ concat (map (\<lambda>c. slash # c) cs)) + 2 \<le> outsize \<Longrightarrow> path_join outsize out cs = out @ concat (map (\<lambda>c. slash # c) cs)"
  by (induction cs arbitrary: out) auto

definition weight :: "cstring list \<Rightarrow> nat" where
  "weight cs = sum_list (map (\<lambda>c. if c = [] then 0 else length c + 1) cs)"

lemma weight_parts_tl: "weight (tl (parts p)) + length (hd (parts p)) \<le> length p"
proof (induction p)
  case (Cons c p)
  then show ?case by (cases "parts p") (auto simp: weight_def)
qed (simp add: weight_def)

lemma weight_parts: "weight (parts p) \<le> length p + 1"
  using weight_parts_tl [of p] by (cases "parts p") (auto simp: weight_def)

lemma length_norm: "length (concat (map (\<lambda>c. slash # c) (foldl norm_step st cs))) \<le>
   length (concat (map (\<lambda>c. slash # c) st)) + weight cs"
proof (induction cs arbitrary: st)
  case (Cons c cs)
  have b: "length (concat (map (\<lambda>c. slash # c) (butlast st))) \<le> length (concat (map (\<lambda>c. slash # c) st))"
    by (cases st rule: rev_cases) auto
  show ?case using Cons [of "norm_step st c"] b by (auto simp: norm_step_def weight_def)
qed (simp add: weight_def)

section \<open>Properties\<close>

text \<open>
  C39. \<^verbatim>\<open>path_resolve\<close> computes the normal form of a path: for a path that fits the buffers and has fewer than
  64 parts, the result is the absolute path in which empty parts and \<^verbatim>\<open>.\<close> are left out and \<^verbatim>\<open>..\<close> removes
  the part before it, never leading above the root.
\<close>
theorem path_resolve_normalises:
  assumes "cwd \<noteq> []" "hd cwd = slash" "length (full_path cwd input) + 2 \<le> VFS_PATH_MAX" "length (parts (full_path cwd input)) < 64"
  shows "path_resolve cwd input VFS_PATH_MAX = render (path_norm (full_path cwd input))"
proof -
  let ?p = "full_path cwd input"
  have ab: "absolute cwd input = ?p" using assms(3) by (auto simp: absolute_def full_path_def field_copy_def VFS_PATH_MAX_def)
  have "path_loop [] ?p = path_norm ?p" using path_loop_norm [of "[]" ?p] assms(4) by (simp add: path_norm_def)
  moreover have "length (concat (map (\<lambda>c. slash # c) (path_norm ?p))) \<le> length ?p"
  proof -
    have "?p \<noteq> []" "hd ?p = slash" using assms(1,2) by (auto simp: full_path_def)
    then obtain p' where p': "?p = slash # p'" by (cases ?p) auto
    have "weight (parts ?p) \<le> length ?p" using weight_parts [of p'] by (simp add: p' weight_def)
    then show ?thesis using length_norm [of "[]" "parts ?p"] by (simp add: path_norm_def)
  qed
  ultimately show ?thesis
    using path_join_fits [of "[]" "path_norm ?p" VFS_PATH_MAX] assms(3) by (auto simp: path_resolve_def ab render_def)
qed

text \<open>From \<^verbatim>\<open>/ab\<close>, the path \<^verbatim>\<open>../c/./d\<close> is \<^verbatim>\<open>/c/d\<close>.\<close>
theorem path_resolve_normalises_witness:
  "path_resolve [47, 97, 98] [46, 46, 47, 99, 47, 46, 47, 100] VFS_PATH_MAX = [47, 99, 47, 100]"
proof -
  have f: "full_path [47, 97, 98] [46, 46, 47, 99, 47, 46, 47, 100] = [47, 97, 98, 47, 46, 46, 47, 99, 47, 46, 47, 100]"
    by (simp add: full_path_def)
  have p: "parts [47, 97, 98, 47, 46, 46, 47, 99, 47, 46, 47, 100] = [[], [97, 98], [46, 46], [99], [46], [100]]" by simp
  show ?thesis
    using path_resolve_normalises [of "[47, 97, 98]" "[46, 46, 47, 99, 47, 46, 47, 100]"]
    by (simp add: f p path_norm_def norm_step_def render_def VFS_PATH_MAX_def)
qed

end
