(* ===== verification/Syscall.thy ===== *)
theory Syscall
  imports Sched ElfLoader Console Env
begin

text \<open>
  The system calls of \<^verbatim>\<open>cpu/syscall.c\<close>, one function per case of the handler. A call runs for the current
  task, whose index is the parameter \<open>c\<close>. Pointers to strings and buffers are given as what they point
  to; data for the caller is part of the result. A call that has to wait returns \<open>Blocked\<close>.
\<close>

unbundle bit_operations_syntax

section \<open>State and results\<close>

record sys =
  sk :: kernel
  scon :: console
  senv :: env_state

datatype sys_res = Ret int | Data "u8 list" | Blocked

text \<open>The file system checks permissions with the ids of the caller.\<close>

definition env_of :: "kenv \<Rightarrow> nat \<Rightarrow> kernel \<Rightarrow> kenv" where
  "env_of ke c k = ke\<lparr>cur_ids := Some (uid (get_task c k), gid (get_task c k))\<rparr>"

section \<open>Descriptors of a process\<close>

definition proc_to_ofd :: "nat \<Rightarrow> int \<Rightarrow> kernel \<Rightarrow> int" where
  "proc_to_ofd c fd k = (if fd < 0 \<or> int PROC_MAX_FDS \<le> fd then - 1 else ofd (get_task c k) ! nat fd)"

definition proc_alloc_fd :: "nat \<Rightarrow> kernel \<Rightarrow> int" where
  "proc_alloc_fd c k = (case first_idx (\<lambda>x. x = OFD_NONE) (ofd (get_task c k)) of None \<Rightarrow> - 1 | Some i \<Rightarrow> int i)"

definition set_ofd :: "nat \<Rightarrow> int \<Rightarrow> int \<Rightarrow> kernel \<Rightarrow> kernel" where
  "set_ofd c pfd x k = set_task c ((get_task c k)\<lparr>ofd := (ofd (get_task c k))[nat pfd := x]\<rparr>) k"

definition proc_install_fd :: "nat \<Rightarrow> int \<Rightarrow> kernel \<Rightarrow> int \<times> kernel" where
  "proc_install_fd c g k =
     (let pfd = proc_alloc_fd c k in if pfd < 0 then (- 1, k) else (pfd, set_ofd c pfd g k))"

definition sys_open :: "kenv \<Rightarrow> nat \<Rightarrow> cstring \<Rightarrow> int \<Rightarrow> kernel \<Rightarrow> (int \<times> kernel) option" where
  "sys_open ke c path flags k =
     (let vf = (if flags AND 0x40 \<noteq> 0 then VFS_O_CREATE else 0) OR (if flags AND 0x200 \<noteq> 0 then VFS_O_TRUNC else 0) in
      case vfs_open (env_of ke c k) path vf (k_vfs k) of
        None \<Rightarrow> None
      | Some (g, v) \<Rightarrow>
          if g < 0 then Some (- 1, k\<lparr>k_vfs := v\<rparr>)
          else (case proc_install_fd c g (k\<lparr>k_vfs := v\<rparr>) of
                  (pfd, k1) \<Rightarrow>
                    if pfd < 0
                    then (case vfs_close ke g (k_vfs k1) of None \<Rightarrow> None | Some (r, v1) \<Rightarrow> Some (- 1, k1\<lparr>k_vfs := v1\<rparr>))
                    else Some (pfd, k1)))"

definition sys_close :: "kenv \<Rightarrow> nat \<Rightarrow> int \<Rightarrow> kernel \<Rightarrow> (int \<times> kernel) option" where
  "sys_close ke c fd k =
     (let g = proc_to_ofd c fd k in
      if g = OFD_CONSOLE_IN \<or> g = OFD_CONSOLE_OUT then Some (0, set_ofd c fd OFD_NONE k)
      else if 0 \<le> g then close_ofd ke g (set_ofd c fd OFD_NONE k)
      else Some (- 1, k))"

definition sys_dup2 :: "kenv \<Rightarrow> nat \<Rightarrow> int \<Rightarrow> int \<Rightarrow> kernel \<Rightarrow> (int \<times> kernel) option" where
  "sys_dup2 ke c old_pfd new_pfd k =
     (if old_pfd < 0 \<or> int PROC_MAX_FDS \<le> old_pfd \<or> new_pfd < 0 \<or> int PROC_MAX_FDS \<le> new_pfd then Some (- 1, k)
      else
        let old_ofd = ofd (get_task c k) ! nat old_pfd; cur = ofd (get_task c k) ! nat new_pfd in
        if old_ofd = OFD_NONE then Some (- 1, k)
        else case (if 0 \<le> cur then map_option snd (close_ofd ke cur k) else Some k) of
          None \<Rightarrow> None
        | Some k1 \<Rightarrow>
            let k2 = set_ofd c new_pfd old_ofd k1
            in Some (new_pfd, if 0 \<le> old_ofd then k2\<lparr>k_vfs := vfs_fd_addref old_ofd (k_vfs k2)\<rparr> else k2))"

text \<open>The two descriptors of a new pipe.\<close>

definition sys_pipe :: "nat \<Rightarrow> kernel \<Rightarrow> ((int \<times> int) option \<times> kernel) option" where
  "sys_pipe c k =
     (case pipe_create (k_vfs k) of
        (None, v) \<Rightarrow> Some (None, k\<lparr>k_vfs := v\<rparr>)
      | (Some (r, w), v) \<Rightarrow>
          (case proc_install_fd c r (k\<lparr>k_vfs := v\<rparr>) of
             (pr, k1) \<Rightarrow>
               (case proc_install_fd c w k1 of
                  (pw, k2) \<Rightarrow>
                    if pr < 0 \<or> pw < 0
                    then (let k3 = (if 0 \<le> pr then set_ofd c pr OFD_NONE k2 else k2);
                              k4 = (if 0 \<le> pw then set_ofd c pw OFD_NONE k3 else k3);
                              v1 = snd (pipe_fd_close w (snd (pipe_fd_close r (k_vfs k4))))
                          in map_option (\<lambda>k5. (None, k5)) (in_vfs v1 k4))
                    else Some (Some (pr, pw), k2))))"

definition sys_read :: "kenv \<Rightarrow> nat \<Rightarrow> int \<Rightarrow> u64 \<Rightarrow> sys \<Rightarrow> (sys_res \<times> sys) option" where
  "sys_read ke c fd count s =
     (let k = sk s; g = proc_to_ofd c fd k in
      if g = OFD_CONSOLE_IN
      then (case console_read (sint (ucast count :: u32)) (scon s) k of
              (CData bs, con, k1) \<Rightarrow> Some (Data bs, s\<lparr>scon := con\<rparr>)
            | (CBlocked, con, k1) \<Rightarrow> Some (Blocked, s\<lparr>sk := k1\<rparr>))
      else if 0 \<le> g
      then (case pipe_fd_read g count (k_vfs k) of
              Some (PData bs, v) \<Rightarrow> map_option (\<lambda>k1. (Data bs, s\<lparr>sk := k1\<rparr>)) (in_vfs v k)
            | Some (PEof, v) \<Rightarrow> Some (Data [], s\<lparr>sk := k\<lparr>k_vfs := v\<rparr>\<rparr>)
            | Some (PBlocked, v) \<Rightarrow>
                (case pipe_of g PIPE_READ (k_vfs k) of
                   None \<Rightarrow> None
                 | Some pi \<Rightarrow> Some (Blocked, s\<lparr>sk := task_block (Chan_pipe pi) (k\<lparr>k_vfs := v\<rparr>)\<rparr>))
            | None \<Rightarrow>
                (case vfs_read ke g count (k_vfs k) of
                   None \<Rightarrow> None
                 | Some (n, bs, v) \<Rightarrow> Some (if n < 0 then Ret n else Data bs, s\<lparr>sk := k\<lparr>k_vfs := v\<rparr>\<rparr>)))
      else Some (Ret (- 1), s))"

definition sys_write :: "kenv \<Rightarrow> nat \<Rightarrow> int \<Rightarrow> u8 list \<Rightarrow> sys \<Rightarrow> (sys_res \<times> sys) option" where
  "sys_write ke c fd data s =
     (let k = sk s; g = proc_to_ofd c fd k in
      if g = OFD_CONSOLE_OUT then Some (Ret (int (length data)), s\<lparr>scon := console_echo data (scon s)\<rparr>)
      else if 0 \<le> g
      then (case pipe_fd_write (is_user (get_task c k)) g data (k_vfs k) of
              Some (WDone n, v) \<Rightarrow> map_option (\<lambda>k1. (Ret (int n), s\<lparr>sk := k1\<rparr>)) (in_vfs v k)
            | Some (WBroken n, v) \<Rightarrow> map_option (\<lambda>k1. (Ret n, s\<lparr>sk := k1\<rparr>)) (in_vfs v k)
            | Some (WBlocked n, v) \<Rightarrow>
                (case pipe_of g PIPE_WRITE (k_vfs k) of
                   None \<Rightarrow> None
                 | Some pi \<Rightarrow> Some (Blocked, s\<lparr>sk := task_block (Chan_pipe pi) (k\<lparr>k_vfs := v\<rparr>)\<rparr>))
            | None \<Rightarrow> map_option (\<lambda>(n, v). (Ret n, s\<lparr>sk := k\<lparr>k_vfs := v\<rparr>\<rparr>)) (vfs_write ke g data (k_vfs k)))
      else Some (Ret (- 1), s))"

definition sys_lseek :: "nat \<Rightarrow> int \<Rightarrow> int \<Rightarrow> int \<Rightarrow> kernel \<Rightarrow> (int \<times> kernel) option" where
  "sys_lseek c fd off whence k =
     (let g = proc_to_ofd c fd k in
      if 0 \<le> g then map_option (\<lambda>(r, v). (r, k\<lparr>k_vfs := v\<rparr>)) (vfs_lseek g off whence (k_vfs k)) else Some (- 1, k))"

definition sys_readdir :: "kenv \<Rightarrow> nat \<Rightarrow> int \<Rightarrow> kernel \<Rightarrow> ((cstring \<times> u32) option \<times> kernel) option" where
  "sys_readdir ke c fd k =
     (let g = proc_to_ofd c fd k in
      if 0 \<le> g then map_option (\<lambda>(r, v). (r, k\<lparr>k_vfs := v\<rparr>)) (vfs_readdir ke g (k_vfs k)) else Some (None, k))"

definition sys_fstat :: "kenv \<Rightarrow> cstring \<Rightarrow> kernel \<Rightarrow> ((u32 \<times> u32) option \<times> kernel) option" where
  "sys_fstat ke path k =
     map_option (\<lambda>(r, v). (map_option (\<lambda>st. (st_type st, st_size st)) r, k\<lparr>k_vfs := v\<rparr>)) (vfs_stat_op ke path (k_vfs k))"

definition sys_mkdir :: "kenv \<Rightarrow> nat \<Rightarrow> cstring \<Rightarrow> kernel \<Rightarrow> (int \<times> kernel) option" where
  "sys_mkdir ke c path k = map_option (\<lambda>(r, v). (r, k\<lparr>k_vfs := v\<rparr>)) (vfs_mkdir (env_of ke c k) path (k_vfs k))"

definition sys_unlink :: "kenv \<Rightarrow> nat \<Rightarrow> cstring \<Rightarrow> kernel \<Rightarrow> (int \<times> kernel) option" where
  "sys_unlink ke c path k = map_option (\<lambda>(r, v). (r, k\<lparr>k_vfs := v\<rparr>)) (vfs_unlink (env_of ke c k) path (k_vfs k))"

section \<open>Processes\<close>

definition sys_exit :: "kenv \<Rightarrow> nat \<Rightarrow> int \<Rightarrow> kernel \<Rightarrow> kernel option" where
  "sys_exit ke c code k = task_exit ke (set_task c ((get_task c k)\<lparr>exit_code := code\<rparr>) k)"

definition sys_yield :: "nat \<Rightarrow> kernel \<Rightarrow> int \<times> kernel" where
  "sys_yield c k =
     (0, if t_state (get_task c k) = TASK_RUNNING then set_task c ((get_task c k)\<lparr>t_state := TASK_READY\<rparr>) k else k)"

definition sys_getpid :: "nat \<Rightarrow> kernel \<Rightarrow> u64" where
  "sys_getpid c k = pid (get_task c k)"

definition sys_fork :: "u64 list \<Rightarrow> u64 \<Rightarrow> kernel \<Rightarrow> u64 \<times> kernel" where
  "sys_fork regs ks k =
     (case task_fork regs ks k of
        (Some i, k1) \<Rightarrow> (pid (get_task i k1), k1)
      | (None, k1) \<Rightarrow> (- 1, k1))"

definition sys_exec :: "kenv \<Rightarrow> nat \<Rightarrow> bool \<Rightarrow> bool \<Rightarrow> u64 \<Rightarrow> cstring \<Rightarrow> kernel \<Rightarrow> (u64 \<times> kernel) option" where
  "sys_exec ke c km1 km2 ks path k =
     (case vmm_create_address_space (k_vm k) of
        (root, v) \<Rightarrow>
          let k1 = k\<lparr>k_vm := v\<rparr> in
          if root = 0 then Some (- 1, k1)
          else case elf_load (env_of ke c k) km1 km2 path root k1 of
            None \<Rightarrow> None
          | Some (None, k2) \<Rightarrow> Some (- 1, k2\<lparr>k_vm := vmm_destroy_address_space root (k_vm k2)\<rparr>)
          | Some (Some info, k2) \<Rightarrow>
              (case task_create_user_elf path (ei_entry info) (load_base info) (ei_pages info) root [] ks k2 of
                 None \<Rightarrow> None
               | Some (Some i, k3) \<Rightarrow> Some (pid (get_task i k3), k3)
               | Some (None, k3) \<Rightarrow> Some (- 1, k3\<lparr>k_vm := vmm_destroy_address_space root (k_vm k3)\<rparr>)))"

definition sys_waitpid :: "u64 \<Rightarrow> kernel \<Rightarrow> (wait_res \<times> kernel) option" where
  "sys_waitpid p k = task_waitpid p k"

definition sys_kill :: "u64 \<Rightarrow> int \<Rightarrow> kernel \<Rightarrow> (int \<times> kernel) option" where
  "sys_kill p signum k = signal_send p signum k"

definition sys_signal :: "int \<Rightarrow> u64 \<Rightarrow> kernel \<Rightarrow> int \<times> kernel" where
  "sys_signal signum handler k = signal_register signum handler k"

definition sys_sigreturn :: "u64 list \<Rightarrow> kernel \<Rightarrow> u64 list option" where
  "sys_sigreturn regs k = signal_return regs (k_vm k)"

definition sys_getuid :: "nat \<Rightarrow> kernel \<Rightarrow> u64" where
  "sys_getuid c k = push_bit 16 (ucast (uid (get_task c k))) OR ucast (gid (get_task c k))"

definition sys_setuid :: "nat \<Rightarrow> u16 \<Rightarrow> u16 \<Rightarrow> kernel \<Rightarrow> int \<times> kernel" where
  "sys_setuid c new_uid new_gid k =
     (let t = get_task c k in
      if uid t = 0 \<or> new_uid = uid t then (0, set_task c (t\<lparr>uid := new_uid, gid := new_gid\<rparr>) k) else (- 1, k))"

section \<open>Memory\<close>

text \<open>Up to \<open>n\<close> cleared pages mapped from \<open>va\<close> on; the flag tells whether all were available.\<close>

fun grow_pages :: "u64 \<Rightarrow> u64 \<Rightarrow> u64 \<Rightarrow> nat \<Rightarrow> vm \<Rightarrow> bool \<times> vm" where
  "grow_pages root flags va 0 v = (True, v)"
| "grow_pages root flags va (Suc n) v =
     (case alloc_page v of
        (p, v1) \<Rightarrow>
          if p = 0 then (False, v1)
          else grow_pages root flags (va + PAGE_SIZE) n (vmm_map_page_in root va p flags (fill_page p (\<lambda>i. 0) v1)))"

definition page_count :: "u64 \<Rightarrow> u64 \<Rightarrow> nat" where
  "page_count a b = (if a < b then (unat (b - a) + 4095) div 4096 else 0)"

definition sys_sbrk :: "nat \<Rightarrow> u64 \<Rightarrow> kernel \<Rightarrow> u64 \<times> kernel" where
  "sys_sbrk c increment k =
     (let t = get_task c k in
      if cr3 t = 0 \<or> \<not> is_user t then (- 1, k)
      else if increment = 0 then (brk t, k)
      else if sint increment < 0 then (- 1, k)
      else
        let new_brk = brk t + increment;
            old_end = (brk t + 0xFFF) AND NOT 0xFFF;
            new_end = (new_brk + 0xFFF) AND NOT 0xFFF;
            v = snd (grow_pages (cr3 t) (VMM_PRESENT OR VMM_WRITE OR VMM_USER) old_end (page_count old_end new_end) (k_vm k))
        in (brk t, (set_task c (t\<lparr>brk := new_brk\<rparr>) k)\<lparr>k_vm := v\<rparr>))"

definition release_pages :: "u64 \<Rightarrow> u64 \<Rightarrow> nat \<Rightarrow> vm \<Rightarrow> vm" where
  "release_pages root va n v =
     fold (\<lambda>i v. let a = va + of_nat i * PAGE_SIZE; ph = vmm_get_physical_in root a v
                 in if ph \<noteq> 0 \<and> ph \<noteq> a then free_page ph v else v) [0..<n] v"

definition mmap_addr :: "u64 \<Rightarrow> u64 \<Rightarrow> vma list \<Rightarrow> u64 option" where
  "mmap_addr hint len vs =
     (if MMAP_BASE \<le> hint \<and> hint < MMAP_END \<and> vma_find vs hint = None then Some hint else vma_find_free vs len)"

definition sys_mmap :: "nat \<Rightarrow> u64 \<Rightarrow> u64 \<Rightarrow> u64 \<Rightarrow> kernel \<Rightarrow> (u64 \<times> kernel) option" where
  "sys_mmap c hint len0 prot k =
     (let t = get_task c k in
      if cr3 t = 0 \<or> \<not> is_user t \<or> len0 = 0 then Some (- 1, k)
      else
        let len = (len0 + PAGE_SIZE - 1) AND NOT (PAGE_SIZE - 1) in
        case mmap_addr hint len (vmas t) of
          None \<Rightarrow> None
        | Some addr \<Rightarrow>
            if addr = 0 then Some (- 1, k)
            else
              let vflags = (0x01 :: u32) OR (if prot AND 2 \<noteq> 0 then 0x02 else 0) OR (if prot AND 4 \<noteq> 0 then 0x04 else 0);
                  mflags = VMM_PRESENT OR VMM_USER OR (if prot AND 2 \<noteq> 0 then VMM_WRITE else 0)
              in case vma_add (vmas t) addr (addr + len) vflags 0 of
                   (r, vs) \<Rightarrow>
                     if r < 0 then Some (- 1, k)
                     else
                       let n = page_count addr (addr + len) in
                       case grow_pages (cr3 t) mflags addr n (k_vm k) of
                         (True, v) \<Rightarrow> Some (addr, (set_task c (t\<lparr>vmas := vs\<rparr>) k)\<lparr>k_vm := v\<rparr>)
                       | (False, v) \<Rightarrow>
                           Some (- 1, (set_task c (t\<lparr>vmas := vma_remove vs addr (addr + len)\<rparr>) k)
                                        \<lparr>k_vm := release_pages (cr3 t) addr n v\<rparr>))"

definition unmap_page :: "u64 \<Rightarrow> vm \<Rightarrow> vm" where
  "unmap_page va v =
     (let ph = vmm_get_physical va v in if ph \<noteq> 0 \<and> ph \<noteq> va then vmm_unmap_page va (free_page ph v) else v)"

definition sys_munmap :: "nat \<Rightarrow> u64 \<Rightarrow> u64 \<Rightarrow> kernel \<Rightarrow> int \<times> kernel" where
  "sys_munmap c addr0 len0 k =
     (let t = get_task c k in
      if cr3 t = 0 \<or> \<not> is_user t then (- 1, k)
      else
        let len = (len0 + PAGE_SIZE - 1) AND NOT (PAGE_SIZE - 1);
            addr = addr0 AND NOT (PAGE_SIZE - 1);
            v = fold (\<lambda>i. unmap_page (addr + of_nat i * PAGE_SIZE)) [0..<page_count addr (addr + len)] (k_vm k)
        in (0, (set_task c (t\<lparr>vmas := vma_remove (vmas t) addr (addr + len)\<rparr>) k)\<lparr>k_vm := v\<rparr>))"

section \<open>Environment\<close>

text \<open>The buffer size of \<^verbatim>\<open>getcwd\<close> must hold the terminator too.\<close>

definition sys_getcwd :: "u64 \<Rightarrow> sys \<Rightarrow> cstring option" where
  "sys_getcwd sz s = (if unat sz < length (cwd_get (senv s)) + 1 then None else Some (cwd_get (senv s)))"

definition sys_chdir :: "kenv \<Rightarrow> cstring \<Rightarrow> sys \<Rightarrow> (int \<times> sys) option" where
  "sys_chdir ke path s =
     map_option (\<lambda>(r, e, v). (r, s\<lparr>sk := (sk s)\<lparr>k_vfs := v\<rparr>, senv := e\<rparr>)) (cwd_set ke path (senv s) (k_vfs (sk s)))"

definition sys_getenv :: "cstring \<Rightarrow> sys \<Rightarrow> cstring option" where
  "sys_getenv key s = env_get key (senv s)"

definition sys_setenv :: "cstring \<Rightarrow> cstring \<Rightarrow> sys \<Rightarrow> int \<times> sys" where
  "sys_setenv key val s = (case env_set key val (senv s) of (r, e) \<Rightarrow> (r, s\<lparr>senv := e\<rparr>))"

end
