(* ===== verification/Spec2Isabelle.thy ===== *)
theory Spec2Isabelle
  imports KHeapSafety KUtil Vma BCache PipePreempt FatWrite VfsProps VmmProps SchedSwitch Syscall
begin

text \<open>
  PlantOS.
\<close>

end
